(* ===== verification/Tofu_Prelude.thy ===== *)
theory Tofu_Prelude
  imports Main "HOL-Library.Word"
begin

unbundle bit_operations_syntax

text \<open>
  Shared vocabulary of the development.

  \<^item> \<open>fault\<close> and \<open>'a res\<close>: every Rust panic is a value. \<open>Inl\<close> carries the reason
    (an arithmetic overflow, a failed index, an \<open>unwrap\<close> on \<open>None\<close>, an assertion, an
    explicit \<open>panic!\<close>), \<open>Inr\<close> the result; \<open>rbind\<close> stops at the first panic.
  \<^item> Checked machine arithmetic. A \<open>usize\<close> is a \<open>nat\<close> below \<open>2 ^ 64\<close>; \<open>uadd\<close>,
    \<open>usub\<close> and \<open>umul\<close> panic where the program built with overflow checks does. Where a
    theorem shows that an operation returns \<open>Inr\<close>, both build profiles agree.
    An \<open>isize\<close> is an \<open>int\<close> in \<open>- 2 ^ 63 ..< 2 ^ 63\<close>, and \<open>as_isize\<close>,
    \<open>as_usize\<close> are the two's-complement casts of the \<open>as\<close> operator.
  \<^item> Masks (\<open>bool list\<close>): the coordinate algebra of subsets of a byte sequence, on which
    the undo history rests.
  \<^item> Edits: sorted lists of (start, end, inserted bytes), the meaning of a delta.
\<close>

named_theorems res_simps \<open>panic-propagation and checked-arithmetic rules\<close>
named_theorems mask_simps \<open>coordinate algebra of masks\<close>

section \<open>Panics as values\<close>

datatype fault =
    ArithmeticOverflow
  | IndexOutOfBounds
  | UnwrapNone
  | AssertionFailed
  | ExplicitPanic
  | Unreachable
  | OutOfFuel

type_synonym 'a res = "fault + 'a"

fun rbind :: "'e + 'a \<Rightarrow> ('a \<Rightarrow> 'e + 'b) \<Rightarrow> 'e + 'b" where
  "rbind (Inl e) f = Inl e"
| "rbind (Inr x) f = f x"

lemma rbind_eq_Inr [res_simps]: "rbind m f = Inr y \<longleftrightarrow> (\<exists>x. m = Inr x \<and> f x = Inr y)"
  by (cases m) auto

lemma rbind_eq_Inl [res_simps]: "rbind m f = Inl e \<longleftrightarrow> m = Inl e \<or> (\<exists>x. m = Inr x \<and> f x = Inl e)"
  by (cases m) auto

lemma rbind_assoc: "rbind (rbind m f) g = rbind m (\<lambda>x. rbind (f x) g)"
  by (cases m) auto

lemma rbind_Inr_right [simp]: "rbind m Inr = m"
  by (cases m) auto

lemma rbind_cong [fundef_cong]:
  "m = m' \<Longrightarrow> (\<And>x. m' = Inr x \<Longrightarrow> f x = f' x) \<Longrightarrow> rbind m f = rbind m' f'"
  by (cases m') auto

lemma rbind_split: "P (rbind m f) \<longleftrightarrow> (\<forall>e. m = Inl e \<longrightarrow> P (Inl e)) \<and> (\<forall>x. m = Inr x \<longrightarrow> P (f x))"
  by (cases m) auto

text \<open>A loop that may panic in any iteration: \<open>for x in xs { acc = f(acc, x) }\<close>.\<close>

fun rfold :: "('b \<Rightarrow> 'a \<Rightarrow> 'e + 'b) \<Rightarrow> 'b \<Rightarrow> 'a list \<Rightarrow> 'e + 'b" where
  "rfold f acc [] = Inr acc"
| "rfold f acc (x # xs) = rbind (f acc x) (\<lambda>acc'. rfold f acc' xs)"

lemma rfold_append: "rfold f acc (xs @ ys) = rbind (rfold f acc xs) (\<lambda>acc'. rfold f acc' ys)"
  by (induction xs arbitrary: acc) (auto simp: rbind_assoc)

fun rmap :: "('a \<Rightarrow> 'e + 'b) \<Rightarrow> 'a list \<Rightarrow> 'e + 'b list" where
  "rmap f [] = Inr []"
| "rmap f (x # xs) = rbind (f x) (\<lambda>y. rbind (rmap f xs) (\<lambda>ys. Inr (y # ys)))"

lemma rmap_Inr_map: "(\<And>x. x \<in> set xs \<Longrightarrow> f x = Inr (g x)) \<Longrightarrow> rmap f xs = Inr (map g xs)"
  by (induction xs) auto

lemma rmap_length: "rmap f xs = Inr ys \<Longrightarrow> length ys = length xs"
  by (induction xs arbitrary: ys) (auto simp: res_simps)

text \<open>\<open>v[i]\<close>, and \<open>o.unwrap()\<close>.\<close>

definition index :: "'a list \<Rightarrow> nat \<Rightarrow> 'a res" where
  "index xs i = (if i < length xs then Inr (xs ! i) else Inl IndexOutOfBounds)"

lemma index_Inr [simp]: "i < length xs \<Longrightarrow> index xs i = Inr (xs ! i)"
  by (simp add: index_def)

lemma index_eq_Inr [res_simps]: "index xs i = Inr x \<longleftrightarrow> i < length xs \<and> x = xs ! i"
  by (auto simp: index_def)

fun unwrap :: "'a option \<Rightarrow> 'a res" where
  "unwrap None = Inl UnwrapNone"
| "unwrap (Some x) = Inr x"

text \<open>\<open>&v[a..b]\<close>: panics unless \<open>a \<le> b \<le> v.len()\<close>.\<close>

definition slice :: "'a list \<Rightarrow> nat \<Rightarrow> nat \<Rightarrow> 'a list res" where
  "slice xs a b = (if a \<le> b \<and> b \<le> length xs then Inr (take (b - a) (drop a xs))
                   else Inl IndexOutOfBounds)"

lemma slice_Inr [simp]: "a \<le> b \<Longrightarrow> b \<le> length xs \<Longrightarrow> slice xs a b = Inr (take (b - a) (drop a xs))"
  by (simp add: slice_def)

text \<open>\<open>Vec::remove\<close>, \<open>Vec::insert\<close>, \<open>v[i] = x\<close>.\<close>

definition vec_remove :: "'a list \<Rightarrow> nat \<Rightarrow> 'a list res" where
  "vec_remove xs i = (if i < length xs then Inr (take i xs @ drop (Suc i) xs) else Inl IndexOutOfBounds)"

definition vec_insert :: "'a list \<Rightarrow> nat \<Rightarrow> 'a \<Rightarrow> 'a list res" where
  "vec_insert xs i x = (if i \<le> length xs then Inr (take i xs @ x # drop i xs) else Inl IndexOutOfBounds)"

definition vec_set :: "'a list \<Rightarrow> nat \<Rightarrow> 'a \<Rightarrow> 'a list res" where
  "vec_set xs i x = (if i < length xs then Inr (xs[i := x]) else Inl IndexOutOfBounds)"

section \<open>Checked machine arithmetic\<close>

type_synonym u8 = "8 word"
type_synonym bytes = "u8 list"

definition usize_max :: nat where "usize_max = 2 ^ 64 - 1"
definition isize_max :: int where "isize_max = 2 ^ 63 - 1"
definition isize_min :: int where "isize_min = - (2 ^ 63)"

definition uadd :: "nat \<Rightarrow> nat \<Rightarrow> nat res" where
  "uadd a b = (if a + b \<le> usize_max then Inr (a + b) else Inl ArithmeticOverflow)"

definition usub :: "nat \<Rightarrow> nat \<Rightarrow> nat res" where
  "usub a b = (if b \<le> a then Inr (a - b) else Inl ArithmeticOverflow)"

definition umul :: "nat \<Rightarrow> nat \<Rightarrow> nat res" where
  "umul a b = (if a * b \<le> usize_max then Inr (a * b) else Inl ArithmeticOverflow)"

definition saturating_umul :: "nat \<Rightarrow> nat \<Rightarrow> nat" where
  "saturating_umul a b = min (a * b) usize_max"

text \<open>\<open>a % b\<close> and \<open>a / b\<close> panic on a zero divisor.\<close>

definition umod :: "nat \<Rightarrow> nat \<Rightarrow> nat res" where
  "umod a b = (if b = 0 then Inl ArithmeticOverflow else Inr (a mod b))"

definition udiv :: "nat \<Rightarrow> nat \<Rightarrow> nat res" where
  "udiv a b = (if b = 0 then Inl ArithmeticOverflow else Inr (a div b))"

definition ichecked :: "int \<Rightarrow> int res" where
  "ichecked i = (if isize_min \<le> i \<and> i \<le> isize_max then Inr i else Inl ArithmeticOverflow)"

definition saturating_imul :: "int \<Rightarrow> int \<Rightarrow> int" where
  "saturating_imul a b = max isize_min (min isize_max (a * b))"

definition as_isize :: "nat \<Rightarrow> int" where
  "as_isize n = (if int n \<le> isize_max then int n else int n - 2 ^ 64)"

definition as_usize :: "int \<Rightarrow> nat" where
  "as_usize i = nat (i mod 2 ^ 64)"

lemma uadd_Inr [simp]: "a + b \<le> usize_max \<Longrightarrow> uadd a b = Inr (a + b)"
  by (simp add: uadd_def)

lemma uadd_eq_Inr [res_simps]: "uadd a b = Inr c \<longleftrightarrow> c = a + b \<and> a + b \<le> usize_max"
  by (auto simp: uadd_def)

lemma usub_Inr [simp]: "b \<le> a \<Longrightarrow> usub a b = Inr (a - b)"
  by (simp add: usub_def)

lemma usub_eq_Inr [res_simps]: "usub a b = Inr c \<longleftrightarrow> c = a - b \<and> b \<le> a"
  by (auto simp: usub_def)

lemma umod_Inr [simp]: "0 < b \<Longrightarrow> umod a b = Inr (a mod b)"
  by (simp add: umod_def)

lemma udiv_Inr [simp]: "0 < b \<Longrightarrow> udiv a b = Inr (a div b)"
  by (simp add: udiv_def)

lemma ichecked_Inr [simp]: "isize_min \<le> i \<Longrightarrow> i \<le> isize_max \<Longrightarrow> ichecked i = Inr i"
  by (simp add: ichecked_def)

lemma as_isize_small [simp]: "int n \<le> isize_max \<Longrightarrow> as_isize n = int n"
  by (simp add: as_isize_def)

lemma as_usize_nonneg [simp]: "0 \<le> i \<Longrightarrow> i \<le> isize_max \<Longrightarrow> as_usize i = nat i"
  by (simp add: as_usize_def isize_max_def)

text \<open>The length of a Rust vector or rope never exceeds \<open>isize::MAX\<close>.\<close>

definition fits :: "nat \<Rightarrow> bool" where
  "fits n \<longleftrightarrow> int n \<le> isize_max"

lemma fits_mono: "fits n \<Longrightarrow> m \<le> n \<Longrightarrow> fits m"
  by (simp add: fits_def)

lemma fits_Suc_usize: "fits n \<Longrightarrow> n + 1 \<le> usize_max"
  by (simp add: fits_def isize_max_def usize_max_def)

lemma fits_add_usize: "fits n \<Longrightarrow> fits m \<Longrightarrow> n + m \<le> usize_max"
  by (simp add: fits_def isize_max_def usize_max_def)

lemma fits_as_isize [simp]: "fits n \<Longrightarrow> as_isize n = int n"
  by (simp add: fits_def)

end
