(* ===== verification/Mask_Algebra.thy ===== *)
theory Mask_Algebra
  imports Tofu_Prelude
begin

text \<open>
  The mathematics below the undo history and the edit operations, independent of any rope.

  A \<open>bool list\<close> is a subset of the positions of a sequence of the same length.
  \<open>keep m xs\<close> deletes the subset, \<open>select m xs\<close> retains only it, \<open>expand a m\<close> maps a
  subset \<open>a\<close> of the positions outside \<open>m\<close> into the coordinates of the longer sequence,
  \<open>expand_union a m\<close> does the same and adds \<open>m\<close> itself.

  An edit script is a list of (start, end, text): sorted, non-overlapping replacements.
  \<open>apply_edits\<close> is its effect on a byte sequence and \<open>coord\<close> its effect on an offset.
\<close>

section \<open>Subsets of positions\<close>

fun keep :: "bool list \<Rightarrow> 'a list \<Rightarrow> 'a list" where
  "keep (b # m) (x # xs) = (if b then keep m xs else x # keep m xs)"
| "keep _ _ = []"

fun select :: "bool list \<Rightarrow> 'a list \<Rightarrow> 'a list" where
  "select (b # m) (x # xs) = (if b then x # select m xs else select m xs)"
| "select _ _ = []"

fun expand :: "bool list \<Rightarrow> bool list \<Rightarrow> bool list" where
  "expand a [] = []"
| "expand a (True # m) = False # expand a m"
| "expand (x # a) (False # m) = x # expand a m"
| "expand [] (False # m) = False # expand [] m"

fun expand_union :: "bool list \<Rightarrow> bool list \<Rightarrow> bool list" where
  "expand_union a [] = []"
| "expand_union a (True # m) = True # expand_union a m"
| "expand_union (x # a) (False # m) = x # expand_union a m"
| "expand_union [] (False # m) = False # expand_union [] m"

definition mask_union :: "bool list \<Rightarrow> bool list \<Rightarrow> bool list" where
  "mask_union a b = map2 (\<or>) a b"

definition outside :: "bool list \<Rightarrow> nat" where
  "outside m = length (filter Not m)"

lemma outside_simps [simp]:
  "outside [] = 0"
  "outside (x # m) = (if x then outside m else Suc (outside m))"
  by (simp_all add: outside_def)

lemma outside_le: "outside m \<le> length m"
  by (simp add: outside_def)

lemma length_expand [mask_simps, simp]: "length (expand a m) = length m"
  by (induction a m rule: expand.induct) auto

lemma length_expand_union [mask_simps, simp]: "length (expand_union a m) = length m"
  by (induction a m rule: expand_union.induct) auto

lemma length_mask_union [mask_simps, simp]: "length (mask_union a b) = min (length a) (length b)"
  by (simp add: mask_union_def)

lemma mask_union_simps [simp]:
  "mask_union [] b = []" "mask_union a [] = []"
  "mask_union (x # a) (y # b) = (x \<or> y) # mask_union a b"
  by (simp_all add: mask_union_def)

lemma length_keep: "length m = length xs \<Longrightarrow> length (keep m xs) = outside m"
proof (induction m xs rule: list_induct2)
  case (Cons b m x xs)
  then show ?case by (cases b) auto
qed simp

lemma length_select_outside: "length m = length xs \<Longrightarrow> length (select m xs) + outside m = length m"
proof (induction m xs rule: list_induct2)
  case (Cons b m x xs)
  then show ?case by (cases b) auto
qed simp

lemma keep_no_subset: "True \<notin> set m \<Longrightarrow> length m = length xs \<Longrightarrow> keep m xs = xs"
  by (induction m xs rule: keep.induct) auto

lemma keep_Not_select: "length m = length xs \<Longrightarrow> keep (map Not m) xs = select m xs"
  by (induction m xs rule: list_induct2) auto

lemma expand_no_subset: "True \<notin> set m \<Longrightarrow> length a = length m \<Longrightarrow> expand a m = a"
proof (induction a m rule: expand.induct)
qed auto

text \<open>
  Deleting an expanded subset as well as the subset it was expanded through is deleting in two
  steps; retaining it is retaining after the first deletion.
\<close>

lemma keep_expand_union:
  "outside m = length a \<Longrightarrow> length m = length xs \<Longrightarrow>
    keep (expand_union a m) xs = keep a (keep m xs)"
proof (induction a m arbitrary: xs rule: expand_union.induct)
  case (2 a m)
  then show ?case by (cases xs) auto
next
  case (3 x a m)
  then show ?case by (cases xs) auto
qed auto

lemma expand_union_eq: "outside m = length a \<Longrightarrow> expand_union a m = mask_union (expand a m) m"
  by (induction a m rule: expand_union.induct) auto

lemma keep_union_expand:
  "outside m = length a \<Longrightarrow> length m = length xs \<Longrightarrow>
    keep (mask_union (expand a m) m) xs = keep a (keep m xs)"
  by (simp add: keep_expand_union flip: expand_union_eq)

lemma select_expand:
  "outside m = length a \<Longrightarrow> length m = length xs \<Longrightarrow>
    select (expand a m) xs = select a (keep m xs)"
proof (induction a m arbitrary: xs rule: expand.induct)
  case (2 a m)
  then show ?case by (cases xs) auto
next
  case (3 x a m)
  then show ?case by (cases xs) auto
qed auto

lemma keep_expand_self [mask_simps]: "outside m = length a \<Longrightarrow> keep m (expand a m) = a"
  by (induction a m rule: expand.induct) auto

text \<open>Deleting a union: first one part, then what is left of the other.\<close>

lemma keep_mask_union:
  "length a = length b \<Longrightarrow> length b = length xs \<Longrightarrow>
    keep (mask_union a b) xs = keep (keep b a) (keep b xs)"
proof (induction a b arbitrary: xs rule: list_induct2)
  case (Cons x a y b)
  then show ?case by (cases xs; cases y) auto
qed simp

definition mask_disjoint :: "bool list \<Rightarrow> bool list \<Rightarrow> bool" where
  "mask_disjoint a b \<longleftrightarrow> list_all2 (\<lambda>x y. \<not> (x \<and> y)) a b"

lemma select_disjoint:
  "mask_disjoint a b \<Longrightarrow> length b = length xs \<Longrightarrow> select a xs = select (keep b a) (keep b xs)"
  unfolding mask_disjoint_def
proof (induction a b arbitrary: xs rule: list_all2_induct)
  case (Cons x a y b)
  then show ?case by (cases xs; cases y) auto
qed simp

text \<open>
  The square of the history's \<open>chain\<close>: a subset \<open>a\<close> of the text left by \<open>d\<close>, carried
  into the union through the deletions \<open>d\<close> and then through the insertions \<open>n\<close>, is, seen
  without the deletions, just \<open>a\<close> carried through the insertions seen without the deletions.
\<close>

lemma keep_expand_expand:
  "outside d = length a \<Longrightarrow> outside n = length d \<Longrightarrow>
    keep (expand d n) (expand (expand a d) n) = expand a (keep (expand d n) n)"
proof (induction d n arbitrary: a rule: expand.induct)
  case (3 x d n)
  then show ?case by (cases a; cases x) auto
qed auto

lemma keep_expand_expand_union:
  "length d = length i \<Longrightarrow> outside n = length d \<Longrightarrow>
    keep (expand d n) (mask_union (expand i n) n) = expand_union (keep d i) (keep (expand d n) n)"
proof (induction d n arbitrary: i rule: expand.induct)
  case (2 a m)
  then show ?case by (cases i) auto
next
  case (3 x d n)
  then show ?case by (cases i; cases x) auto
qed auto

lemma mask_disjoint_expand:
  "outside m = length a \<Longrightarrow> mask_disjoint m (expand a m)"
  unfolding mask_disjoint_def by (induction a m rule: expand.induct) auto

lemma mask_disjoint_expand_union:
  "mask_disjoint i d \<Longrightarrow> outside n = length d \<Longrightarrow>
    mask_disjoint (mask_union (expand i n) n) (expand d n)"
  unfolding mask_disjoint_def
proof (induction d n arbitrary: i rule: expand.induct)
  case (3 x d n)
  then show ?case by (cases i) auto
qed (auto simp: list_all2_Cons2)

lemma mask_disjoint_length: "mask_disjoint a b \<Longrightarrow> length a = length b"
  by (simp add: mask_disjoint_def list_all2_lengthD)

lemma outside_keep_expand:
  "outside n = length d \<Longrightarrow> outside (keep (expand d n) n) = outside d"
proof (induction d n rule: expand.induct)
  case (3 x d n)
  then show ?case by (cases x) auto
qed auto

text \<open>
  Two edits in a row, over the union \<open>u\<close> of everything either inserts: \<open>im\<close> and \<open>d1\<close> are what
  the first inserts and deletes, \<open>n\<close> and \<open>d2\<close> what the second does.
\<close>

lemma chain_union:
  assumes "dm = expand d1 im" "outside im = length d1" "outside n = length dm" "outside dm = length d2"
    and "length n = length u"
  shows "keep (mask_union (expand im n) n) u = keep im (keep n u)"
    and "keep (mask_union (expand dm n) (expand (expand d2 dm) n)) u =
      keep (expand d2 (keep (expand dm n) n)) (keep (expand dm n) u)"
    and "select (mask_union (expand im n) n) u =
      select (expand_union (keep dm im) (keep (expand dm n) n)) (keep (expand dm n) u)"
proof -
  have len: "length dm = length im" using assms(1) by simp
  show "keep (mask_union (expand im n) n) u = keep im (keep n u)"
    using assms len by (intro keep_union_expand) auto
  have "mask_union (expand dm n) (expand (expand d2 dm) n) = mask_union (expand (expand d2 dm) n) (expand dm n)"
    by (rule nth_equalityI) (auto simp: mask_union_def)
  moreover have "keep (mask_union (expand (expand d2 dm) n) (expand dm n)) u =
      keep (keep (expand dm n) (expand (expand d2 dm) n)) (keep (expand dm n) u)"
    using assms by (intro keep_mask_union) auto
  ultimately show "keep (mask_union (expand dm n) (expand (expand d2 dm) n)) u =
      keep (expand d2 (keep (expand dm n) n)) (keep (expand dm n) u)"
    using assms by (simp add: keep_expand_expand)
  have "mask_disjoint (mask_union (expand im n) n) (expand dm n)"
    using assms len mask_disjoint_expand [of im d1] by (intro mask_disjoint_expand_union) auto
  from select_disjoint [OF this, of u] show "select (mask_union (expand im n) n) u =
      select (expand_union (keep dm im) (keep (expand dm n) n)) (keep (expand dm n) u)"
    using assms len by (simp add: keep_expand_expand_union)
qed

section \<open>Edit scripts\<close>

type_synonym edit = "nat \<times> nat \<times> bytes"

text \<open>The edits start at or after \<open>l\<close>, are in order, and start inside a document of length \<open>n\<close>.\<close>

fun edits_ok :: "nat \<Rightarrow> nat \<Rightarrow> edit list \<Rightarrow> bool" where
  "edits_ok n l [] \<longleftrightarrow> True"
| "edits_ok n l ((s, e, t) # es) \<longleftrightarrow> l \<le> s \<and> s \<le> e \<and> s \<le> n \<and> edits_ok n e es"

fun last_end :: "edit list \<Rightarrow> nat" where
  "last_end [] = 0"
| "last_end [(s, e, t)] = e"
| "last_end (x # y # es) = last_end (y # es)"

fun apply_edits :: "nat \<Rightarrow> edit list \<Rightarrow> bytes \<Rightarrow> bytes" where
  "apply_edits l [] xs = drop l xs"
| "apply_edits l ((s, e, t) # es) xs = take (s - l) (drop l xs) @ t @ apply_edits e es xs"

text \<open>
  Where an offset of the old document lands in the new one, after the text inserted there; the
  result counts from where the part of the document after \<open>l\<close> begins.
\<close>

fun coord :: "nat \<Rightarrow> edit list \<Rightarrow> nat \<Rightarrow> nat" where
  "coord l [] i = i - l"
| "coord l ((s, e, t) # es) i =
     (if i < s then i - l else (s - l) + length t + coord e es (max i e))"

lemma last_end_append [simp]: "last_end (es @ [(s, e, t)]) = e"
  by (induction es rule: last_end.induct) auto

lemma edits_ok_append:
  "edits_ok n l (es @ [(s, e, t)]) \<longleftrightarrow>
    edits_ok n l es \<and> (if es = [] then l else last_end es) \<le> s \<and> s \<le> e \<and> s \<le> n"
proof (induction es arbitrary: l)
  case (Cons x es)
  then show ?case by (cases x; cases es) auto
qed auto

lemma coord_mono: "coord l es i \<le> coord l es j" if "i \<le> j"
  using that
proof (induction l es i arbitrary: j rule: coord.induct)
  case (2 l s e t es i)
  then show ?case
    by (auto intro: le_trans)
qed (simp add: diff_le_mono)

lemma coord_le_length:
  "edits_ok n l es \<Longrightarrow> length xs = n \<Longrightarrow> i \<le> n \<Longrightarrow> coord l es i \<le> length (apply_edits l es xs)"
proof (induction l es i rule: coord.induct)
  case (1 l i)
  then show ?case by (simp add: diff_le_mono)
next
  case (2 l s e t es i)
  show ?case
  proof (cases "i < s")
    case True
    with 2 have "i - l \<le> min (n - l) (s - l)"
      by auto
    with 2 True show ?thesis
      by (simp add: trans_le_add1)
  next
    case False
    then show ?thesis
    proof (cases "max i e \<le> n")
      case True
      with 2 False show ?thesis by simp
    next
      case over: False
      then have "n < e" using 2 by auto
      then have "coord e es (max i e) = 0"
        using 2 by (cases es) (auto simp: max_def split: if_splits)
      with 2 False show ?thesis by simp
    qed
  qed
qed

end
