(* ===== verification/Xi_Rope.thy ===== *)
theory Xi_Rope
  imports Mask_Algebra
begin

text \<open>
  The interface of the \<open>xi-rope\<close> crate, which the editor is built on and whose code is not
  part of the repository. It is a parameter of the model: the record \<open>xi\<close> holds the
  operations the editor calls, every definition that uses one takes the record as its first
  argument, and the locales state the documented behaviour the editor relies on.

  A \<open>Node<RopeInfo>\<close> is represented by the sequence of its leaves (\<open>Bytes\<close> values), which is
  all a \<open>Cursor\<close> exposes of it; its content is their concatenation. Cursors, delta builders,
  deltas and subsets are type variables. An \<open>InsertDelta\<close> dereferences to a \<open>Delta\<close> and has
  the type of one. Operations that assert something about their arguments return a \<open>res\<close>.

  The abstraction functions of the locales (\<open>cur_at\<close>, \<open>bden\<close>, \<open>delta_ok\<close>, \<open>mask\<close>,
  \<open>ins_ok\<close>) say what a value of an abstract type stands for. The last section gives an
  executable reference implementation of the whole interface and interprets the locales on it,
  so the laws are consistent and the witnesses of the development can be evaluated.
\<close>

section \<open>Data and operations\<close>

type_synonym node = "bytes list"

abbreviation node_bytes :: "node \<Rightarrow> bytes" where
  "node_bytes n \<equiv> concat n"

abbreviation node_len :: "node \<Rightarrow> nat" where
  "node_len n \<equiv> length (concat n)"

datatype interval = Interval (iv_start: nat) (iv_end: nat)

record ('c, 'b, 'd, 's) xi =
  interval_new :: "nat \<Rightarrow> nat \<Rightarrow> interval res"
  interval_incl :: "nat \<Rightarrow> nat \<Rightarrow> interval res"
  interval_contains :: "interval \<Rightarrow> nat \<Rightarrow> bool"
  interval_is_empty :: "interval \<Rightarrow> bool"
  interval_union :: "interval \<Rightarrow> interval \<Rightarrow> interval"
  interval_intersect :: "interval \<Rightarrow> interval \<Rightarrow> interval"
  tree_build :: "bytes list \<Rightarrow> node"
  cursor_new :: "node \<Rightarrow> nat \<Rightarrow> 'c"
  cursor_pos :: "'c \<Rightarrow> nat"
  cursor_get_leaf :: "'c \<Rightarrow> (bytes \<times> nat) option"
  cursor_next_leaf :: "'c \<Rightarrow> 'c"
  builder_new :: "nat \<Rightarrow> 'b"
  builder_delete :: "'b \<Rightarrow> interval \<Rightarrow> 'b res"
  builder_replace :: "'b \<Rightarrow> interval \<Rightarrow> node \<Rightarrow> 'b res"
  builder_build :: "'b \<Rightarrow> 'd"
  simple_edit :: "interval \<Rightarrow> node \<Rightarrow> nat \<Rightarrow> 'd"
  delta_apply :: "'d \<Rightarrow> node \<Rightarrow> node res"
  delta_base_len :: "'d \<Rightarrow> nat"
  new_document_len :: "'d \<Rightarrow> nat"
  transform :: "'d \<Rightarrow> nat \<Rightarrow> bool \<Rightarrow> nat"
  factor :: "'d \<Rightarrow> 'd \<times> 's"
  synthesize :: "node \<Rightarrow> 's \<Rightarrow> 's \<Rightarrow> 'd"
  inserted_subset :: "'d \<Rightarrow> 's"
  ins_transform_expand :: "'d \<Rightarrow> 's \<Rightarrow> bool \<Rightarrow> 'd"
  complement :: "'s \<Rightarrow> 's"
  delete_from :: "'s \<Rightarrow> node \<Rightarrow> node"
  transform_expand :: "'s \<Rightarrow> 's \<Rightarrow> 's"
  transform_union :: "'s \<Rightarrow> 's \<Rightarrow> 's"
  transform_shrink :: "'s \<Rightarrow> 's \<Rightarrow> 's"
  subset_union :: "'s \<Rightarrow> 's \<Rightarrow> 's"
  subset_is_empty :: "'s \<Rightarrow> bool"

section \<open>What the editor relies on\<close>

text \<open>\<open>Interval\<close>: a closed-open range; the interval \<open>[5, 7)\<close> is the set \<open>{5, 6}\<close>.\<close>

locale xi_interval =
  fixes X :: "('c, 'b, 'd, 's) xi"
  assumes interval_new: "s \<le> e \<Longrightarrow> interval_new X s e = Inr (Interval s e)"
    and interval_incl: "s \<le> e \<Longrightarrow> e < usize_max \<Longrightarrow> interval_incl X s e = Inr (Interval s (Suc e))"
    and interval_contains: "interval_contains X (Interval s e) i \<longleftrightarrow> s \<le> i \<and> i < e"
    and interval_is_empty: "s \<le> e \<Longrightarrow> interval_is_empty X (Interval s e) \<longleftrightarrow> s = e"
    and interval_union: "s < e \<Longrightarrow> s' < e' \<Longrightarrow>
      interval_union X (Interval s e) (Interval s' e') = Interval (min s s') (max e e')"
    and interval_intersect: "interval_contains X (interval_intersect X a b) i \<longleftrightarrow>
      interval_contains X a i \<and> interval_contains X b i"

text \<open>
  \<open>TreeBuilder\<close> keeps the pushed leaves' bytes in order. A \<open>Cursor\<close> stands in leaf \<open>i\<close>, \<open>k\<close>
  bytes into it (\<open>cur_at n i k c\<close>); \<open>get_leaf\<close> returns that leaf and offset, or nothing past
  the last leaf; \<open>next_leaf\<close> moves to the start of the following leaf.
\<close>

locale xi_tree =
  fixes X :: "('c, 'b, 'd, 's) xi"
    and cur_at :: "node \<Rightarrow> nat \<Rightarrow> nat \<Rightarrow> 'c \<Rightarrow> bool"
  assumes tree_build_bytes: "node_bytes (tree_build X ls) = concat ls"
    and cursor_new_at: "p \<le> node_len n \<Longrightarrow>
      \<exists>i k. cur_at n i k (cursor_new X n p) \<and> length (concat (take i n)) + k = p \<and>
        (i < length n \<and> k \<le> length (n ! i) \<or> i = length n \<and> k = 0)"
    and cursor_pos_at: "cur_at n i k c \<Longrightarrow> cursor_pos X c = length (concat (take i n)) + k"
    and cursor_leaf_at: "cur_at n i k c \<Longrightarrow>
      cursor_get_leaf X c = (if i < length n then Some (n ! i, k) else None)"
    and cursor_next_at: "cur_at n i k c \<Longrightarrow> i < length n \<Longrightarrow> cur_at n (Suc i) 0 (cursor_next_leaf X c)"

text \<open>
  A \<open>DeltaBuilder\<close> collects sorted edits for a document of a given length (\<open>bden\<close>); \<open>delete\<close>
  and \<open>replace\<close> panic when an interval is not properly sorted. The built delta replaces the
  edited ranges, \<open>new_document_len\<close> is the length of the result, and a \<open>Transformer\<close> maps
  coordinates, landing after inserted text when \<open>after\<close> is set. A delta that is \<open>delta_ok\<close>
  applies to every document of its base length, and its effect depends on the bytes only.
\<close>

locale xi_delta =
  fixes X :: "('c, 'b, 'd, 's) xi"
    and bden :: "'b \<Rightarrow> nat \<times> edit list"
    and delta_ok :: "'d \<Rightarrow> bool"
  assumes builder_new_den: "bden (builder_new X n) = (n, [])"
    and builder_delete_sorted: "bden b = (n, es) \<Longrightarrow> last_end es \<le> s \<Longrightarrow> s \<le> e \<Longrightarrow>
      \<exists>b'. builder_delete X b (Interval s e) = Inr b' \<and> bden b' = (n, es @ [(s, e, [])])"
    and builder_delete_unsorted: "bden b = (n, es) \<Longrightarrow> s < last_end es \<Longrightarrow>
      builder_delete X b (Interval s e) = Inl AssertionFailed"
    and builder_replace_sorted: "bden b = (n, es) \<Longrightarrow> last_end es \<le> s \<Longrightarrow> s \<le> e \<Longrightarrow>
      \<exists>b'. builder_replace X b (Interval s e) t = Inr b' \<and> bden b' = (n, es @ [(s, e, node_bytes t)])"
    and builder_replace_unsorted: "bden b = (n, es) \<Longrightarrow> s < last_end es \<Longrightarrow>
      builder_replace X b (Interval s e) t = Inl AssertionFailed"
    and build_ok: "bden b = (n, es) \<Longrightarrow> edits_ok n 0 es \<Longrightarrow>
      delta_ok (builder_build X b) \<and> delta_base_len X (builder_build X b) = n"
    and build_apply: "bden b = (n, es) \<Longrightarrow> edits_ok n 0 es \<Longrightarrow> node_len base = n \<Longrightarrow>
      delta_apply X (builder_build X b) base = Inr r \<Longrightarrow>
      node_bytes r = apply_edits 0 es (node_bytes base)"
    and build_transform: "bden b = (n, es) \<Longrightarrow> edits_ok n 0 es \<Longrightarrow> i \<le> n \<Longrightarrow>
      transform X (builder_build X b) i True = coord 0 es i"
    and simple_edit_ok: "s \<le> e \<Longrightarrow> e \<le> n \<Longrightarrow>
      delta_ok (simple_edit X (Interval s e) t n) \<and>
      delta_base_len X (simple_edit X (Interval s e) t n) = n"
    and simple_edit_apply: "s \<le> e \<Longrightarrow> e \<le> n \<Longrightarrow> node_len base = n \<Longrightarrow>
      delta_apply X (simple_edit X (Interval s e) t n) base = Inr r \<Longrightarrow>
      node_bytes r = take s (node_bytes base) @ node_bytes t @ drop e (node_bytes base)"
    and delta_applies: "delta_ok d \<Longrightarrow> node_len base = delta_base_len X d \<Longrightarrow>
      \<exists>r. delta_apply X d base = Inr r"
    and delta_apply_bytes: "delta_ok d \<Longrightarrow> node_bytes base = node_bytes base' \<Longrightarrow>
      delta_apply X d base = Inr r \<Longrightarrow> delta_apply X d base' = Inr r' \<Longrightarrow> node_bytes r = node_bytes r'"
    and delta_new_len: "delta_ok d \<Longrightarrow> node_len base = delta_base_len X d \<Longrightarrow>
      delta_apply X d base = Inr r \<Longrightarrow> new_document_len X d = node_len r"

text \<open>
  \<open>Subset\<close>s of a document and their coordinate transformations (\<open>mask\<close> is the set of
  positions with a non-zero count); factoring a delta into insertions and deletions, and its
  inverse \<open>synthesize\<close>. The laws are the equations of the crate's documentation: applying the
  insertions and then deleting the expanded deletions is applying the delta; deleting the
  inserted subset gives the base back; a synthesized delta leads from the union string without
  \<open>from_dels\<close> to the union string without \<open>to_dels\<close>; an insert delta transformed through a
  subset inserts the same text around it.
\<close>

locale xi_history = xi_delta X bden delta_ok
  for X :: "('c, 'b, 'd, 's) xi"
    and bden :: "'b \<Rightarrow> nat \<times> edit list"
    and delta_ok :: "'d \<Rightarrow> bool" +
  fixes mask :: "'s \<Rightarrow> bool list"
    and ins_ok :: "'d \<Rightarrow> bool"
  assumes mask_complement: "mask (complement X s) = map Not (mask s)"
    and mask_delete_from: "length (mask s) = node_len n \<Longrightarrow>
      node_bytes (delete_from X s n) = keep (mask s) (node_bytes n)"
    and mask_transform_expand: "outside (mask b) = length (mask a) \<Longrightarrow>
      mask (transform_expand X a b) = expand (mask a) (mask b)"
    and mask_transform_union: "outside (mask b) = length (mask a) \<Longrightarrow>
      mask (transform_union X a b) = expand_union (mask a) (mask b)"
    and mask_transform_shrink: "length (mask a) = length (mask b) \<Longrightarrow>
      mask (transform_shrink X a b) = keep (mask b) (mask a)"
    and mask_subset_union: "length (mask a) = length (mask b) \<Longrightarrow>
      mask (subset_union X a b) = mask_union (mask a) (mask b)"
    and subset_is_empty_mask: "subset_is_empty X s \<longleftrightarrow> True \<notin> set (mask s)"
    and ins_delta_ok: "ins_ok i \<Longrightarrow> delta_ok i"
    and factor_ok: "delta_ok d \<Longrightarrow> factor X d = (i, dl) \<Longrightarrow>
      ins_ok i \<and> delta_base_len X i = delta_base_len X d \<and> length (mask dl) = delta_base_len X d"
    and factor_apply: "delta_ok d \<Longrightarrow> factor X d = (i, dl) \<Longrightarrow> node_len base = delta_base_len X d \<Longrightarrow>
      delta_apply X d base = Inr r \<Longrightarrow> delta_apply X i base = Inr u \<Longrightarrow>
      node_bytes r = keep (expand (mask dl) (mask (inserted_subset X i))) (node_bytes u)"
    and inserted_subset_len: "ins_ok i \<Longrightarrow> outside (mask (inserted_subset X i)) = delta_base_len X i"
    and inserted_subset_apply: "ins_ok i \<Longrightarrow> node_len base = delta_base_len X i \<Longrightarrow>
      delta_apply X i base = Inr u \<Longrightarrow>
      length (mask (inserted_subset X i)) = node_len u \<and>
      keep (mask (inserted_subset X i)) (node_bytes u) = node_bytes base"
    and synthesize_ok: "length (mask f) = length (mask t) \<Longrightarrow>
      node_len tomb + outside (mask f) = length (mask f) \<Longrightarrow>
      delta_ok (synthesize X tomb f t) \<and> delta_base_len X (synthesize X tomb f t) = outside (mask f)"
    and synthesize_apply: "length (mask f) = length un \<Longrightarrow> length (mask t) = length un \<Longrightarrow>
      node_bytes tomb = select (mask f) un \<Longrightarrow> node_bytes base = keep (mask f) un \<Longrightarrow>
      delta_apply X (synthesize X tomb f t) base = Inr r \<Longrightarrow> node_bytes r = keep (mask t) un"
    and ins_expand_ok: "ins_ok i \<Longrightarrow> outside (mask x) = delta_base_len X i \<Longrightarrow>
      ins_ok (ins_transform_expand X i x after) \<and>
      delta_base_len X (ins_transform_expand X i x after) = length (mask x)"
    and ins_expand_apply: "ins_ok i \<Longrightarrow> outside (mask x) = delta_base_len X i \<Longrightarrow>
      node_len big = length (mask x) \<Longrightarrow> node_bytes base = keep (mask x) (node_bytes big) \<Longrightarrow>
      delta_apply X i base = Inr u \<Longrightarrow> delta_apply X (ins_transform_expand X i x after) big = Inr u' \<Longrightarrow>
      node_bytes u = keep (expand (mask x) (mask (inserted_subset X (ins_transform_expand X i x after))))
        (node_bytes u')"
    and ins_expand_inserted: "ins_ok i \<Longrightarrow> outside (mask x) = delta_base_len X i \<Longrightarrow>
      keep (expand (mask x) (mask (inserted_subset X (ins_transform_expand X i x after))))
        (mask (inserted_subset X (ins_transform_expand X i x after))) = mask (inserted_subset X i)"

text \<open>The whole crate, as the editor sees it.\<close>

locale xi_rope = xi_interval X + xi_tree X cur_at + xi_history X bden delta_ok mask ins_ok
  for X :: "('c, 'b, 'd, 's) xi"
    and cur_at :: "node \<Rightarrow> nat \<Rightarrow> nat \<Rightarrow> 'c \<Rightarrow> bool"
    and bden :: "'b \<Rightarrow> nat \<times> edit list"
    and delta_ok :: "'d \<Rightarrow> bool"
    and mask :: "'s \<Rightarrow> bool list"
    and ins_ok :: "'d \<Rightarrow> bool"

section \<open>A reference implementation\<close>

text \<open>A delta is a script over the base document, byte by byte.\<close>

datatype ref_op = Keep | Drop | Ins u8

type_synonym ref_delta = "ref_op list"
type_synonym ref_builder = "nat \<times> edit list"
type_synonym ref_cursor = "node \<times> nat \<times> nat"
type_synonym ref_xi = "(ref_cursor, ref_builder, ref_delta, bool list) xi"

fun is_Ins :: "ref_op \<Rightarrow> bool" where
  "is_Ins (Ins b) = True"
| "is_Ins _ = False"

definition ref_base_len :: "ref_delta \<Rightarrow> nat" where
  "ref_base_len d = length (filter (\<lambda>p. \<not> is_Ins p) d)"

fun ref_run :: "ref_delta \<Rightarrow> bytes \<Rightarrow> bytes" where
  "ref_run (Ins b # d) xs = b # ref_run d xs"
| "ref_run (Keep # d) (x # xs) = x # ref_run d xs"
| "ref_run (Drop # d) (x # xs) = ref_run d xs"
| "ref_run _ _ = []"

definition ref_apply :: "ref_delta \<Rightarrow> node \<Rightarrow> node res" where
  "ref_apply d n = (if node_len n = ref_base_len d then Inr [ref_run d (node_bytes n)]
                    else Inl AssertionFailed)"

fun ref_of_edits :: "nat \<Rightarrow> nat \<Rightarrow> edit list \<Rightarrow> ref_delta" where
  "ref_of_edits n l [] = replicate (n - l) Keep"
| "ref_of_edits n l ((s, e, t) # es) =
     replicate (s - l) Keep @ replicate (min e n - s) Drop @ map Ins t @ ref_of_edits n e es"

fun ref_builder_add :: "ref_builder \<Rightarrow> interval \<Rightarrow> bytes \<Rightarrow> ref_builder res" where
  "ref_builder_add (n, es) (Interval s e) t =
     (if last_end es \<le> s then Inr (n, es @ [(s, e, t)]) else Inl AssertionFailed)"

fun ref_transform :: "ref_delta \<Rightarrow> nat \<Rightarrow> bool \<Rightarrow> nat" where
  "ref_transform [] i after = 0"
| "ref_transform (Keep # d) i after = (if i = 0 then 0 else Suc (ref_transform d (i - 1) after))"
| "ref_transform (Drop # d) i after = ref_transform d (i - 1) after"
| "ref_transform (Ins b # d) i after = (if i = 0 \<and> \<not> after then 0 else Suc (ref_transform d i after))"

definition ref_factor :: "ref_delta \<Rightarrow> ref_delta \<times> bool list" where
  "ref_factor d = (map (\<lambda>p. if p = Drop then Keep else p) d,
                   map (\<lambda>p. p = Drop) (filter (\<lambda>p. \<not> is_Ins p) d))"

fun ref_synthesize :: "bytes \<Rightarrow> bool list \<Rightarrow> bool list \<Rightarrow> ref_delta" where
  "ref_synthesize tomb (False # f) (t # ts) = (if t then Drop else Keep) # ref_synthesize tomb f ts"
| "ref_synthesize (b # tomb) (True # f) (t # ts) =
     (if t then ref_synthesize tomb f ts else Ins b # ref_synthesize tomb f ts)"
| "ref_synthesize _ _ _ = []"

function (sequential) ref_ins_expand :: "ref_delta \<Rightarrow> bool list \<Rightarrow> bool \<Rightarrow> ref_delta" where
  "ref_ins_expand d [] after = d"
| "ref_ins_expand [] (x # m) after = Keep # ref_ins_expand [] m after"
| "ref_ins_expand (Ins b # d) (x # m) after =
     (if x \<and> after then Keep # ref_ins_expand (Ins b # d) m after
      else Ins b # ref_ins_expand d (x # m) after)"
| "ref_ins_expand (p # d) (x # m) after =
     (if x then Keep # ref_ins_expand (p # d) m after else p # ref_ins_expand d m after)"
  by pat_completeness auto
termination
  by (relation "measure (\<lambda>(d, m, _). length d + length m)") auto

fun ref_locate :: "node \<Rightarrow> nat \<Rightarrow> nat \<times> nat" where
  "ref_locate [] p = (0, 0)"
| "ref_locate (l # n) p = (if p \<le> length l then (0, p)
                           else (case ref_locate n (p - length l) of (i, k) \<Rightarrow> (Suc i, k)))"

definition ref_get_leaf :: "ref_cursor \<Rightarrow> (bytes \<times> nat) option" where
  "ref_get_leaf c = (case c of (n, i, k) \<Rightarrow> if i < length n then Some (n ! i, k) else None)"

definition ref_xi :: ref_xi where
  "ref_xi = \<lparr>
    interval_new = (\<lambda>s e. if s \<le> e then Inr (Interval s e) else Inl AssertionFailed),
    interval_incl = (\<lambda>s e. if s \<le> e then Inr (Interval s (Suc e)) else Inl AssertionFailed),
    interval_contains = (\<lambda>iv i. iv_start iv \<le> i \<and> i < iv_end iv),
    interval_is_empty = (\<lambda>iv. iv_end iv \<le> iv_start iv),
    interval_union = (\<lambda>a b. Interval (min (iv_start a) (iv_start b)) (max (iv_end a) (iv_end b))),
    interval_intersect = (\<lambda>a b. Interval (max (iv_start a) (iv_start b)) (min (iv_end a) (iv_end b))),
    tree_build = (\<lambda>ls. ls),
    cursor_new = (\<lambda>n p. (n, ref_locate n p)),
    cursor_pos = (\<lambda>(n, i, k). length (concat (take i n)) + k),
    cursor_get_leaf = ref_get_leaf,
    cursor_next_leaf = (\<lambda>(n, i, k). (n, Suc i, 0)),
    builder_new = (\<lambda>n. (n, [])),
    builder_delete = (\<lambda>b iv. ref_builder_add b iv []),
    builder_replace = (\<lambda>b iv t. ref_builder_add b iv (concat t)),
    builder_build = (\<lambda>(n, es). ref_of_edits n 0 es),
    simple_edit = (\<lambda>iv t n. ref_of_edits n 0 [(iv_start iv, iv_end iv, concat t)]),
    delta_apply = ref_apply,
    delta_base_len = ref_base_len,
    new_document_len = (\<lambda>d. length (filter (\<lambda>p. p \<noteq> Drop) d)),
    transform = ref_transform,
    factor = ref_factor,
    synthesize = (\<lambda>tomb. ref_synthesize (concat tomb)),
    inserted_subset = map is_Ins,
    ins_transform_expand = ref_ins_expand,
    complement = map Not,
    delete_from = (\<lambda>s n. [keep s (concat n)]),
    transform_expand = expand,
    transform_union = expand_union,
    transform_shrink = (\<lambda>a b. keep b a),
    subset_union = mask_union,
    subset_is_empty = (\<lambda>s. True \<notin> set s)\<rparr>"

definition ref_cur_at :: "node \<Rightarrow> nat \<Rightarrow> nat \<Rightarrow> ref_cursor \<Rightarrow> bool" where
  "ref_cur_at n i k c \<longleftrightarrow> c = (n, i, k)"

definition ref_ins_ok :: "ref_delta \<Rightarrow> bool" where
  "ref_ins_ok d \<longleftrightarrow> Drop \<notin> set d"

section \<open>The reference implementation satisfies the laws\<close>

lemma ref_base_len_simps [simp]:
  "ref_base_len [] = 0"
  "ref_base_len (Ins b # d) = ref_base_len d"
  "ref_base_len (Keep # d) = Suc (ref_base_len d)"
  "ref_base_len (Drop # d) = Suc (ref_base_len d)"
  "ref_base_len (d @ d') = ref_base_len d + ref_base_len d'"
  "ref_base_len (replicate k Keep) = k"
  "ref_base_len (replicate k Drop) = k"
  "ref_base_len (map Ins t) = 0"
  by (simp_all add: ref_base_len_def)

lemma ref_run_append_Keep:
  "k \<le> length xs \<Longrightarrow> ref_run (replicate k Keep @ d) xs = take k xs @ ref_run d (drop k xs)"
proof (induction k arbitrary: xs)
  case (Suc k)
  then show ?case by (cases xs) auto
qed simp

lemma ref_run_append_Drop:
  "k \<le> length xs \<Longrightarrow> ref_run (replicate k Drop @ d) xs = ref_run d (drop k xs)"
proof (induction k arbitrary: xs)
  case (Suc k)
  then show ?case by (cases xs) auto
qed simp

lemma ref_run_append_Ins: "ref_run (map Ins t @ d) xs = t @ ref_run d xs"
  by (induction t) auto

lemma ref_run_Keep_all: "ref_run (replicate (length xs) Keep) xs = xs"
  by (induction xs) auto

lemmas ref_run_append = ref_run_append_Keep ref_run_append_Drop ref_run_append_Ins

lemma ref_base_len_of_edits: "edits_ok n l es \<Longrightarrow> l \<le> n \<Longrightarrow> l + ref_base_len (ref_of_edits n l es) = n"
proof (induction es arbitrary: l)
  case (Cons x es)
  obtain s e t where x: "x = (s, e, t)" by (cases x) auto
  show ?case
  proof (cases "e \<le> n")
    case True
    with Cons x have "e + ref_base_len (ref_of_edits n e es) = n" by simp
    with Cons x True show ?thesis by simp
  next
    case False
    with Cons x have "es = []" by (cases es) auto
    with Cons x False show ?thesis by simp
  qed
qed simp

lemma ref_run_of_edits:
  "edits_ok n l es \<Longrightarrow> length xs = n \<Longrightarrow>
    ref_run (ref_of_edits n l es) (drop l xs) = apply_edits l es xs"
proof (induction es arbitrary: l)
  case Nil
  then show ?case using ref_run_Keep_all [of "drop l xs"] by simp
next
  case (Cons x es)
  obtain s e t where x: "x = (s, e, t)" by (cases x) auto
  from Cons.prems x have le: "l \<le> s" "s \<le> e" "s \<le> n" and es: "edits_ok n e es" by auto
  have "ref_run (ref_of_edits n l (x # es)) (drop l xs) =
      take (s - l) (drop l xs) @ t @ ref_run (ref_of_edits n e es) (drop (min e n) xs)"
    using le Cons.prems x by (simp add: ref_run_append)
  moreover have "drop (min e n) xs = drop e xs"
    using Cons.prems by (cases "e \<le> n") auto
  ultimately show ?case
    using Cons.IH [OF es Cons.prems(2)] x by simp
qed

lemma ref_transform_append:
  "k \<le> i \<Longrightarrow> ref_transform (replicate k Keep @ d) i after = k + ref_transform d (i - k) after"
  "ref_transform (replicate k Drop @ d) i after = ref_transform d (i - k) after"
  "ref_transform (map Ins t @ d) i True = length t + ref_transform d i True"
proof -
  show "k \<le> i \<Longrightarrow> ref_transform (replicate k Keep @ d) i after = k + ref_transform d (i - k) after"
  proof (induction k arbitrary: i)
    case (Suc k)
    then show ?case by (cases i) auto
  qed simp
  show "ref_transform (replicate k Drop @ d) i after = ref_transform d (i - k) after"
    by (induction k arbitrary: i) auto
  show "ref_transform (map Ins t @ d) i True = length t + ref_transform d i True"
    by (induction t) auto
qed

lemma ref_transform_Keep_short:
  "i < k \<Longrightarrow> ref_transform (replicate k Keep @ d) i after = i"
proof (induction k arbitrary: i)
  case (Suc k)
  then show ?case by (cases i) auto
qed simp

lemma ref_transform_of_edits:
  "edits_ok n l es \<Longrightarrow> l \<le> i \<Longrightarrow> i \<le> max n l \<Longrightarrow>
    ref_transform (ref_of_edits n l es) (i - l) True = coord l es i"
proof (induction es arbitrary: l i)
  case Nil
  then show ?case
    using ref_transform_append(1) [of "n - l" "i - l" "[]" True]
      ref_transform_Keep_short [of "i - l" "n - l" "[]" True]
    by (cases "i < n") (auto simp: max_def split: if_splits)
next
  case (Cons x es)
  obtain s e t where x: "x = (s, e, t)" by (cases x) auto
  from Cons.prems x have le: "l \<le> s" "s \<le> e" "s \<le> n" and es: "edits_ok n e es" by auto
  show ?case
  proof (cases "i < s")
    case True
    with Cons.prems x show ?thesis by (simp add: ref_transform_Keep_short)
  next
    case False
    have "max i e - e = i - s - (min e n - s)"
      using False le Cons.prems(3) by (auto simp: max_def min_def split: if_splits)
    moreover have "ref_transform (ref_of_edits n e es) (max i e - e) True = coord e es (max i e)"
      using Cons.IH [OF es, of "max i e"] Cons.prems(3) le by (auto simp: max_def split: if_splits)
    ultimately show ?thesis
      using False le x by (simp add: ref_transform_append add.assoc)
  qed
qed

lemma ref_new_len: "length xs = ref_base_len d \<Longrightarrow> length (ref_run d xs) = length (filter (\<lambda>p. p \<noteq> Drop) d)"
  by (induction d xs rule: ref_run.induct) auto

lemma ref_factor_run:
  "length xs = ref_base_len d \<Longrightarrow> ref_factor d = (i, dl) \<Longrightarrow>
    ref_run d xs = keep (expand dl (map is_Ins i)) (ref_run i xs)"
  by (induction d xs arbitrary: i dl rule: ref_run.induct) (auto simp: ref_factor_def)

lemma ref_factor_len: "ref_factor d = (i, dl) \<Longrightarrow>
    ref_ins_ok i \<and> ref_base_len i = ref_base_len d \<and> length dl = ref_base_len d"
proof -
  have "ref_base_len (map (\<lambda>p. if p = Drop then Keep else p) d) = ref_base_len d"
  proof (induction d)
    case (Cons p d)
    then show ?case by (cases p) auto
  qed simp
  then show "ref_factor d = (i, dl) \<Longrightarrow> ?thesis"
    by (auto simp: ref_factor_def ref_ins_ok_def ref_base_len_def)
qed

lemma ref_inserted_len: "ref_ins_ok i \<Longrightarrow> outside (map is_Ins i) = ref_base_len i"
  by (simp add: outside_def ref_base_len_def comp_def filter_map)

lemma ref_inserted_run:
  "ref_ins_ok i \<Longrightarrow> length xs = ref_base_len i \<Longrightarrow>
    length (ref_run i xs) = length i \<and> keep (map is_Ins i) (ref_run i xs) = xs"
  by (induction i xs rule: ref_run.induct) (auto simp: ref_ins_ok_def)

lemma ref_synthesize_len:
  "length f = length t \<Longrightarrow> length tomb + outside f = length f \<Longrightarrow>
    ref_base_len (ref_synthesize tomb f t) = outside f"
proof (induction f t arbitrary: tomb rule: list_induct2)
  case (Cons x f y t)
  then show ?case using outside_le [of f] by (cases x; cases tomb) auto
qed simp

lemma ref_synthesize_run:
  "length f = length u \<Longrightarrow> length t = length u \<Longrightarrow>
    ref_run (ref_synthesize (select f u) f t) (keep f u) = keep t u"
proof (induction u arbitrary: f t)
  case (Cons x u)
  then obtain b f' c t' where "f = b # f'" "t = c # t'"
    by (metis length_Suc_conv)
  with Cons show ?case by (cases b) auto
qed simp

lemma ref_ins_expand_ok:
  "ref_ins_ok i \<Longrightarrow> outside x = ref_base_len i \<Longrightarrow>
    ref_ins_ok (ref_ins_expand i x after) \<and> ref_base_len (ref_ins_expand i x after) = length x"
  by (induction i x after rule: ref_ins_expand.induct) (auto simp: ref_ins_ok_def split: if_splits)

lemma ref_base_len_0: "ref_base_len d = 0 \<Longrightarrow> \<exists>t. d = map Ins t"
proof (induction d)
  case (Cons p d)
  then obtain b where "p = Ins b" by (cases p) auto
  moreover obtain t where "d = map Ins t" using Cons calculation by auto
  ultimately show ?case by (auto intro: exI [of _ "b # t"])
qed simp

lemma ref_ins_expand_run:
  "ref_ins_ok i \<Longrightarrow> outside x = ref_base_len i \<Longrightarrow> length big = length x \<Longrightarrow>
    ref_run i (keep x big) =
      keep (expand x (map is_Ins (ref_ins_expand i x after))) (ref_run (ref_ins_expand i x after) big)"
proof (induction i x after arbitrary: big rule: ref_ins_expand.induct [case_names stop skip ins kept dropped])
  case (stop d after)
  then have "outside [] = ref_base_len d" by simp
  then obtain t where "d = map Ins t" using ref_base_len_0 by auto
  with stop show ?case by (induction t arbitrary: d) (auto simp: ref_ins_ok_def)
next
  case (skip x m after)
  then show ?case by (cases big) (auto split: if_splits)
next
  case (ins b d x m after)
  show ?case
  proof (cases "x \<and> after")
    case True
    with ins show ?thesis by (cases big) (auto simp: ref_ins_ok_def)
  next
    case False
    with ins have "ref_run d (keep (x # m) big) =
        keep (expand (x # m) (map is_Ins (ref_ins_expand d (x # m) after)))
          (ref_run (ref_ins_expand d (x # m) after) big)"
      by (auto simp: ref_ins_ok_def)
    moreover have "ref_ins_expand (Ins b # d) (x # m) after = Ins b # ref_ins_expand d (x # m) after"
      using False by auto
    ultimately show ?thesis by (simp del: ref_ins_expand.simps)
  qed
next
  case (kept d x m after)
  then show ?case by (cases big) (auto simp: ref_ins_ok_def split: if_splits)
next
  case (dropped d x m after)
  then show ?case by (simp add: ref_ins_ok_def)
qed

lemma ref_ins_expand_inserted:
  "ref_ins_ok i \<Longrightarrow> outside x = ref_base_len i \<Longrightarrow>
    keep (expand x (map is_Ins (ref_ins_expand i x after))) (map is_Ins (ref_ins_expand i x after)) =
      map is_Ins i"
proof (induction i x after rule: ref_ins_expand.induct)
  case (1 d after)
  then have "outside [] = ref_base_len d" by simp
  then obtain t where "d = map Ins t" using ref_base_len_0 by auto
  with 1 show ?case by (induction t arbitrary: d) (auto simp: ref_ins_ok_def)
qed (auto simp: ref_ins_ok_def split: if_splits)

lemma ref_locate_at:
  "p \<le> node_len n \<Longrightarrow> ref_locate n p = (i, k) \<Longrightarrow>
    length (concat (take i n)) + k = p \<and> (i < length n \<and> k \<le> length (n ! i) \<or> i = length n \<and> k = 0)"
proof (induction n p arbitrary: i k rule: ref_locate.induct)
  case (2 l n p)
  then show ?case by (fastforce split: if_splits prod.splits)
qed simp

interpretation ref_iv: xi_interval ref_xi
  by unfold_locales (auto simp: ref_xi_def)

interpretation ref_tree: xi_tree ref_xi ref_cur_at
proof (unfold_locales, goal_cases)
  case (2 p n)
  obtain i k where "ref_locate n p = (i, k)" by force
  with ref_locate_at [OF 2 this] show ?case
    by (auto simp: ref_xi_def ref_cur_at_def)
qed (auto simp: ref_xi_def ref_cur_at_def ref_get_leaf_def)

interpretation ref_delta: xi_delta ref_xi id "\<lambda>_. True"
proof (unfold_locales, goal_cases)
  case (6 b n es)
  then show ?case
    using ref_base_len_of_edits [of n 0 es] by (simp add: ref_xi_def)
next
  case (7 b n es base r)
  then show ?case
    using ref_run_of_edits [of n 0 es "concat base"]
    by (auto simp: ref_xi_def ref_apply_def split: if_splits)
next
  case (8 b n es i)
  then show ?case
    using ref_transform_of_edits [of n 0 es i] by (simp add: ref_xi_def)
next
  case (9 s e n t)
  then show ?case
    using ref_base_len_of_edits [of n 0 "[(s, e, concat t)]"] by (simp add: ref_xi_def)
next
  case (10 s e n base t r)
  then show ?case
    using ref_run_of_edits [of n 0 "[(s, e, concat t)]" "concat base"]
    by (auto simp: ref_xi_def ref_apply_def split: if_splits)
next
  case (13 d base r)
  then show ?case
    using ref_new_len [of "concat base" d] by (auto simp: ref_xi_def ref_apply_def split: if_splits)
qed (auto simp: ref_xi_def ref_apply_def split: if_splits)

interpretation ref_hist: xi_history ref_xi id "\<lambda>_. True" id ref_ins_ok
proof (unfold_locales, goal_cases)
  case (9 d i dl)
  then show ?case using ref_factor_len [of d i dl] by (simp add: ref_xi_def)
next
  case (10 d i dl base r u)
  then show ?case
    using ref_factor_run [of "concat base" d i dl] by (auto simp: ref_xi_def ref_apply_def split: if_splits)
next
  case (11 i)
  then show ?case using ref_inserted_len [of i] by (simp add: ref_xi_def)
next
  case (12 i base u)
  then show ?case
    using ref_inserted_run [of i "concat base"] by (auto simp: ref_xi_def ref_apply_def split: if_splits)
next
  case (13 f t tomb)
  then show ?case using ref_synthesize_len [of f t "concat tomb"] by (simp add: ref_xi_def)
next
  case (14 f u t tomb base r)
  then show ?case
    using ref_synthesize_run [of f u t] by (auto simp: ref_xi_def ref_apply_def split: if_splits)
next
  case (15 i x after)
  then show ?case using ref_ins_expand_ok [of i x after] by (simp add: ref_xi_def)
next
  case (16 i x big base u after u')
  then show ?case
    using ref_ins_expand_run [of i x "concat big" after]
    by (auto simp: ref_xi_def ref_apply_def split: if_splits)
next
  case (17 i x after)
  then show ?case using ref_ins_expand_inserted [of i x after] by (simp add: ref_xi_def)
qed (auto simp: ref_xi_def)

interpretation ref: xi_rope ref_xi ref_cur_at id "\<lambda>_. True" id ref_ins_ok
  by unfold_locales

lemmas ref_xi_rope = ref.xi_rope_axioms

end
