(* ===== verification/Byte_Rope.thy ===== *)
theory Byte_Rope
  imports Xi_Rope
begin

text \<open>
  \<open>src/byte_rope.rs\<close>: the leaves, the metric and the rope of bytes the editor stores its
  buffers in. \<open>Rope\<close> is a newtype of \<open>Node<RopeInfo>\<close>, so it is the leaf sequence of
  \<open>Xi_Rope\<close>. \<open>ChunkIter\<close> walks a cursor; draining it is a loop over an abstract cursor, so
  \<open>chunk_collect\<close> takes fuel, and one unit more than the number of leaves is proved enough.
\<close>

section \<open>Leaves\<close>

definition MIN_LEAF :: nat where "MIN_LEAF = 511"
definition MAX_LEAF :: nat where "MAX_LEAF = 1024"

definition leaf_len :: "bytes \<Rightarrow> nat" where
  "leaf_len b = length b"

definition is_ok_child :: "bytes \<Rightarrow> bool" where
  "is_ok_child b \<longleftrightarrow> MIN_LEAF \<le> length b"

definition push_maybe_split :: "bytes \<Rightarrow> bytes \<Rightarrow> interval \<Rightarrow> (bytes \<times> bytes option) res" where
  "push_maybe_split self other iv =
     rbind (slice other (iv_start iv) (iv_end iv)) (\<lambda>ext.
       let self' = self @ ext in
       if length self' \<le> MAX_LEAF then Inr (self', None)
       else Inr (take MAX_LEAF self', Some (drop MAX_LEAF self')))"

section \<open>The base metric\<close>

definition base_measure :: "nat \<Rightarrow> nat" where "base_measure len = len"
definition to_base_units :: "bytes \<Rightarrow> nat \<Rightarrow> nat" where "to_base_units b u = u"
definition from_base_units :: "bytes \<Rightarrow> nat \<Rightarrow> nat" where "from_base_units b u = u"
definition is_boundary :: "bytes \<Rightarrow> nat \<Rightarrow> bool" where "is_boundary b off = True"
definition can_fragment :: bool where "can_fragment = False"

definition metric_prev :: "bytes \<Rightarrow> nat \<Rightarrow> nat option" where
  "metric_prev b offset = (if offset = 0 then None else Some (offset - 1))"

definition metric_next :: "bytes \<Rightarrow> nat \<Rightarrow> nat option res" where
  "metric_next b offset =
     (if offset = length b then Inr None else rbind (uadd offset 1) (\<lambda>o'. Inr (Some o')))"

section \<open>Ropes\<close>

type_synonym rope = node

definition rope_len :: "rope \<Rightarrow> nat" where
  "rope_len r = node_len r"

definition rope_is_empty :: "rope \<Rightarrow> bool" where
  "rope_is_empty r \<longleftrightarrow> node_len r = 0"

record 'c chunk_iter =
  ci_cursor :: 'c
  ci_end :: nat

definition iter_chunks :: "('c, 'b, 'd, 's) xi \<Rightarrow> rope \<Rightarrow> interval \<Rightarrow> 'c chunk_iter" where
  "iter_chunks X r iv = \<lparr>ci_cursor = cursor_new X r (iv_start iv), ci_end = iv_end iv\<rparr>"

definition chunk_next :: "('c, 'b, 'd, 's) xi \<Rightarrow> 'c chunk_iter \<Rightarrow> (bytes option \<times> 'c chunk_iter) res" where
  "chunk_next X it =
     (if ci_end it \<le> cursor_pos X (ci_cursor it) then Inr (None, it)
      else case cursor_get_leaf X (ci_cursor it) of
        None \<Rightarrow> Inr (None, it)
      | Some (leaf, start_pos) \<Rightarrow>
          rbind (usub (ci_end it) (cursor_pos X (ci_cursor it))) (\<lambda>a.
          rbind (usub (length leaf) start_pos) (\<lambda>b.
          rbind (slice leaf start_pos (start_pos + min a b)) (\<lambda>chunk.
          Inr (Some chunk, it\<lparr>ci_cursor := cursor_next_leaf X (ci_cursor it)\<rparr>)))))"

text \<open>\<open>for chunk in iter { acc.extend_from_slice(chunk) }\<close>.\<close>

fun chunk_collect :: "('c, 'b, 'd, 's) xi \<Rightarrow> nat \<Rightarrow> 'c chunk_iter \<Rightarrow> bytes \<Rightarrow> bytes res" where
  "chunk_collect X 0 it acc = Inl OutOfFuel"
| "chunk_collect X (Suc fuel) it acc =
     rbind (chunk_next X it) (\<lambda>(chunk, it').
       case chunk of None \<Rightarrow> Inr acc | Some ch \<Rightarrow> chunk_collect X fuel it' (acc @ ch))"

definition slice_to_cow :: "('c, 'b, 'd, 's) xi \<Rightarrow> rope \<Rightarrow> interval \<Rightarrow> bytes res" where
  "slice_to_cow X r iv =
     rbind (chunk_next X (iter_chunks X r iv)) (\<lambda>(first, it1).
     rbind (chunk_next X it1) (\<lambda>(second, it2).
     case (first, second) of
       (None, None) \<Rightarrow> Inr []
     | (Some b, None) \<Rightarrow> Inr b
     | (Some one, Some two) \<Rightarrow> chunk_collect X (Suc (length r)) it2 (one @ two)
     | (None, Some _) \<Rightarrow> Inl Unreachable))"

definition full_range :: "rope \<Rightarrow> interval" where
  "full_range r = Interval 0 (node_len r)"

definition rope_apply_delta :: "('c, 'b, 'd, 's) xi \<Rightarrow> rope \<Rightarrow> 'd \<Rightarrow> rope res" where
  "rope_apply_delta X r d = delta_apply X d r"

definition without_subset :: "('c, 'b, 'd, 's) xi \<Rightarrow> rope \<Rightarrow> 's \<Rightarrow> rope" where
  "without_subset X r s = delete_from X s r"

definition into_node :: "rope \<Rightarrow> node" where
  "into_node r = r"

function split_leaves :: "bytes \<Rightarrow> bytes list" where
  "split_leaves source =
     (if source = [] then []
      else let split_point = min (length source) MAX_LEAF
           in take split_point source # split_leaves (drop split_point source))"
  by pat_completeness auto
termination
  by (relation "measure length") (auto simp: MAX_LEAF_def)

declare split_leaves.simps [simp del]

definition rope_from_vec :: "('c, 'b, 'd, 's) xi \<Rightarrow> bytes \<Rightarrow> rope" where
  "rope_from_vec X vec =
     (if length vec \<le> MAX_LEAF then tree_build X (if vec = [] then [] else [vec])
      else tree_build X (split_leaves vec))"

definition vec_from_rope :: "('c, 'b, 'd, 's) xi \<Rightarrow> rope \<Rightarrow> bytes res" where
  "vec_from_rope X r = chunk_collect X (Suc (length r)) (iter_chunks X r (full_range r)) []"

text \<open>\<open>{:x}\<close> and \<open>{:02x}\<close>.\<close>

definition hex_digit :: "nat \<Rightarrow> char" where
  "hex_digit n = ''0123456789abcdef'' ! n"

definition fmt_02x :: "u8 \<Rightarrow> string" where
  "fmt_02x b = [hex_digit (unat b div 16), hex_digit (unat b mod 16)]"

definition rope_display :: "('c, 'b, 'd, 's) xi \<Rightarrow> rope \<Rightarrow> string res" where
  "rope_display X r = rbind (vec_from_rope X r) (\<lambda>bs. Inr (concat (map fmt_02x bs)))"

definition rope_debug :: "('c, 'b, 'd, 's) xi \<Rightarrow> bool \<Rightarrow> rope \<Rightarrow> string res" where
  "rope_debug X alternate r =
     rbind (vec_from_rope X r) (\<lambda>bs.
       Inr ((if alternate then '''' else ''Rope('') @ concat (map fmt_02x bs) @
            (if alternate then '''' else '')'')))"

section \<open>Chunk iteration\<close>

text \<open>Where a cursor stands, and the bytes from there to the end of the rope.\<close>

definition stands :: "node \<Rightarrow> nat \<Rightarrow> nat \<Rightarrow> bool" where
  "stands n i k \<longleftrightarrow> i < length n \<and> k \<le> length (n ! i) \<or> i = length n \<and> k = 0"

lemma rest_at_leaf:
  assumes "i < length n" and "k \<le> length (n ! i)"
  shows "drop (length (concat (take i n)) + k) (concat n) = drop k (n ! i) @ concat (drop (Suc i) n)"
proof -
  have "concat n = concat (take i n) @ n ! i @ concat (drop (Suc i) n)"
    using id_take_nth_drop [OF assms(1)] by (metis concat.simps(2) concat_append)
  then have "drop (length (concat (take i n)) + k) (concat n) = drop k (n ! i @ concat (drop (Suc i) n))"
    by simp
  with assms(2) show ?thesis by simp
qed

lemma rest_at_end: "drop (length (concat (take (length n) n)) + 0) (concat n) = []"
  by simp

lemma length_take_Suc: "i < length n \<Longrightarrow>
    length (concat (take (Suc i) n)) = length (concat (take i n)) + length (n ! i)"
  by (simp add: take_Suc_conv_app_nth)

text \<open>An exhausted iterator stays exhausted, so \<open>slice_to_cow\<close> is the plain loop over the chunks.\<close>

lemma chunk_next_None: "chunk_next X it = Inr (None, it') \<Longrightarrow> it' = it"
  by (auto simp: chunk_next_def res_simps split: if_splits option.splits)

lemma slice_to_cow_collect:
  "slice_to_cow X r iv = chunk_collect X (Suc (Suc (Suc (length r)))) (iter_chunks X r iv) []"
proof (cases "chunk_next X (iter_chunks X r iv)")
  case (Inr p1)
  obtain first it1 where p1: "p1 = (first, it1)" by force
  show ?thesis
  proof (cases first)
    case None
    with Inr p1 have "it1 = iter_chunks X r iv" by (auto dest: chunk_next_None)
    with None Inr p1 show ?thesis by (simp add: slice_to_cow_def)
  next
    case (Some one)
    with Inr p1 show ?thesis
      by (cases "chunk_next X it1") (auto simp: slice_to_cow_def split: option.splits)
  qed
qed (simp add: slice_to_cow_def)

lemma split_leaves_Cons: "source \<noteq> [] \<Longrightarrow>
    split_leaves source = take MAX_LEAF source # split_leaves (drop MAX_LEAF source)"
  by (subst split_leaves.simps) (simp add: Let_def min_def)

lemma split_leaves_Nil [simp]: "split_leaves [] = []"
  by (simp add: split_leaves.simps)

lemma concat_split_leaves: "concat (split_leaves source) = source"
proof (induction source rule: split_leaves.induct)
  case (1 source)
  show ?case
  proof (cases "source = []")
    case False
    with 1 [OF False refl] show ?thesis
      by (simp add: split_leaves_Cons min_def split: if_splits)
  qed simp
qed

lemma split_leaves_bounds: "l \<in> set (split_leaves source) \<Longrightarrow> l \<noteq> [] \<and> length l \<le> MAX_LEAF"
proof (induction source rule: split_leaves.induct)
  case (1 source)
  show ?case
  proof (cases "source = []")
    case True
    with 1 show ?thesis by simp
  next
    case False
    have "l = take MAX_LEAF source \<or> l \<in> set (split_leaves (drop (min (length source) MAX_LEAF) source))"
      using 1(2) False by (auto simp: split_leaves_Cons min_def)
    then show ?thesis
      using False 1(1) [OF False refl] by (auto simp: MAX_LEAF_def)
  qed
qed

text \<open>Two lower-case digits per byte determine the byte.\<close>

lemma hex_digit_inj: "m < 16 \<Longrightarrow> n < 16 \<Longrightarrow> hex_digit m = hex_digit n \<Longrightarrow> m = n"
  by (auto simp: hex_digit_def less_Suc_eq numeral_eq_Suc nth_Cons')

lemma fmt_02x_inj: "fmt_02x a = fmt_02x b \<Longrightarrow> a = b"
proof -
  assume eq: "fmt_02x a = fmt_02x b"
  have lt: "unat x div 16 < 16" for x :: u8
    using unsigned_less [of x] by (simp add: div_less_iff_less_mult)
  from eq have "unat a div 16 = unat b div 16" "unat a mod 16 = unat b mod 16"
    using hex_digit_inj [OF lt lt, of a b] hex_digit_inj [of "unat a mod 16" "unat b mod 16"]
    by (auto simp: fmt_02x_def)
  then have "unat a = unat b" by (metis div_mult_mod_eq)
  then show "a = b" by (rule unsigned_word_eqI)
qed

lemma display_bytes_inj: "concat (map fmt_02x xs) = concat (map fmt_02x ys) \<Longrightarrow> xs = ys"
proof (induction xs arbitrary: ys)
  case Nil
  then show ?case by (cases ys) (auto simp: fmt_02x_def)
next
  case (Cons x xs)
  then obtain y ys' where "ys = y # ys'" by (cases ys) (auto simp: fmt_02x_def)
  with Cons show ?case using fmt_02x_inj [of x y] by (auto simp: fmt_02x_def)
qed

context xi_tree
begin

lemma chunk_next_done:
  assumes "cur_at n i k c" and "ci_cursor it = c"
    and "ci_end it \<le> length (concat (take i n)) + k \<or> i = length n"
  shows "chunk_next X it = Inr (None, it)"
  using assms cursor_pos_at [OF assms(1)] cursor_leaf_at [OF assms(1)]
  by (auto simp: chunk_next_def)

lemma chunk_next_leaf:
  assumes at: "cur_at n i k (ci_cursor it)" and st: "i < length n" "k \<le> length (n ! i)"
    and "length (concat (take i n)) + k < ci_end it"
  shows "\<exists>it'. chunk_next X it =
      Inr (Some (take (ci_end it - (length (concat (take i n)) + k)) (drop k (n ! i))), it') \<and>
      ci_end it' = ci_end it \<and> cur_at n (Suc i) 0 (ci_cursor it')"
  using assms cursor_pos_at [OF at] cursor_leaf_at [OF at] cursor_next_at [OF at st(1)]
  by (auto simp: chunk_next_def min_def)

lemma chunk_collect_from:
  assumes "cur_at n i k (ci_cursor it)" and "stands n i k" and "length n - i < fuel"
  shows "chunk_collect X fuel it acc =
    Inr (acc @ take (ci_end it - (length (concat (take i n)) + k))
                    (drop (length (concat (take i n)) + k) (concat n)))"
  using assms
proof (induction fuel arbitrary: it i k acc)
  case (Suc fuel)
  let ?p = "length (concat (take i n)) + k"
  show ?case
  proof (cases "ci_end it \<le> ?p \<or> i = length n")
    case True
    then show ?thesis
      using chunk_next_done [OF Suc.prems(1) refl True] Suc.prems(2) by (auto simp: stands_def)
  next
    case False
    then have st: "i < length n" "k \<le> length (n ! i)" using Suc.prems(2) by (auto simp: stands_def)
    obtain it' where it': "chunk_next X it = Inr (Some (take (ci_end it - ?p) (drop k (n ! i))), it')"
        "ci_end it' = ci_end it" "cur_at n (Suc i) 0 (ci_cursor it')"
      using chunk_next_leaf [OF Suc.prems(1) st] False by auto
    have "stands n (Suc i) 0" using st by (auto simp: stands_def)
    moreover have "length n - Suc i < fuel" using Suc.prems(3) st by simp
    ultimately have IH: "chunk_collect X fuel it' acc' =
        Inr (acc' @ take (ci_end it' - (length (concat (take (Suc i) n)) + 0))
          (drop (length (concat (take (Suc i) n)) + 0) (concat n)))" for acc'
      using Suc.IH [OF it'(3)] by blast
    have len: "length (concat (take (Suc i) n)) = ?p + length (drop k (n ! i))"
      using st by (simp add: length_take_Suc)
    have rest: "drop (length (concat (take (Suc i) n)) + 0) (concat n) = concat (drop (Suc i) n)"
      by (metis append_eq_conv_conj append_take_drop_id concat_append add.right_neutral)
    have "take (ci_end it - ?p) (drop ?p (concat n)) =
        take (ci_end it - ?p) (drop k (n ! i)) @
        take (ci_end it - (?p + length (drop k (n ! i)))) (concat (drop (Suc i) n))"
      unfolding rest_at_leaf [OF st] by (simp add: diff_diff_left)
    then show ?thesis
      unfolding chunk_collect.simps it'(1) using IH it'(2) len rest by simp
  qed
qed simp

lemma chunk_collect_range:
  assumes "s \<le> node_len r" and "Suc (length r) \<le> fuel"
  shows "chunk_collect X fuel (iter_chunks X r (Interval s e)) [] =
    Inr (take (e - s) (drop s (node_bytes r)))"
proof -
  obtain i k where at: "cur_at r i k (cursor_new X r s)"
    and p: "length (concat (take i r)) + k = s" and st: "stands r i k"
    using cursor_new_at [OF assms(1)] by (auto simp: stands_def)
  have "length r - i < fuel" using assms(2) by simp
  with at st have "chunk_collect X fuel (iter_chunks X r (Interval s e)) [] =
      Inr ([] @ take (e - (length (concat (take i r)) + k))
        (drop (length (concat (take i r)) + k) (concat r)))"
    using chunk_collect_from [of r i k "iter_chunks X r (Interval s e)" fuel "[]"]
    by (simp add: iter_chunks_def)
  then show ?thesis unfolding p by simp
qed

lemma vec_from_rope_bytes: "vec_from_rope X r = Inr (node_bytes r)"
  unfolding vec_from_rope_def full_range_def by (subst chunk_collect_range) auto

lemma slice_to_cow_bytes:
  "s \<le> node_len r \<Longrightarrow> slice_to_cow X r (Interval s e) = Inr (take (e - s) (drop s (node_bytes r)))"
  unfolding slice_to_cow_collect by (rule chunk_collect_range) auto

lemma rope_from_vec_bytes: "node_bytes (rope_from_vec X v) = v"
  by (auto simp: rope_from_vec_def tree_build_bytes concat_split_leaves)

lemma rope_display_bytes: "rope_display X r = Inr (concat (map fmt_02x (node_bytes r)))"
  by (simp add: rope_display_def vec_from_rope_bytes)

end

lemma push_maybe_split_spec:
  assumes "iv_start iv \<le> iv_end iv" and "iv_end iv \<le> length other"
  shows "\<exists>self' right. push_maybe_split self other iv = Inr (self', right) \<and>
    self' @ (case right of None \<Rightarrow> [] | Some x \<Rightarrow> x) =
      self @ take (iv_end iv - iv_start iv) (drop (iv_start iv) other) \<and>
    length self' \<le> MAX_LEAF \<and> (\<forall>x. right = Some x \<longrightarrow> x \<noteq> [] \<and> length self' = MAX_LEAF)"
proof -
  define all where "all = self @ take (iv_end iv - iv_start iv) (drop (iv_start iv) other)"
  have "push_maybe_split self other iv =
      (if length all \<le> MAX_LEAF then Inr (all, None) else Inr (take MAX_LEAF all, Some (drop MAX_LEAF all)))"
    using assms by (simp add: push_maybe_split_def all_def Let_def)
  then show ?thesis
    unfolding all_def [symmetric] by simp
qed

section \<open>Correctness of the rope\<close>

text \<open>
  C33: bytes survive the rope: building a rope from a vector (in leaves of at most 1024 bytes) and
  reading it back gives the vector, any slice of the rope is the slice of the vector, and the hex
  dump of the rope determines the vector. Reading never runs out of fuel.
\<close>

theorem rope_roundtrip:
  assumes "xi_tree X cur_at" and "s \<le> length v"
  shows "vec_from_rope X (rope_from_vec X v) = Inr v \<and>
    slice_to_cow X (rope_from_vec X v) (Interval s e) = Inr (take (e - s) (drop s v)) \<and>
    (rope_display X (rope_from_vec X v) = rope_display X (rope_from_vec X w) \<longrightarrow> v = w)"
  using xi_tree.vec_from_rope_bytes [OF assms(1)] xi_tree.rope_from_vec_bytes [OF assms(1)]
    xi_tree.slice_to_cow_bytes [OF assms(1), of s "rope_from_vec X v" e] assms(2)
    xi_tree.rope_display_bytes [OF assms(1)] display_bytes_inj [of v w] by simp

theorem rope_roundtrip_witness:
  "vec_from_rope ref_xi (rope_from_vec ref_xi [1, 2, 3]) = Inr [1, 2, 3] \<and>
   slice_to_cow ref_xi (rope_from_vec ref_xi [1, 2, 3]) (Interval 1 9) = Inr [2, 3]"
  using rope_roundtrip [OF ref_tree.xi_tree_axioms, of 1 "[1, 2, 3]" 9] by simp

end
