(* ===== verification/Selection.thy ===== *)
theory Selection
  imports Byte_Rope
begin

text \<open>
  \<open>src/selection.rs\<close>: selection regions (a caret and a tail, both inclusive), their movements,
  merging and splitting, and \<open>Selection\<close>, the sorted list of disjoint regions of a buffer with
  its main region. \<open>usize\<close> values are \<open>nat\<close>s with checked arithmetic; the casts to
  \<open>isize\<close> in the movements are written out.

  \<open>map_selections\<close> takes a closure \<open>FnMut(SelRegion) -> Vec<SelRegion>\<close>; a closure that
  mutates captured variables is modelled by passing their state through
  (\<open>'st \<Rightarrow> selregion \<Rightarrow> ('st \<times> selregion list) res\<close>).
\<close>

section \<open>Regions\<close>

record selregion =
  caret :: nat
  tail :: nat
  main :: bool

datatype direction = Up | Down | Left | Right

definition region_new :: "nat \<Rightarrow> nat \<Rightarrow> selregion" where
  "region_new c t = \<lparr>caret = c, tail = t, main = False\<rparr>"

definition is_main :: "selregion \<Rightarrow> bool" where
  "is_main r = main r"

definition with_direction :: "selregion \<Rightarrow> bool \<Rightarrow> selregion" where
  "with_direction r backward =
     (let mx = max (caret r) (tail r); mn = min (caret r) (tail r)
      in if backward then region_new mn mx else region_new mx mn)"

definition max_r :: "selregion \<Rightarrow> nat" where
  "max_r r = max (caret r) (tail r)"

definition min_r :: "selregion \<Rightarrow> nat" where
  "min_r r = min (caret r) (tail r)"

definition len_r :: "selregion \<Rightarrow> nat res" where
  "len_r r = rbind (usub (max_r r) (min_r r)) (\<lambda>d. uadd d 1)"

definition overlaps :: "selregion \<Rightarrow> selregion \<Rightarrow> bool" where
  "overlaps self other \<longleftrightarrow> min_r other \<le> max_r self"

text \<open>The caret after a movement; \<open>simple_move\<close> and \<open>simple_extend\<close> share this match.\<close>

fun moved_caret :: "direction \<Rightarrow> nat \<Rightarrow> nat \<Rightarrow> nat \<Rightarrow> nat \<Rightarrow> nat res" where
  "moved_caret Up bytes_per_line max_size count old_caret =
     rbind (ichecked (as_isize old_caret - saturating_imul (as_isize bytes_per_line) (as_isize count)))
       (\<lambda>i. Inr (as_usize (max 0 i)))"
| "moved_caret Down bytes_per_line max_size count old_caret =
     rbind (uadd old_caret (saturating_umul bytes_per_line count)) (\<lambda>n. Inr (min max_size n))"
| "moved_caret Left bytes_per_line max_size count old_caret =
     rbind (ichecked (as_isize old_caret - as_isize count)) (\<lambda>i. Inr (as_usize (max 0 i)))"
| "moved_caret Right bytes_per_line max_size count old_caret =
     rbind (uadd old_caret count) (\<lambda>n. Inr (min max_size n))"

definition simple_move :: "selregion \<Rightarrow> direction \<Rightarrow> nat \<Rightarrow> nat \<Rightarrow> nat \<Rightarrow> selregion res" where
  "simple_move r dir bytes_per_line max_size count =
     (if max_size = 0 then Inr r
      else rbind (moved_caret dir bytes_per_line max_size count (caret r))
        (\<lambda>loc. Inr (region_new loc loc)))"

definition simple_extend :: "selregion \<Rightarrow> direction \<Rightarrow> nat \<Rightarrow> nat \<Rightarrow> nat \<Rightarrow> selregion res" where
  "simple_extend r dir bytes_per_line max_size count =
     (if max_size = 0 then Inr r
      else rbind (moved_caret dir bytes_per_line max_size count (caret r))
        (\<lambda>loc. Inr (region_new loc (tail r))))"

definition jump_to :: "selregion \<Rightarrow> nat \<Rightarrow> selregion" where
  "jump_to r offset = region_new offset offset"

definition extend_to :: "selregion \<Rightarrow> nat \<Rightarrow> selregion" where
  "extend_to r offset = region_new offset (tail r)"

fun boundary_caret :: "direction \<Rightarrow> nat \<Rightarrow> nat \<Rightarrow> nat \<Rightarrow> nat res" where
  "boundary_caret Up bytes_per_line max_size c = Inr 0"
| "boundary_caret Down bytes_per_line max_size c = usub max_size 1"
| "boundary_caret Left bytes_per_line max_size c = rbind (umod c bytes_per_line) (usub c)"
| "boundary_caret Right bytes_per_line max_size c =
     rbind (uadd c bytes_per_line) (\<lambda>a.
     rbind (umod c bytes_per_line) (\<lambda>m.
     rbind (usub a m) (\<lambda>b.
     rbind (usub b 1) (\<lambda>e.
     rbind (usub max_size 1) (\<lambda>l.
     Inr (min e l))))))"

definition jump_to_boundary :: "selregion \<Rightarrow> direction \<Rightarrow> nat \<Rightarrow> nat \<Rightarrow> selregion res" where
  "jump_to_boundary r dir bytes_per_line max_size =
     (if max_size = 0 then Inr r
      else rbind (boundary_caret dir bytes_per_line max_size (caret r))
        (\<lambda>loc. Inr (region_new loc loc)))"

definition extend_to_boundary :: "selregion \<Rightarrow> direction \<Rightarrow> nat \<Rightarrow> nat \<Rightarrow> selregion res" where
  "extend_to_boundary r dir bytes_per_line max_size =
     (if max_size = 0 then Inr r
      else rbind (boundary_caret dir bytes_per_line max_size (caret r))
        (\<lambda>loc. Inr (region_new loc (tail r))))"

definition swap_caret :: "selregion \<Rightarrow> selregion" where
  "swap_caret r = region_new (tail r) (caret r)"

definition collapse :: "selregion \<Rightarrow> selregion" where
  "collapse r = region_new (caret r) (caret r)"

definition forward :: "selregion \<Rightarrow> bool" where
  "forward r \<longleftrightarrow> tail r \<le> caret r"

definition backward :: "selregion \<Rightarrow> bool" where
  "backward r \<longleftrightarrow> caret r \<le> tail r"

definition to_backward :: "selregion \<Rightarrow> selregion" where
  "to_backward r = region_new (min_r r) (max_r r)"

definition to_forward :: "selregion \<Rightarrow> selregion" where
  "to_forward r = region_new (max_r r) (min_r r)"

definition merge :: "selregion \<Rightarrow> selregion \<Rightarrow> selregion res" where
  "merge self other =
     (let both_forward = forward self \<and> forward other;
          both_backward = backward self \<and> backward other
      in rbind
        (case (both_forward, both_backward) of
           (True, True) \<Rightarrow> if caret self = caret other then Inr self else Inl AssertionFailed
         | (True, False) \<Rightarrow>
             Inr (region_new (max (caret self) (caret other)) (min (tail self) (tail other)))
         | (False, True) \<Rightarrow>
             Inr (region_new (min (caret self) (caret other)) (max (tail self) (tail other)))
         | (False, False) \<Rightarrow> Inl ExplicitPanic)
        (\<lambda>merged. Inr (if main self \<or> main other then merged\<lparr>main := True\<rparr> else merged)))"

definition inherit_direction :: "selregion \<Rightarrow> selregion \<Rightarrow> selregion" where
  "inherit_direction r parent = (if forward parent then to_forward r else to_backward r)"

definition split_at_region :: "selregion \<Rightarrow> nat \<Rightarrow> nat \<Rightarrow> (selregion option \<times> selregion option) res" where
  "split_at_region r start end =
     (if start \<le> min_r r then
        (if max_r r \<le> end then Inr (None, None)
         else rbind (uadd end 1) (\<lambda>e1.
           Inr (None, Some (inherit_direction (region_new e1 (max_r r)) r))))
      else if max_r r \<le> end then
        rbind (usub start 1) (\<lambda>s1.
          Inr (Some (inherit_direction (region_new (min_r r) s1) r), None))
      else
        rbind (usub start 1) (\<lambda>s1.
        rbind (uadd end 1) (\<lambda>e1.
          Inr (Some (region_new (min_r r) s1), Some (region_new e1 (max_r r))))))"

section \<open>Selections\<close>

record selection =
  regions :: "selregion list"
  main_selection :: nat

definition selection_new :: selection where
  "selection_new = \<lparr>regions = [(region_new 0 0)\<lparr>main := True\<rparr>], main_selection = 0\<rparr>"

definition sel_clear :: "selection \<Rightarrow> selection" where
  "sel_clear sel = \<lparr>regions = [(region_new 0 0)\<lparr>main := True\<rparr>], main_selection = 0\<rparr>"

definition len_bytes :: "selection \<Rightarrow> nat res" where
  "len_bytes sel = rfold (\<lambda>acc r. rbind (len_r r) (uadd acc)) 0 (regions sel)"

definition retain :: "selection \<Rightarrow> nat \<Rightarrow> selection res" where
  "retain sel i = rbind (index (regions sel) i) (\<lambda>r.
     Inr \<lparr>regions = [r\<lparr>main := True\<rparr>], main_selection = 0\<rparr>)"

text \<open>\<open>self.regions[i].main = b\<close>.\<close>

definition set_main :: "selregion list \<Rightarrow> nat \<Rightarrow> bool \<Rightarrow> selregion list res" where
  "set_main rs i b = rbind (index rs i) (\<lambda>r. vec_set rs i (r\<lparr>main := b\<rparr>))"

definition sel_remove :: "selection \<Rightarrow> nat \<Rightarrow> selection res" where
  "sel_remove sel i =
     (if length (regions sel) = 1 then Inr sel
      else rbind (vec_remove (regions sel) i) (\<lambda>rs.
           rbind (usub (length rs) 1) (\<lambda>l.
           let m = min l (main_selection sel) in
           rbind (set_main rs m True) (\<lambda>rs'.
           Inr \<lparr>regions = rs', main_selection = m\<rparr>))))"

definition select_all :: "selection \<Rightarrow> nat \<Rightarrow> selection res" where
  "select_all sel buf_size =
     (let sel' = sel_clear sel in
      if buf_size = 0 then Inr sel'
      else rbind (index (regions sel') 0) (\<lambda>r.
           rbind (usub buf_size 1) (\<lambda>l.
           rbind (vec_set (regions sel') 0 (r\<lparr>tail := 0, caret := l\<rparr>)) (\<lambda>rs.
           Inr (sel'\<lparr>regions := rs\<rparr>)))))"

definition sel_main :: "selection \<Rightarrow> selregion res" where
  "sel_main sel = index (regions sel) (main_selection sel)"

text \<open>\<open>slice::binary_search_by\<close>: \<open>Inr\<close> the position of an equal key, \<open>Inl\<close> the insertion point.\<close>

function binary_search :: "nat list \<Rightarrow> nat \<Rightarrow> nat \<Rightarrow> nat \<Rightarrow> nat + nat" where
  "binary_search ks x lo hi =
     (if lo < hi then
        let mid = lo + (hi - lo) div 2 in
        if ks ! mid = x then Inr mid
        else if ks ! mid < x then binary_search ks x (Suc mid) hi
        else binary_search ks x lo mid
      else Inl lo)"
  by pat_completeness auto
termination
  by (relation "measure (\<lambda>(ks, x, lo, hi). hi - lo)") auto

declare binary_search.simps [simp del]

definition sel_search :: "selection \<Rightarrow> nat \<Rightarrow> nat res" where
  "sel_search sel offset =
     (if regions sel = [] then Inl UnwrapNone
      else if max_r (last (regions sel)) < offset then Inr (length (regions sel))
      else Inr (case binary_search (map max_r (regions sel)) offset 0 (length (regions sel)) of
                  Inr i \<Rightarrow> i | Inl i \<Rightarrow> i))"

definition regions_in_range :: "selection \<Rightarrow> nat \<Rightarrow> nat \<Rightarrow> selregion list res" where
  "regions_in_range sel start end =
     rbind (sel_search sel start) (\<lambda>first.
     rbind (sel_search sel end) (\<lambda>lst.
     let lst' = (if lst < length (regions sel) \<and> min_r (regions sel ! lst) \<le> end then lst + 1 else lst)
     in slice (regions sel) first lst'))"

text \<open>The body of the inner loop of \<open>map_selections\<close>: push, or merge with the last region.\<close>

definition push_region :: "selregion list \<Rightarrow> selregion \<Rightarrow> selregion list res" where
  "push_region regions_out new_region =
     (if regions_out = [] \<or> \<not> overlaps (last regions_out) new_region
      then Inr (regions_out @ [new_region])
      else rbind (merge (last regions_out) new_region) (\<lambda>m. Inr (butlast regions_out @ [m])))"

type_synonym 'st region_closure = "'st \<Rightarrow> selregion \<Rightarrow> ('st \<times> selregion list) res"

fun map_loop :: "'st region_closure \<Rightarrow> nat \<Rightarrow> nat \<Rightarrow> selregion list \<Rightarrow> 'st \<Rightarrow> selregion list \<Rightarrow> nat \<Rightarrow>
    ('st \<times> selregion list \<times> nat) res" where
  "map_loop f main_sel i [] st regions_out new_main_sel = Inr (st, regions_out, new_main_sel)"
| "map_loop f main_sel i (region # rest) st regions_out new_main_sel =
     rbind (f st region) (\<lambda>(st', new_regions).
     rbind (rfold push_region regions_out new_regions) (\<lambda>out.
     if i = main_sel then
       rbind (usub (length out) 1) (\<lambda>nm.
       rbind (set_main out nm True) (\<lambda>out'.
       map_loop f main_sel (Suc i) rest st' out' nm))
     else map_loop f main_sel (Suc i) rest st' out new_main_sel))"

definition sel_map_selections :: "'st region_closure \<Rightarrow> 'st \<Rightarrow> selection \<Rightarrow> ('st \<times> selection) res" where
  "sel_map_selections f st sel =
     rbind (map_loop f (main_selection sel) 0 (regions sel) st [] 0) (\<lambda>(st', out, nm).
     Inr (st', sel\<lparr>regions := out, main_selection := nm\<rparr>))"

text \<open>A closure \<open>|region| vec![g(region)]\<close> that also updates captured state.\<close>

definition single :: "(selregion \<Rightarrow> selregion res) \<Rightarrow> ('st \<Rightarrow> selregion \<Rightarrow> selregion \<Rightarrow> 'st) \<Rightarrow>
    'st region_closure" where
  "single g upd st r = rbind (g r) (\<lambda>r'. Inr (upd st r r', [r']))"

abbreviation stateless :: "unit \<Rightarrow> selregion \<Rightarrow> selregion \<Rightarrow> unit" where
  "stateless \<equiv> \<lambda>_ _ _. ()"

text \<open>The new place of an offset under a delta, as both \<open>apply_delta\<close> functions compute it.\<close>

definition delta_offset :: "('c, 'b, 'd, 's) xi \<Rightarrow> 'd \<Rightarrow> nat \<Rightarrow> nat \<Rightarrow> nat" where
  "delta_offset X delta max_len p =
     (if max_len = p then new_document_len X delta
      else min (new_document_len X delta) (transform X delta p True))"

definition delta_region :: "('c, 'b, 'd, 's) xi \<Rightarrow> 'd \<Rightarrow> nat \<Rightarrow> selregion \<Rightarrow> selregion res" where
  "delta_region X delta max_len region =
     Inr (region_new (delta_offset X delta max_len (caret region))
                     (delta_offset X delta max_len (tail region)))"

definition sel_apply_delta :: "('c, 'b, 'd, 's) xi \<Rightarrow> selection \<Rightarrow> 'd \<Rightarrow> nat \<Rightarrow> selection res" where
  "sel_apply_delta X sel delta max_len =
     (if new_document_len X delta = 0 then Inr (sel_clear sel)
      else rbind (sel_map_selections (single (delta_region X delta max_len) stateless) () sel)
        (\<lambda>(_, sel'). Inr sel'))"

definition delta_offset_by :: "('c, 'b, 'd, 's) xi \<Rightarrow> 'd \<Rightarrow> nat \<Rightarrow> int \<Rightarrow> nat \<Rightarrow> nat res" where
  "delta_offset_by X delta max_len by p =
     (if max_len = p then
        rbind (ichecked (as_isize (new_document_len X delta) + by)) (\<lambda>i. Inr (as_usize i))
      else
        rbind (ichecked (as_isize (transform X delta p True) + by)) (\<lambda>i.
        Inr (min (new_document_len X delta) (as_usize i))))"

definition delta_region_by :: "('c, 'b, 'd, 's) xi \<Rightarrow> 'd \<Rightarrow> nat \<Rightarrow> int \<Rightarrow> int \<Rightarrow> selregion \<Rightarrow> selregion res" where
  "delta_region_by X delta max_len caret_offset tail_offset region =
     rbind (delta_offset_by X delta max_len caret_offset (caret region)) (\<lambda>c.
     rbind (delta_offset_by X delta max_len tail_offset (tail region)) (\<lambda>t.
     Inr (region_new c t)))"

definition sel_apply_delta_offset_carets ::
    "('c, 'b, 'd, 's) xi \<Rightarrow> selection \<Rightarrow> 'd \<Rightarrow> int \<Rightarrow> int \<Rightarrow> nat \<Rightarrow> selection res" where
  "sel_apply_delta_offset_carets X sel delta caret_offset tail_offset max_len =
     (if new_document_len X delta = 0 then Inr (sel_clear sel)
      else rbind (sel_map_selections
          (single (delta_region_by X delta max_len caret_offset tail_offset) stateless) () sel)
        (\<lambda>(_, sel'). Inr sel'))"

definition sel_len :: "selection \<Rightarrow> nat" where
  "sel_len sel = length (regions sel)"

definition main_cursor_offset :: "selection \<Rightarrow> nat res" where
  "main_cursor_offset sel = rbind (index (regions sel) (main_selection sel)) (\<lambda>r. Inr (caret r))"

definition sel_select_next :: "selection \<Rightarrow> nat \<Rightarrow> selection res" where
  "sel_select_next sel count =
     rbind (set_main (regions sel) (main_selection sel) False) (\<lambda>rs.
     rbind (uadd (main_selection sel) count) (\<lambda>a.
     rbind (umod a (length rs)) (\<lambda>m.
     rbind (set_main rs m True) (\<lambda>rs'.
     Inr \<lparr>regions = rs', main_selection = m\<rparr>))))"

definition sel_select_prev :: "selection \<Rightarrow> nat \<Rightarrow> selection res" where
  "sel_select_prev sel count =
     rbind (set_main (regions sel) (main_selection sel) False) (\<lambda>rs.
     rbind (uadd (main_selection sel) (length rs)) (\<lambda>a.
     rbind (umod count (length rs)) (\<lambda>c.
     rbind (usub a c) (\<lambda>b.
     rbind (umod b (length rs)) (\<lambda>m.
     rbind (set_main rs m True) (\<lambda>rs'.
     Inr \<lparr>regions = rs', main_selection = m\<rparr>))))))"

section \<open>Well-formed selections\<close>

text \<open>
  The invariant of the comments in the source: the regions are sorted and do not overlap; and
  what the code relies on besides: there is a region and the main index is one of them.
  \<open>flags_ok\<close>: exactly the main region carries the \<open>main\<close> flag.
\<close>

definition before :: "selregion \<Rightarrow> selregion \<Rightarrow> bool" where
  "before a b \<longleftrightarrow> max_r a < min_r b"

definition sel_wf :: "selection \<Rightarrow> bool" where
  "sel_wf sel \<longleftrightarrow> regions sel \<noteq> [] \<and> sorted_wrt before (regions sel) \<and>
     main_selection sel < length (regions sel)"

definition flags_ok :: "selection \<Rightarrow> bool" where
  "flags_ok sel \<longleftrightarrow> (\<forall>i < length (regions sel). main (regions sel ! i) = (i = main_selection sel))"

definition in_bounds :: "nat \<Rightarrow> selection \<Rightarrow> bool" where
  "in_bounds n sel \<longleftrightarrow> (\<forall>r \<in> set (regions sel). max_r r \<le> n)"

definition cursor :: "selregion \<Rightarrow> bool" where
  "cursor r \<longleftrightarrow> caret r = tail r"

section \<open>Facts about regions\<close>

lemma region_new_simps [simp]:
  "caret (region_new c t) = c" "tail (region_new c t) = t" "main (region_new c t) = False"
  "max_r (region_new c t) = max c t" "min_r (region_new c t) = min c t"
  by (simp_all add: region_new_def max_r_def min_r_def)

lemma region_main_update_simps [simp]:
  "max_r (r\<lparr>main := b\<rparr>) = max_r r" "min_r (r\<lparr>main := b\<rparr>) = min_r r"
  "cursor (r\<lparr>main := b\<rparr>) = cursor r" "forward (r\<lparr>main := b\<rparr>) = forward r"
  "backward (r\<lparr>main := b\<rparr>) = backward r"
  by (simp_all add: max_r_def min_r_def cursor_def forward_def backward_def)

lemma before_main_update [simp]:
  "before (r\<lparr>main := b\<rparr>) q = before r q" "before q (r\<lparr>main := b\<rparr>) = before q r"
  by (simp_all add: before_def)

lemma min_le_max_r: "min_r r \<le> max_r r"
  by (simp add: min_r_def max_r_def)

lemma before_trans: "before a b \<Longrightarrow> before b c \<Longrightarrow> before a c"
  unfolding before_def using min_le_max_r [of b] by linarith

lemma cursor_iff: "cursor r \<longleftrightarrow> min_r r = max_r r"
  by (auto simp: cursor_def min_r_def max_r_def)

lemma cursor_directions: "cursor r \<longleftrightarrow> forward r \<and> backward r"
  by (auto simp: cursor_def forward_def backward_def)

text \<open>Merging keeps exactly the hull and the flag; it fails exactly when the directions conflict.\<close>

lemma merge_hull:
  "merge a b = Inr m \<Longrightarrow>
    min_r m = min (min_r a) (min_r b) \<and> max_r m = max (max_r a) (max_r b) \<and> main m = (main a \<or> main b)"
  by (auto simp: merge_def res_simps Let_def forward_def backward_def min_r_def max_r_def
      split: bool.splits if_splits)

lemma merge_forward: "forward a \<Longrightarrow> forward b \<Longrightarrow> min_r a \<le> min_r b \<Longrightarrow> overlaps a b \<Longrightarrow>
    \<exists>m. merge a b = Inr m \<and> forward m"
  by (auto simp: merge_def Let_def forward_def backward_def overlaps_def min_r_def max_r_def
      split: bool.splits)

lemma merge_backward: "backward a \<Longrightarrow> backward b \<Longrightarrow> min_r a \<le> min_r b \<Longrightarrow> overlaps a b \<Longrightarrow>
    \<exists>m. merge a b = Inr m \<and> backward m"
  by (auto simp: merge_def Let_def forward_def backward_def overlaps_def min_r_def max_r_def
      split: bool.splits)

lemma merge_cursor: "cursor a \<Longrightarrow> cursor b \<Longrightarrow> caret a = caret b \<Longrightarrow> \<exists>m. merge a b = Inr m \<and> cursor m"
  by (auto simp: merge_def Let_def forward_def backward_def cursor_def split: bool.splits)

lemma merge_conflict:
  "merge a b = Inl ExplicitPanic \<longleftrightarrow> \<not> (forward a \<and> forward b) \<and> \<not> (backward a \<and> backward b)"
  by (auto simp: merge_def Let_def res_simps split: bool.splits if_splits)

section \<open>Facts about the loop of \<open>map_selections\<close>\<close>

lemma set_main_Inr: "i < length rs \<Longrightarrow> set_main rs i b = Inr (rs[i := (rs ! i)\<lparr>main := b\<rparr>])"
  by (simp add: set_main_def vec_set_def)

lemma set_main_eq_Inr [res_simps]:
  "set_main rs i b = Inr rs' \<longleftrightarrow> i < length rs \<and> rs' = rs[i := (rs ! i)\<lparr>main := b\<rparr>]"
  by (auto simp: set_main_def vec_set_def index_def)

lemma sorted_wrt_set_main: "sorted_wrt before (rs[i := (rs ! i)\<lparr>main := b\<rparr>]) = sorted_wrt before rs"
  by (cases "i < length rs") (auto simp: sorted_wrt_iff_nth_less nth_list_update)

lemma set_list_update_main:
  "(\<forall>r \<in> set (rs[i := (rs ! i)\<lparr>main := b\<rparr>]). P (max_r r) (min_r r)) \<longleftrightarrow>
   (\<forall>r \<in> set rs. P (max_r r) (min_r r))"
  by (cases "i < length rs") (auto simp: all_set_conv_all_nth nth_list_update)

text \<open>
  The loop invariant: \<open>out\<close> is sorted, every remaining region's image starts no earlier than
  the regions already there, and \<open>Q\<close> (a direction or bound property) holds of all.
\<close>

lemma push_region_sorted:
  assumes "sorted_wrt before out" and "\<forall>r \<in> set out. min_r r \<le> min_r x"
    and "push_region out x = Inr out'"
  shows "sorted_wrt before out' \<and> out' \<noteq> [] \<and> (\<forall>r \<in> set out'. min_r r \<le> min_r x)"
proof (cases "out = [] \<or> \<not> overlaps (last out) x")
  case True
  with assms(3) have out': "out' = out @ [x]" by (auto simp: push_region_def)
  show ?thesis
  proof (cases "out = []")
    case False
    with True have lst: "before (last out) x" by (auto simp: overlaps_def before_def)
    have "sorted_wrt before (butlast out @ [last out])" using False assms(1) by simp
    then have "\<forall>r \<in> set (butlast out @ [last out]). before r x"
      using lst by (auto simp: sorted_wrt_append intro: before_trans)
    then have "\<forall>r \<in> set out. before r x" using False by simp
    with assms out' show ?thesis by (auto simp: sorted_wrt_append)
  qed (use out' in auto)
next
  case False
  then obtain m where m: "merge (last out) x = Inr m" and out': "out' = butlast out @ [m]"
    using assms(3) by (auto simp: push_region_def res_simps)
  have "min_r m = min_r (last out)"
    using merge_hull [OF m] assms(2) False by auto
  moreover have "sorted_wrt before (butlast out @ [last out])"
    using assms(1) False by auto
  ultimately have "sorted_wrt before out'"
    unfolding out' sorted_wrt_append by (auto simp: before_def)
  with assms(2) False out' \<open>min_r m = min_r (last out)\<close> show ?thesis
    by (auto dest: in_set_butlastD)
qed

lemma push_region_hull:
  assumes "push_region out x = Inr out'" and "\<forall>r \<in> set out. max_r r \<le> n" and "max_r x \<le> n"
  shows "\<forall>r \<in> set out'. max_r r \<le> n"
  using assms
  by (auto simp: push_region_def res_simps dest!: merge_hull in_set_butlastD split: if_splits)

lemma push_region_length: "push_region out x = Inr out' \<Longrightarrow> length out \<le> length out' \<and> out' \<noteq> []"
  by (auto simp: push_region_def res_simps split: if_splits)

lemma push_region_flags:
  assumes "\<not> main x" and "push_region out x = Inr out'"
  shows "\<forall>j < length out'. main (out' ! j) = (j < length out \<and> main (out ! j))"
proof (cases "out = [] \<or> \<not> overlaps (last out) x")
  case True
  with assms have "out' = out @ [x]" by (auto simp: push_region_def)
  with assms(1) show ?thesis by (auto simp: nth_append less_Suc_eq)
next
  case False
  then obtain m where m: "merge (last out) x = Inr m" and out': "out' = butlast out @ [m]"
    using assms(2) by (auto simp: push_region_def res_simps)
  have "main m = main (out ! (length out - 1))"
    using merge_hull [OF m] assms(1) False by (simp add: last_conv_nth)
  with False show ?thesis
    by (auto simp: out' nth_append nth_butlast less_Suc_eq dest: less_antisym)
qed

text \<open>One round of the loop for a closure that returns a single region.\<close>

definition flag_last :: "selregion list \<Rightarrow> selregion list" where
  "flag_last out = out[length out - 1 := (out ! (length out - 1))\<lparr>main := True\<rparr>]"

lemma flag_last_simps [simp]:
  "length (flag_last out) = length out"
  "flag_last out = [] \<longleftrightarrow> out = []"
  "sorted_wrt before (flag_last out) = sorted_wrt before out"
  by (simp_all add: flag_last_def sorted_wrt_set_main)

lemma flag_last_all:
  "(\<forall>q \<in> set (flag_last out). P (max_r q) (min_r q)) \<longleftrightarrow> (\<forall>q \<in> set out. P (max_r q) (min_r q))"
  unfolding flag_last_def by (rule set_list_update_main)

lemma map_loop_single:
  "map_loop (single g upd) m i (r # rs) st out nm =
    rbind (g r) (\<lambda>r'. rbind (push_region out r') (\<lambda>out1.
      map_loop (single g upd) m (Suc i) rs (upd st r r') (if i = m then flag_last out1 else out1)
        (if i = m then length out1 - 1 else nm)))"
proof (cases "g r")
  case (Inr r')
  have step: "map_loop (single g upd) m i (r # rs) st out nm =
      rbind (push_region out r') (\<lambda>out1. if i = m then
        rbind (usub (length out1) 1) (\<lambda>nm'. rbind (set_main out1 nm' True) (\<lambda>out2.
          map_loop (single g upd) m (Suc i) rs (upd st r r') out2 nm'))
        else map_loop (single g upd) m (Suc i) rs (upd st r r') out1 nm)"
    unfolding map_loop.simps by (subst single_def) (simp add: Inr)
  show ?thesis
  proof (cases "push_region out r'")
    case out1: (Inr out1)
    then have "out1 \<noteq> []" using push_region_length by blast
    then show ?thesis unfolding step Inr
      by (simp add: out1 set_main_Inr flag_last_def Suc_leI)
  qed (simp add: step Inr del: map_loop.simps)
qed (subst map_loop.simps, subst single_def, simp)

section \<open>Contracts of region maps\<close>

text \<open>
  A region map \<open>g\<close> is what a command does to each region. \<open>region_map\<close>: on regions satisfying
  \<open>ok\<close> it keeps the order of disjoint regions and produces unflagged regions. Every such map
  keeps the invariant of the selection whenever the loop returns.
\<close>

locale region_map =
  fixes ok :: "selregion \<Rightarrow> bool"
    and g :: "selregion \<Rightarrow> selregion res"
  assumes image_order: "ok a \<Longrightarrow> ok b \<Longrightarrow> before a b \<Longrightarrow> g a = Inr a' \<Longrightarrow> g b = Inr b' \<Longrightarrow> min_r a' \<le> min_r b'"
    and image_unflagged: "ok a \<Longrightarrow> g a = Inr a' \<Longrightarrow> \<not> main a'"
begin

definition starts_after :: "selregion list \<Rightarrow> selregion list \<Rightarrow> bool" where
  "starts_after out rs \<longleftrightarrow> (\<forall>r \<in> set rs. \<forall>r'. g r = Inr r' \<longrightarrow> (\<forall>q \<in> set out. min_r q \<le> min_r r'))"

lemma starts_after_push:
  assumes "sorted_wrt before (r # rs)" and "\<forall>q \<in> set (r # rs). ok q"
    and "g r = Inr r'" and "\<forall>q \<in> set out. min_r q \<le> min_r r'"
  shows "starts_after out rs"
  using assms image_order unfolding starts_after_def
  by (metis le_trans list.set_intros(1) list.set_intros(2) sorted_wrt.simps(2))

lemma starts_after_flag_last: "starts_after (flag_last out) rs = starts_after out rs"
  unfolding starts_after_def using flag_last_all [of out "\<lambda>_ a. a \<le> b" for b] by blast

lemma loop_sorted:
  assumes "map_loop (single g upd) m i rs st out nm = Inr (st', out', nm')"
    and "sorted_wrt before rs" and "\<forall>r \<in> set rs. ok r"
    and "sorted_wrt before out" and "starts_after out rs"
  shows "sorted_wrt before out' \<and> (out \<noteq> [] \<or> rs \<noteq> [] \<longrightarrow> out' \<noteq> [])"
  using assms
proof (induction rs arbitrary: i st out nm)
  case (Cons r rs)
  from Cons.prems(1) obtain r' out1 where r': "g r = Inr r'" and out1: "push_region out r' = Inr out1"
    and loop: "map_loop (single g upd) m (Suc i) rs (upd st r r') (if i = m then flag_last out1 else out1)
      (if i = m then length out1 - 1 else nm) = Inr (st', out', nm')"
    by (auto simp: map_loop_single rbind_eq_Inr simp del: map_loop.simps)
  have out1_ok: "sorted_wrt before out1" "out1 \<noteq> []" "\<forall>q \<in> set out1. min_r q \<le> min_r r'"
    using push_region_sorted [OF Cons.prems(4) _ out1] Cons.prems(5) r' by (auto simp: starts_after_def)
  have "starts_after out1 rs"
    using starts_after_push [OF Cons.prems(2,3) r' out1_ok(3)] .
  with Cons.IH [OF loop] Cons.prems(2,3) out1_ok show ?case
    by (auto simp: starts_after_flag_last)
qed simp

lemma loop_flags:
  assumes "map_loop (single g upd) m i rs st out nm = Inr (st', out', nm')"
    and "\<forall>r \<in> set rs. ok r" and "m < i + length rs"
    and "\<forall>j < length out. main (out ! j) = (m < i \<and> j = nm)" and "m < i \<Longrightarrow> nm < length out"
  shows "nm' < length out' \<and> (\<forall>j < length out'. main (out' ! j) = (j = nm'))"
  using assms
proof (induction rs arbitrary: i st out nm)
  case (Cons r rs)
  from Cons.prems(1) obtain r' out1 where r': "g r = Inr r'" and out1: "push_region out r' = Inr out1"
    and loop: "map_loop (single g upd) m (Suc i) rs (upd st r r') (if i = m then flag_last out1 else out1)
      (if i = m then length out1 - 1 else nm) = Inr (st', out', nm')"
    by (auto simp: map_loop_single rbind_eq_Inr simp del: map_loop.simps)
  have nm1: "length out \<le> length out1" "out1 \<noteq> []" using push_region_length [OF out1] by auto
  have "\<not> main r'" using image_unflagged r' Cons.prems(2) by auto
  then have fl: "\<forall>j < length out1. main (out1 ! j) = (j < length out \<and> m < i \<and> j = nm)"
    using push_region_flags [OF _ out1] Cons.prems(4) by blast
  show ?case
  proof (rule Cons.IH [OF loop])
    show "\<forall>r \<in> set rs. ok r" and "m < Suc i + length rs" using Cons.prems(2,3) by auto
    show "\<forall>j < length (if i = m then flag_last out1 else out1).
        main ((if i = m then flag_last out1 else out1) ! j) =
        (m < Suc i \<and> j = (if i = m then length out1 - 1 else nm))"
      using fl nm1 Cons.prems(5) by (auto simp: flag_last_def nth_list_update)
    show "(if i = m then length out1 - 1 else nm) < length (if i = m then flag_last out1 else out1)"
      if "m < Suc i"
      using that nm1 Cons.prems(5) by auto
  qed
qed simp

lemma loop_bounds:
  assumes "map_loop (single g upd) m i rs st out nm = Inr (st', out', nm')"
    and "\<forall>q \<in> set out. max_r q \<le> n" and "\<And>r r'. r \<in> set rs \<Longrightarrow> g r = Inr r' \<Longrightarrow> max_r r' \<le> n"
  shows "\<forall>q \<in> set out'. max_r q \<le> n"
  using assms
proof (induction rs arbitrary: i st out nm)
  case (Cons r rs)
  from Cons.prems(1) obtain r' out1 where r': "g r = Inr r'" and out1: "push_region out r' = Inr out1"
    and loop: "map_loop (single g upd) m (Suc i) rs (upd st r r') (if i = m then flag_last out1 else out1)
      (if i = m then length out1 - 1 else nm) = Inr (st', out', nm')"
    by (auto simp: map_loop_single rbind_eq_Inr simp del: map_loop.simps)
  have "\<forall>q \<in> set out1. max_r q \<le> n"
    using push_region_hull [OF out1 Cons.prems(2)] Cons.prems(3) r' by auto
  then have "\<forall>q \<in> set (if i = m then flag_last out1 else out1). max_r q \<le> n"
    using flag_last_all [of out1 "\<lambda>a b. a \<le> n"] by simp
  from Cons.IH [OF loop this] Cons.prems(3) show ?case by auto
qed simp

lemma map_selections_wf:
  assumes "sel_map_selections (single g upd) st sel = Inr (st', sel')"
    and "sel_wf sel" and "\<forall>r \<in> set (regions sel). ok r"
  shows "sel_wf sel' \<and> flags_ok sel'"
proof -
  obtain out nm where loop: "map_loop (single g upd) (main_selection sel) 0 (regions sel) st [] 0 = Inr (st', out, nm)"
    and sel': "sel' = sel\<lparr>regions := out, main_selection := nm\<rparr>"
    using assms(1) by (auto simp: sel_map_selections_def res_simps)
  show ?thesis
    using loop_sorted [OF loop] loop_flags [OF loop] assms(2,3) sel'
    by (auto simp: sel_wf_def flags_ok_def starts_after_def)
qed

lemma map_selections_bounds:
  assumes "sel_map_selections (single g upd) st sel = Inr (st', sel')"
    and "\<And>r r'. r \<in> set (regions sel) \<Longrightarrow> g r = Inr r' \<Longrightarrow> max_r r' \<le> n"
  shows "in_bounds n sel'"
  using assms loop_bounds [where out = "[]" and n = n]
  by (fastforce simp: sel_map_selections_def res_simps in_bounds_def)

end

text \<open>
  \<open>total_region_map\<close>: the images exist and have a property \<open>Q\<close> (being a cursor, pointing
  forward, pointing backward) under which overlapping regions merge. Then the loop never panics.
\<close>

locale total_region_map = region_map ok g
  for ok :: "selregion \<Rightarrow> bool" and g :: "selregion \<Rightarrow> selregion res" +
  fixes Q :: "selregion \<Rightarrow> bool"
  assumes image_total: "ok a \<Longrightarrow> \<exists>a'. g a = Inr a' \<and> Q a'"
    and merge_total: "Q a \<Longrightarrow> Q b \<Longrightarrow> min_r a \<le> min_r b \<Longrightarrow> overlaps a b \<Longrightarrow> \<exists>m. merge a b = Inr m \<and> Q m"
    and Q_flag: "Q (r\<lparr>main := v\<rparr>) = Q r"
begin

lemma push_total:
  assumes "\<forall>q \<in> set out. Q q \<and> min_r q \<le> min_r x" and "Q x"
  shows "\<exists>out'. push_region out x = Inr out' \<and> (\<forall>q \<in> set out'. Q q)"
proof (cases "out = [] \<or> \<not> overlaps (last out) x")
  case True
  with assms show ?thesis by (auto simp: push_region_def)
next
  case False
  then obtain m where "merge (last out) x = Inr m" "Q m"
    using merge_total [of "last out" x] assms by auto
  with False assms show ?thesis
    by (auto simp: push_region_def dest: in_set_butlastD)
qed

lemma flag_last_Q: "(\<forall>q \<in> set (flag_last out). Q q) = (\<forall>q \<in> set out. Q q)"
  by (cases "out = []") (auto simp: flag_last_def all_set_conv_all_nth nth_list_update Q_flag)

lemma loop_total:
  assumes "sorted_wrt before rs" and "\<forall>r \<in> set rs. ok r"
    and "sorted_wrt before out" and "starts_after out rs" and "\<forall>q \<in> set out. Q q"
  shows "\<exists>st' out' nm'. map_loop (single g upd) m i rs st out nm = Inr (st', out', nm') \<and>
    (\<forall>q \<in> set out'. Q q)"
  using assms
proof (induction rs arbitrary: i st out nm)
  case (Cons r rs)
  obtain r' where r': "g r = Inr r'" "Q r'" using image_total Cons.prems(2) by auto
  have le: "\<forall>q \<in> set out. min_r q \<le> min_r r'"
    using Cons.prems(4) r' by (auto simp: starts_after_def)
  obtain out1 where out1: "push_region out r' = Inr out1" "\<forall>q \<in> set out1. Q q"
    using push_total [of out r'] le Cons.prems(5) r'(2) by blast
  have s: "sorted_wrt before out1 \<and> out1 \<noteq> [] \<and> (\<forall>q \<in> set out1. min_r q \<le> min_r r')"
    using push_region_sorted [OF Cons.prems(3) le out1(1)] .
  have "starts_after out1 rs"
    using starts_after_push [OF Cons.prems(1,2) r'(1)] s by blast
  then show ?case
    unfolding map_loop_single r'(1) using out1 s Cons.prems(1,2)
      Cons.IH [of "if i = m then flag_last out1 else out1" "Suc i" "upd st r r'"
        "if i = m then length out1 - 1 else nm"]
    by (auto simp: starts_after_flag_last flag_last_Q)
qed simp

lemma map_selections_total:
  assumes "sel_wf sel" and "\<forall>r \<in> set (regions sel). ok r"
  shows "\<exists>st' sel'. sel_map_selections (single g upd) st sel = Inr (st', sel') \<and>
    sel_wf sel' \<and> flags_ok sel' \<and> (\<forall>q \<in> set (regions sel'). Q q)"
proof -
  obtain st' out nm where loop:
    "map_loop (single g upd) (main_selection sel) 0 (regions sel) st [] 0 = Inr (st', out, nm)"
    and Q: "\<forall>q \<in> set out. Q q"
    using loop_total [of "regions sel" "[]"] assms by (force simp: sel_wf_def starts_after_def)
  then have eq: "sel_map_selections (single g upd) st sel =
      Inr (st', sel\<lparr>regions := out, main_selection := nm\<rparr>)"
    by (simp add: sel_map_selections_def)
  from map_selections_wf [OF eq assms] eq Q show ?thesis by auto
qed

end

text \<open>
  \<open>range_map\<close>: the image covers the same range, only the direction may change. Then nothing
  merges: the regions correspond one to one and the main index stays.
\<close>

locale range_map =
  fixes h :: "selregion \<Rightarrow> selregion"
  assumes range_image: "min_r (h a) = min_r a" "max_r (h a) = max_r a"
    and range_unflagged: "\<not> main (h a)"
begin

sublocale region_map "\<lambda>_. True" "\<lambda>r. Inr (h r)"
proof unfold_locales
  fix a b a' b'
  assume "before a b" "Inr (h a) = (Inr a' :: fault + selregion)" "Inr (h b) = (Inr b' :: fault + selregion)"
  then have "max_r a < min_r b" "a' = h a" "b' = h b" by (auto simp: before_def)
  with min_le_max_r [of a] show "min_r a' \<le> min_r b'"
    unfolding range_image(1) [of a, symmetric] by (simp add: range_image)
qed (auto simp: range_unflagged)

lemma range_loop:
  assumes "sorted_wrt before (xs @ rs)" and "map min_r out = map min_r xs" and "map max_r out = map max_r xs"
    and "length out = i" and "m < i \<Longrightarrow> nm = m"
  shows "\<exists>st' nm'. map_loop (single (\<lambda>r. Inr (h r)) upd) m i rs st out nm =
    Inr (st', out @ map2 (\<lambda>j r. if j = m then (h r)\<lparr>main := True\<rparr> else h r) [i ..< i + length rs] rs, nm') \<and>
    (m < i + length rs \<longrightarrow> nm' = m)"
  using assms
proof (induction rs arbitrary: xs i st out nm)
  case (Cons r rs)
  have "\<not> overlaps (last out) (h r)" if "out \<noteq> []"
  proof -
    from that Cons.prems(2) have "xs \<noteq> []" by auto
    with Cons.prems(1) have "before (last xs) r" by (simp add: sorted_wrt_append)
    moreover have "max_r (last out) = max_r (last xs)"
      using Cons.prems(3) that \<open>xs \<noteq> []\<close> by (metis last_map)
    ultimately show ?thesis by (simp add: overlaps_def before_def range_image)
  qed
  then have push: "push_region out (h r) = Inr (out @ [h r])" by (auto simp: push_region_def)
  let ?x = "if i = m then (h r)\<lparr>main := True\<rparr> else h r"
  have fl: "(if i = m then flag_last (out @ [h r]) else out @ [h r]) = out @ [?x]"
    by (simp add: flag_last_def)
  have "\<exists>st' nm'. map_loop (single (\<lambda>r. Inr (h r)) upd) m (Suc i) rs (upd st r (h r)) (out @ [?x])
      (if i = m then i else nm) =
    Inr (st', (out @ [?x]) @ map2 (\<lambda>j r. if j = m then (h r)\<lparr>main := True\<rparr> else h r)
      [Suc i ..< Suc i + length rs] rs, nm') \<and> (m < Suc i + length rs \<longrightarrow> nm' = m)"
  proof (rule Cons.IH [where xs = "xs @ [r]"])
    show "sorted_wrt before ((xs @ [r]) @ rs)" using Cons.prems(1) by simp
    show "map min_r (out @ [?x]) = map min_r (xs @ [r])" "map max_r (out @ [?x]) = map max_r (xs @ [r])"
      using Cons.prems(2,3) by (simp_all add: range_image)
    show "length (out @ [?x]) = Suc i" using Cons.prems(4) by simp
    show "(if i = m then i else nm) = m" if "m < Suc i" using that Cons.prems(5) by auto
  qed
  then show ?case
    unfolding map_loop_single using push fl Cons.prems(4)
    by (auto simp: upt_conv_Cons simp del: upt_Suc)
qed auto

lemma range_map_selections:
  assumes "sel_wf sel"
  shows "\<exists>st'. sel_map_selections (single (\<lambda>r. Inr (h r)) upd) st sel =
    Inr (st', sel\<lparr>regions := (map h (regions sel))
      [main_selection sel := (h (regions sel ! main_selection sel))\<lparr>main := True\<rparr>]\<rparr>)"
proof -
  obtain st' nm' where loop: "map_loop (single (\<lambda>r. Inr (h r)) upd) (main_selection sel) 0 (regions sel) st [] 0 =
      Inr (st', map2 (\<lambda>j r. if j = main_selection sel then (h r)\<lparr>main := True\<rparr> else h r)
        [0 ..< length (regions sel)] (regions sel), nm')" and "nm' = main_selection sel"
    using range_loop [of "[]" "regions sel" "[]" 0 "main_selection sel" 0 upd st] assms
    by (auto simp: sel_wf_def)
  moreover have "map2 (\<lambda>j r. if j = main_selection sel then (h r)\<lparr>main := True\<rparr> else h r)
        [0 ..< length (regions sel)] (regions sel) =
      (map h (regions sel))[main_selection sel := (h (regions sel ! main_selection sel))\<lparr>main := True\<rparr>]"
    by (rule nth_equalityI) (auto simp: nth_list_update)
  ultimately show ?thesis
    by (simp add: sel_map_selections_def)
qed

end

section \<open>The region maps of the commands\<close>

lemma before_fields:
  "before a b \<Longrightarrow> caret a < caret b \<and> tail a < tail b \<and> caret a < tail b \<and> tail a < caret b"
  by (auto simp: before_def max_r_def min_r_def)

lemma cursor_merge_total:
  "cursor a \<Longrightarrow> cursor b \<Longrightarrow> min_r a \<le> min_r b \<Longrightarrow> overlaps a b \<Longrightarrow> \<exists>m. merge a b = Inr m \<and> cursor m"
  by (rule merge_cursor) (auto simp: cursor_def overlaps_def min_r_def max_r_def)

interpretation jump: total_region_map "\<lambda>_. True" "\<lambda>r. Inr (jump_to r off)" cursor for off
  by unfold_locales (auto simp: jump_to_def cursor_def [of "region_new _ _"] intro: cursor_merge_total)

interpretation collapse: total_region_map "\<lambda>_. True" "\<lambda>r. Inr (collapse r)" cursor
  by unfold_locales
    (auto simp: collapse_def cursor_def [of "region_new _ _"] dest: before_fields intro: cursor_merge_total)

interpretation extend_to: region_map "\<lambda>_. True" "\<lambda>r. Inr (extend_to r off)" for off
  by unfold_locales (auto simp: extend_to_def min_def dest: before_fields)

interpretation swap: range_map swap_caret
  by unfold_locales (auto simp: swap_caret_def max_r_def min_r_def)

interpretation bwd: range_map to_backward
  by unfold_locales (auto simp: to_backward_def min_le_max_r)

interpretation fwd: range_map to_forward
  by unfold_locales (auto simp: to_forward_def min_le_max_r)

text \<open>
  Movements with a count whose product with the line width still fits \<open>isize\<close>: every
  realistic count. (For larger counts the casts wrap and the addition overflows.)
\<close>

definition small_count :: "nat \<Rightarrow> nat \<Rightarrow> bool" where
  "small_count bytes_per_line count \<longleftrightarrow>
     fits bytes_per_line \<and> fits count \<and> fits (bytes_per_line * count)"

fun moved_to :: "direction \<Rightarrow> nat \<Rightarrow> nat \<Rightarrow> nat \<Rightarrow> nat \<Rightarrow> nat" where
  "moved_to Up bpl n count c = c - bpl * count"
| "moved_to Down bpl n count c = min n (c + bpl * count)"
| "moved_to Left bpl n count c = c - count"
| "moved_to Right bpl n count c = min n (c + count)"

lemma as_usize_diff: "fits a \<Longrightarrow> fits b \<Longrightarrow> as_usize (max 0 (int a - int b)) = a - b"
  by (auto simp: fits_def max_def)

lemma ichecked_diff: "fits a \<Longrightarrow> fits b \<Longrightarrow> ichecked (int a - int b) = Inr (int a - int b)"
  by (simp add: fits_def ichecked_def isize_min_def isize_max_def)

lemma moved_caret_small:
  assumes "fits c" and "small_count bpl count"
  shows "moved_caret dir bpl n count c = Inr (moved_to dir bpl n count c)"
proof -
  have "isize_min \<le> int (bpl * count)"
    unfolding isize_min_def by (rule order_trans [of _ 0]) simp_all
  then have "saturating_imul (int bpl) (int count) = int (bpl * count)"
    using assms(2) by (simp add: small_count_def saturating_imul_def fits_def)
  moreover have "saturating_umul bpl count = bpl * count"
    using assms(2) fits_Suc_usize [of "bpl * count"] by (simp add: small_count_def saturating_umul_def)
  ultimately show ?thesis
    using assms by (cases dir) (auto simp: small_count_def ichecked_diff as_usize_diff fits_add_usize
        simp del: of_nat_mult)
qed

lemma moved_to_mono: "c \<le> c' \<Longrightarrow> moved_to dir bpl n count c \<le> moved_to dir bpl n count c'"
  by (cases dir) auto

lemma moved_to_le: "c \<le> n \<Longrightarrow> moved_to dir bpl n count c \<le> n"
  by (cases dir) auto

definition move_ok :: "nat \<Rightarrow> nat \<Rightarrow> nat \<Rightarrow> selregion \<Rightarrow> bool" where
  "move_ok bpl n count r \<longleftrightarrow> 0 < n \<and> fits n \<and> small_count bpl count \<and> caret r \<le> n"

lemma simple_move_eq:
  "move_ok bpl n count r \<Longrightarrow> simple_move r dir bpl n count =
    Inr (region_new (moved_to dir bpl n count (caret r)) (moved_to dir bpl n count (caret r)))"
  by (auto simp: move_ok_def simple_move_def moved_caret_small dest: fits_mono)

lemma simple_extend_eq:
  "move_ok bpl n count r \<Longrightarrow> simple_extend r dir bpl n count =
    Inr (region_new (moved_to dir bpl n count (caret r)) (tail r))"
  by (auto simp: move_ok_def simple_extend_def moved_caret_small dest: fits_mono)

interpretation move: total_region_map "move_ok bpl n count" "\<lambda>r. simple_move r dir bpl n count" cursor
  for bpl n count dir
proof (unfold_locales, goal_cases)
  case (1 a b a' b')
  then show ?case
    using moved_to_mono [of "caret a" "caret b"] by (auto simp: simple_move_eq dest: before_fields)
qed (auto simp: simple_move_eq cursor_def [of "region_new _ _"] intro: cursor_merge_total)

interpretation extend: region_map "move_ok bpl n count" "\<lambda>r. simple_extend r dir bpl n count"
  for bpl n count dir
proof (unfold_locales, goal_cases)
  case (1 a b a' b')
  then have "moved_to dir bpl n count (caret a) \<le> moved_to dir bpl n count (caret b)" "tail a \<le> tail b"
    using moved_to_mono before_fields [of a b] by auto
  with 1 show ?case by (auto simp: simple_extend_eq)
qed (auto simp: simple_extend_eq)

text \<open>Jumps to the line and file boundaries.\<close>

fun boundary_to :: "direction \<Rightarrow> nat \<Rightarrow> nat \<Rightarrow> nat \<Rightarrow> nat" where
  "boundary_to Up bpl n c = 0"
| "boundary_to Down bpl n c = n - 1"
| "boundary_to Left bpl n c = bpl * (c div bpl)"
| "boundary_to Right bpl n c = min (bpl * (c div bpl) + (bpl - 1)) (n - 1)"

definition boundary_ok :: "nat \<Rightarrow> nat \<Rightarrow> selregion \<Rightarrow> bool" where
  "boundary_ok bpl n r \<longleftrightarrow> 0 < n \<and> 0 < bpl \<and> fits n \<and> fits bpl \<and> caret r \<le> n"

lemma boundary_caret_eq:
  assumes "0 < n" "0 < bpl" "fits n" "fits bpl" "c \<le> n"
  shows "boundary_caret dir bpl n c = Inr (boundary_to dir bpl n c)"
proof -
  have le: "c mod bpl \<le> c" "c mod bpl < bpl" using assms by auto
  have c: "c = bpl * (c div bpl) + c mod bpl" by simp
  have "c + bpl \<le> usize_max" using assms fits_add_usize fits_mono by blast
  moreover have "c + bpl - c mod bpl = bpl * (c div bpl) + bpl" using c by linarith
  moreover have "c - c mod bpl = bpl * (c div bpl)" using c by linarith
  ultimately show ?thesis
    using assms le by (cases dir) (auto simp: Suc_leI)
qed

lemma boundary_to_mono: "c \<le> c' \<Longrightarrow> boundary_to dir bpl n c \<le> boundary_to dir bpl n c'"
proof (cases dir)
  case Right
  assume "c \<le> c'"
  then have "bpl * (c div bpl) \<le> bpl * (c' div bpl)" by (simp add: div_le_mono)
  with Right show ?thesis by (auto simp: min_le_iff_disj)
qed (auto simp: div_le_mono)

lemma jump_to_boundary_eq:
  "boundary_ok bpl n r \<Longrightarrow> jump_to_boundary r dir bpl n =
    Inr (region_new (boundary_to dir bpl n (caret r)) (boundary_to dir bpl n (caret r)))"
  by (simp add: jump_to_boundary_def boundary_ok_def boundary_caret_eq)

lemma extend_to_boundary_eq:
  "boundary_ok bpl n r \<Longrightarrow> extend_to_boundary r dir bpl n =
    Inr (region_new (boundary_to dir bpl n (caret r)) (tail r))"
  by (simp add: extend_to_boundary_def boundary_ok_def boundary_caret_eq)

interpretation jump_boundary: total_region_map "boundary_ok bpl n" "\<lambda>r. jump_to_boundary r dir bpl n" cursor
  for bpl n dir
proof (unfold_locales, goal_cases)
  case (1 a b a' b')
  then show ?case
    using boundary_to_mono [of "caret a" "caret b"] by (auto simp: jump_to_boundary_eq dest: before_fields)
qed (auto simp: jump_to_boundary_eq cursor_def [of "region_new _ _"] intro: cursor_merge_total)

interpretation extend_boundary: region_map "boundary_ok bpl n" "\<lambda>r. extend_to_boundary r dir bpl n"
  for bpl n dir
proof (unfold_locales, goal_cases)
  case (1 a b a' b')
  then have "boundary_to dir bpl n (caret a) \<le> boundary_to dir bpl n (caret b)" "tail a \<le> tail b"
    using boundary_to_mono before_fields [of a b] by auto
  with 1 show ?case by (auto simp: extend_to_boundary_eq)
qed (auto simp: extend_to_boundary_eq)

end
