(* ===== verification/Selection_Props.thy ===== *)
theory Selection_Props
  imports Selection
begin

text \<open>
  Correctness of the operations of \<open>Selection\<close>: the binary search against counting, the
  visible-range query against a filter, the main-region cycling, removing and retaining
  regions, splitting a region, and the transport of a selection through a delta.
\<close>

section \<open>Searching\<close>

text \<open>On strictly increasing keys the search finds the number of smaller keys.\<close>

lemma binary_search_count:
  assumes "sorted_wrt (<) ks" and "lo \<le> hi" and "hi \<le> length ks"
    and "\<forall>i < lo. ks ! i < x" and "\<forall>i. hi \<le> i \<longrightarrow> i < length ks \<longrightarrow> x < ks ! i"
  shows "(case binary_search ks x lo hi of Inr i \<Rightarrow> i | Inl i \<Rightarrow> i) = length (takeWhile (\<lambda>k. k < x) ks)"
  using assms
proof (induction ks x lo hi rule: binary_search.induct)
  case (1 ks x lo hi)
  have mono: "ks ! i < ks ! j" if "i < j" "j < length ks" for i j
    using sorted_wrt_nth_less [OF 1(3) that] .
  have count: "length (takeWhile (\<lambda>k. k < x) ks) = m"
    if "m \<le> length ks" "\<forall>i < m. ks ! i < x" "m < length ks \<Longrightarrow> x \<le> ks ! m" for m
    using that takeWhile_eq_take_P_nth [of m ks "\<lambda>k. k < x"] by (simp add: not_less)
  show ?case
  proof (cases "lo < hi")
    case False
    with 1 have "lo = hi" by simp
    with False 1 show ?thesis
      by (subst binary_search.simps) (auto intro!: count [symmetric] simp: less_imp_le)
  next
    case True
    define mid where "mid = lo + (hi - lo) div 2"
    have mid: "lo \<le> mid" "mid < hi" using True by (auto simp: mid_def)
    then have mid_len: "mid < length ks" using 1 by simp
    consider "ks ! mid = x" | "ks ! mid < x" | "x < ks ! mid" by linarith
    then show ?thesis
    proof cases
      case 1
      have "\<forall>i < mid. ks ! i < x" using mono mid_len 1 by auto
      then have "length (takeWhile (\<lambda>k. k < x) ks) = mid"
        using count [of mid] mid_len 1 by simp
      then show ?thesis
        using True 1 by (subst binary_search.simps) (simp add: mid_def [symmetric] Let_def)
    next
      case 2
      have "\<forall>i < Suc mid. ks ! i < x"
        using mono mid_len 2 less_trans by (metis less_Suc_eq)
      then show ?thesis
        using True 2 mid 1 mid_len
        by (subst binary_search.simps) (auto simp: mid_def [symmetric] Let_def)
    next
      case 3
      have "\<forall>i. mid \<le> i \<longrightarrow> i < length ks \<longrightarrow> x < ks ! i"
        using mono 3 by (metis le_neq_implies_less less_trans)
      then show ?thesis
        using True 3 mid 1 mid_len
        by (subst binary_search.simps) (auto simp: mid_def [symmetric] Let_def)
    qed
  qed
qed

lemma before_max: "before a b \<Longrightarrow> max_r a < max_r b"
  unfolding before_def using min_le_max_r [of b] by linarith

lemma sorted_max_r: "sorted_wrt before rs \<Longrightarrow> sorted_wrt (<) (map max_r rs)"
  unfolding sorted_wrt_map
  by (rule sorted_wrt_mono_rel [of _ before]) (auto dest: before_max)

text \<open>The number of regions that end before an offset.\<close>

definition ended :: "selregion list \<Rightarrow> nat \<Rightarrow> nat" where
  "ended rs off = length (takeWhile (\<lambda>r. max_r r < off) rs)"

lemma sel_search_ended:
  assumes "sel_wf sel"
  shows "sel_search sel off = Inr (ended (regions sel) off)"
proof -
  let ?rs = "regions sel"
  have ne: "?rs \<noteq> []" and so: "sorted_wrt before ?rs" using assms by (auto simp: sel_wf_def)
  have tw: "length (takeWhile (\<lambda>k. k < off) (map max_r ?rs)) = ended ?rs off"
    by (simp add: ended_def takeWhile_map comp_def)
  show ?thesis
  proof (cases "max_r (last ?rs) < off")
    case True
    have "\<forall>r \<in> set ?rs. max_r r < off"
    proof
      fix r assume "r \<in> set ?rs"
      then have "r = last ?rs \<or> r \<in> set (butlast ?rs)"
        using ne by (metis append_butlast_last_id in_set_conv_decomp_first rotate1.simps(2) set_ConsD set_rotate1)
      moreover have "sorted_wrt before (butlast ?rs @ [last ?rs])" using so ne by simp
      ultimately have "r = last ?rs \<or> before r (last ?rs)" by (auto simp: sorted_wrt_append)
      with True show "max_r r < off" by (auto dest: before_max)
    qed
    then have "ended ?rs off = length ?rs"
      by (simp add: ended_def takeWhile_eq_all_conv [THEN iffD2])
    with True ne show ?thesis by (simp add: sel_search_def)
  next
    case False
    then show ?thesis
      using ne tw binary_search_count [OF sorted_max_r [OF so], of 0 "length ?rs" off]
      by (simp add: sel_search_def)
  qed
qed

lemma ended_le: "ended rs off \<le> length rs"
  by (simp add: ended_def length_takeWhile_le)

lemma ended_mono: "a \<le> b \<Longrightarrow> ended rs a \<le> ended rs b"
  unfolding ended_def by (induction rs) auto

text \<open>The regions shown on the screen are exactly those that touch the visible range.\<close>

lemma nth_ended: "ended rs off < length rs \<Longrightarrow> off \<le> max_r (rs ! ended rs off)"
  unfolding ended_def using nth_length_takeWhile [of "\<lambda>r. max_r r < off" rs] by simp

lemma nth_before_ended: "i < ended rs off \<Longrightarrow> max_r (rs ! i) < off"
  unfolding ended_def by (metis nth_mem set_takeWhileD takeWhile_nth)

lemma filter_segment:
  assumes "a \<le> b" "b \<le> length xs" and "\<And>i. i < length xs \<Longrightarrow> P (xs ! i) = (a \<le> i \<and> i < b)"
  shows "filter P xs = take (b - a) (drop a xs)"
proof -
  have split: "xs = take a xs @ take (b - a) (drop a xs) @ drop b xs"
    using assms(1) by (metis append_take_drop_id drop_drop le_add_diff_inverse2)
  have "filter P (take a xs) = []"
    using assms by (auto simp: filter_empty_conv in_set_conv_nth)
  moreover have "filter P (take (b - a) (drop a xs)) = take (b - a) (drop a xs)"
    using assms by (auto simp: filter_id_conv in_set_conv_nth)
  moreover have "filter P (drop b xs) = []"
    using assms by (auto simp: filter_empty_conv in_set_conv_nth)
  ultimately show ?thesis
    by (subst split) (simp only: filter_append append_Nil append_Nil2)
qed

lemma regions_in_range_filter:
  assumes "sel_wf sel" and "start \<le> end"
  shows "regions_in_range sel start end =
    Inr (filter (\<lambda>r. start \<le> max_r r \<and> min_r r \<le> end) (regions sel))"
proof -
  let ?rs = "regions sel"
  define a where "a = ended ?rs start"
  define l where "l = ended ?rs end"
  define b where "b = (if l < length ?rs \<and> min_r (?rs ! l) \<le> end then l + 1 else l)"
  have ab: "a \<le> l" "l \<le> b" "b \<le> length ?rs"
    using ended_mono [OF assms(2)] ended_le [of ?rs] by (auto simp: a_def l_def b_def Suc_leI)
  have so: "max_r (?rs ! i) < min_r (?rs ! j)" if "i < j" "j < length ?rs" for i j
    using sorted_wrt_nth_less [of before ?rs] assms(1) that by (auto simp: sel_wf_def before_def)
  have ge: "start \<le> max_r (?rs ! i)" if "a \<le> i" "i < length ?rs" for i
    using nth_ended [of ?rs start] so [of a i] min_le_max_r [of "?rs ! i"] that
    by (cases "i = a") (auto simp: a_def)
  have le: "min_r (?rs ! i) \<le> end" if "i < b" for i
  proof (cases "i < l")
    case True
    then show ?thesis using nth_before_ended [of i ?rs "end"] min_le_max_r [of "?rs ! i"] by (simp add: l_def)
  qed (use that in \<open>auto simp: b_def less_Suc_eq split: if_splits\<close>)
  have gt: "end < min_r (?rs ! i)" if "b \<le> i" "i < length ?rs" for i
  proof (cases "i = l")
    case True
    with that show ?thesis by (auto simp: b_def split: if_splits)
  next
    case False
    with that ab have "l < i" by simp
    with so [of l i] nth_ended [of ?rs "end"] that show ?thesis by (simp add: l_def)
  qed
  have "filter (\<lambda>r. start \<le> max_r r \<and> min_r r \<le> end) ?rs = take (b - a) (drop a ?rs)"
  proof (rule filter_segment)
    fix i assume i: "i < length ?rs"
    show "(start \<le> max_r (?rs ! i) \<and> min_r (?rs ! i) \<le> end) = (a \<le> i \<and> i < b)"
      using ge [of i] le [of i] gt [of i] i nth_before_ended [of i ?rs start]
      by (fastforce simp: a_def not_le not_less)
  qed (use ab in auto)
  then show ?thesis
    using ab by (simp add: regions_in_range_def sel_search_ended [OF assms(1)] Let_def
        a_def [symmetric] l_def [symmetric] b_def [symmetric])
qed

section \<open>The main region\<close>

text \<open>The regions with the flag on region \<open>m\<close> only.\<close>

definition reflag :: "selregion list \<Rightarrow> nat \<Rightarrow> selregion list" where
  "reflag rs m = map2 (\<lambda>i r. r\<lparr>main := (i = m)\<rparr>) [0 ..< length rs] rs"

lemma length_reflag [simp]: "length (reflag rs m) = length rs"
  by (simp add: reflag_def)

lemma nth_reflag [simp]: "i < length rs \<Longrightarrow> reflag rs m ! i = (rs ! i)\<lparr>main := (i = m)\<rparr>"
  by (simp add: reflag_def)

lemma reflag_reflag [simp]: "reflag (reflag rs m) k = reflag rs k"
  by (rule nth_equalityI) auto

lemma reflag_Nil_iff [simp]: "reflag rs m = [] \<longleftrightarrow> rs = []"
  by (metis length_0_conv length_reflag)

lemma flags_ok_reflag: "flags_ok sel \<longleftrightarrow> regions sel = reflag (regions sel) (main_selection sel)"
proof
  assume "flags_ok sel"
  then show "regions sel = reflag (regions sel) (main_selection sel)"
    by (auto simp: flags_ok_def intro!: nth_equalityI)
next
  assume eq: "regions sel = reflag (regions sel) (main_selection sel)"
  show "flags_ok sel"
    unfolding flags_ok_def
  proof (intro allI impI)
    fix i assume "i < length (regions sel)"
    then show "main (regions sel ! i) = (i = main_selection sel)"
      by (subst eq) simp
  qed
qed

lemma sorted_reflag [simp]: "sorted_wrt before (reflag rs m) = sorted_wrt before rs"
  by (simp add: sorted_wrt_iff_nth_less)

lemma move_flag:
  assumes "regions sel = reflag (regions sel) (main_selection sel)"
    and "main_selection sel < length (regions sel)" and "m < length (regions sel)"
  shows "rbind (set_main (regions sel) (main_selection sel) False) (\<lambda>rs. set_main rs m True) =
    Inr (reflag (regions sel) m)"
proof -
  let ?rs = "regions sel" and ?k = "main_selection sel"
  have fl: "(?rs ! i)\<lparr>main := False\<rparr> = ?rs ! i" if "i < length ?rs" "i \<noteq> ?k" for i
    using assms(1) nth_reflag [OF that(1), of ?k] that(2) by simp
  have "(?rs[?k := (?rs ! ?k)\<lparr>main := False\<rparr>])[m := (?rs[?k := (?rs ! ?k)\<lparr>main := False\<rparr>] ! m)\<lparr>main := True\<rparr>]
      = reflag ?rs m"
    using assms(2,3) by (intro nth_equalityI) (auto simp: nth_list_update fl)
  then show ?thesis using assms(2,3) by (simp add: set_main_Inr)
qed

definition with_main :: "selection \<Rightarrow> nat \<Rightarrow> selection" where
  "with_main sel m = \<lparr>regions = reflag (regions sel) m, main_selection = m\<rparr>"

lemma with_main_wf: "sel_wf sel \<Longrightarrow> m < length (regions sel) \<Longrightarrow> sel_wf (with_main sel m) \<and> flags_ok (with_main sel m)"
  by (simp add: sel_wf_def with_main_def flags_ok_reflag)

lemma with_main_with_main [simp]: "with_main (with_main sel m) k = with_main sel k"
  by (simp add: with_main_def)

lemma with_main_self: "flags_ok sel \<Longrightarrow> with_main sel (main_selection sel) = sel"
  using flags_ok_reflag [of sel] by (cases sel) (simp add: with_main_def)

lemma select_next_eq:
  assumes "sel_wf sel" "flags_ok sel" "main_selection sel + count \<le> usize_max"
  shows "sel_select_next sel count = Inr (with_main sel ((main_selection sel + count) mod length (regions sel)))"
proof -
  let ?m = "(main_selection sel + count) mod length (regions sel)"
  have m: "?m < length (regions sel)" using assms(1) by (auto simp: sel_wf_def)
  show ?thesis
    using move_flag [of sel ?m] flags_ok_reflag [of sel] assms m
    by (auto simp: sel_select_next_def with_main_def sel_wf_def set_main_Inr)
qed

lemma select_prev_eq:
  assumes "sel_wf sel" "flags_ok sel" "main_selection sel + length (regions sel) \<le> usize_max"
  shows "sel_select_prev sel count =
    Inr (with_main sel ((main_selection sel + length (regions sel) - count mod length (regions sel))
      mod length (regions sel)))"
proof -
  let ?n = "length (regions sel)"
  let ?m = "(main_selection sel + ?n - count mod ?n) mod ?n"
  have n: "0 < ?n" using assms(1) by (auto simp: sel_wf_def)
  then have m: "?m < ?n" by simp
  have c: "count mod ?n \<le> main_selection sel + ?n"
    using mod_less_divisor [OF n, of count] by linarith
  show ?thesis
    using move_flag [of sel ?m] flags_ok_reflag [of sel] assms m c n
    by (auto simp: sel_select_prev_def with_main_def sel_wf_def set_main_Inr)
qed

lemma cycle_back:
  fixes k n c :: nat
  assumes "k < n"
  shows "((k + c) mod n + n - c mod n) mod n = k"
proof -
  define d where "d = c mod n"
  have d: "d < n" using assms by (simp add: d_def)
  have kc: "(k + c) mod n = (k + d) mod n" by (simp add: d_def mod_add_right_eq)
  show ?thesis
  proof (cases "k + d < n")
    case True
    with kc assms show ?thesis by (simp flip: d_def)
  next
    case False
    with assms d have "(k + d) mod n = k + d - n" by (simp add: mod_if)
    with kc False assms d show ?thesis by (simp flip: d_def)
  qed
qed

section \<open>Removing and retaining regions\<close>

lemma sorted_wrt_remove:
  assumes "sorted_wrt P xs"
  shows "sorted_wrt P (take i xs @ drop (Suc i) xs)"
proof -
  have "sorted_wrt P (take i xs @ drop i xs)" using assms by simp
  then have "sorted_wrt P (take i xs)" "\<forall>x \<in> set (take i xs). \<forall>y \<in> set (drop i xs). P x y"
    unfolding sorted_wrt_append by auto
  moreover have "set (drop (Suc i) xs) \<subseteq> set (drop i xs)" by (simp add: set_drop_subset_set_drop)
  ultimately show ?thesis
    using sorted_wrt_drop [OF assms, of "Suc i"] by (auto simp: sorted_wrt_append)
qed

lemma sel_remove_eq:
  assumes "sel_wf sel" and "1 < length (regions sel)" and "i < length (regions sel)"
  defines "rs \<equiv> take i (regions sel) @ drop (Suc i) (regions sel)"
    and "m \<equiv> min (length (regions sel) - 2) (main_selection sel)"
  shows "sel_remove sel i = Inr \<lparr>regions = rs[m := (rs ! m)\<lparr>main := True\<rparr>], main_selection = m\<rparr>"
proof -
  have len: "length rs = length (regions sel) - 1" using assms(3) by (simp add: rs_def)
  then have "m < length rs" using assms(2) by (simp add: m_def)
  moreover have "min (length rs - 1) (main_selection sel) = m" using len by (simp add: m_def numeral_2_eq_2)
  ultimately show ?thesis
    using assms(2,3) len
    by (auto simp: sel_remove_def vec_remove_def Let_def set_main_Inr rs_def [symmetric])
qed

lemma sel_remove_wf:
  assumes "sel_wf sel" and "i < length (regions sel)"
  shows "\<exists>sel'. sel_remove sel i = Inr sel' \<and> sel_wf sel'"
proof (cases "length (regions sel) = 1")
  case True
  with assms(1) show ?thesis by (simp add: sel_remove_def)
next
  case False
  with assms have l: "1 < length (regions sel)" by simp
  show ?thesis
    unfolding sel_remove_eq [OF assms(1) l assms(2)]
    using assms l by (auto simp: sel_wf_def sorted_wrt_set_main intro: sorted_wrt_remove)
qed

text \<open>
  Which regions are flagged as main after a removal: the one the index names, and the old main region
  too when it moved down by one, because its flag is not cleared and the index does not follow it.
\<close>

lemma ends_flagged: "map (\<lambda>r. (caret r, tail r)) (rs[k := (rs ! k)\<lparr>main := x\<rparr>]) = map (\<lambda>r. (caret r, tail r)) rs"
  by (cases "k < length rs") (auto intro!: nth_equalityI simp: nth_list_update)

definition flagged :: "selection \<Rightarrow> nat set" where
  "flagged sel = {j. j < length (regions sel) \<and> main (regions sel ! j)}"

lemma sel_remove_flagged:
  assumes "sel_wf sel" "flags_ok sel" "1 < length (regions sel)" "i < length (regions sel)"
    and m: "m = min (length (regions sel) - 2) (main_selection sel)" and "sel_remove sel i = Inr sel'"
  shows "flagged sel' = insert m (if i < main_selection sel then {main_selection sel - 1} else {})"
proof -
  let ?rs = "regions sel" and ?k = "main_selection sel"
  define rs where "rs = take i ?rs @ drop (Suc i) ?rs"
  have sel': "regions sel' = rs[m := (rs ! m)\<lparr>main := True\<rparr>]"
    using sel_remove_eq [OF assms(1,3,4)] assms(6) by (simp add: rs_def m)
  have len: "length rs = length ?rs - 1" using assms(4) by (simp add: rs_def)
  have k: "?k < length ?rs" using assms(1) by (simp add: sel_wf_def)
  have nth: "main (rs ! j) = ((if j < i then j else Suc j) = ?k)" if "j < length rs" for j
  proof -
    have "rs ! j = ?rs ! (if j < i then j else Suc j)"
      using that assms(4) by (auto simp: rs_def nth_append min_def)
    with that assms(2,4) len show ?thesis by (auto simp: flags_ok_def)
  qed
  have "flagged sel' = insert m {j. j < length rs \<and> (if j < i then j else Suc j) = ?k}"
    using nth assms(3) len by (auto simp: flagged_def sel' nth_list_update m split: if_splits)
  also have "\<dots> = insert m (if i < ?k then {?k - 1} else {})"
    using k len assms(3,4) by (cases ?k) (auto simp: m split: if_splits)
  finally show ?thesis .
qed

lemma retain_wf:
  assumes "i < length (regions sel)"
  shows "\<exists>sel'. retain sel i = Inr sel' \<and> sel_wf sel' \<and> flags_ok sel' \<and>
    map min_r (regions sel') = [min_r (regions sel ! i)] \<and> map max_r (regions sel') = [max_r (regions sel ! i)]"
  using assms by (simp add: retain_def sel_wf_def flags_ok_def)

lemma select_all_eq: "select_all sel n =
    Inr \<lparr>regions = [\<lparr>caret = n - 1, tail = 0, main = True\<rparr>], main_selection = 0\<rparr>"
  by (auto simp: select_all_def Let_def sel_clear_def region_new_def vec_set_def Suc_leI)

section \<open>Splitting a region\<close>

definition span :: "selregion \<Rightarrow> nat set" where
  "span r = {min_r r .. max_r r}"

definition span_opt :: "selregion option \<Rightarrow> nat set" where
  "span_opt p = (case p of None \<Rightarrow> {} | Some r \<Rightarrow> span r)"

lemma inherit_direction_range [simp]:
  "min_r (inherit_direction r p) = min_r r" "max_r (inherit_direction r p) = max_r r"
  by (simp_all add: inherit_direction_def to_forward_def to_backward_def min_le_max_r)

lemma split_at_region_span:
  assumes "s \<le> e" and "min_r r \<le> e" and "s \<le> max_r r" and "max_r r \<le> usize_max"
  shows "\<exists>l q. split_at_region r s e = Inr (l, q) \<and> span_opt l \<union> span_opt q = span r - {s .. e} \<and>
    (\<forall>a b. l = Some a \<longrightarrow> q = Some b \<longrightarrow> before a b)"
proof -
  have "e + 1 \<le> usize_max" if "e < max_r r" using that assms(4) by simp
  then show ?thesis
    using assms
    by (auto simp: split_at_region_def span_opt_def span_def before_def)
qed

section \<open>Transport through a delta\<close>

definition offset_mono :: "('c, 'b, 'd, 's) xi \<Rightarrow> 'd \<Rightarrow> nat \<Rightarrow> bool" where
  "offset_mono X d n \<longleftrightarrow> (\<forall>i j. i \<le> j \<longrightarrow> j \<le> n \<longrightarrow> delta_offset X d n i \<le> delta_offset X d n j)"

lemma offset_monoD: "offset_mono X d n \<Longrightarrow> i \<le> j \<Longrightarrow> j \<le> n \<Longrightarrow> delta_offset X d n i \<le> delta_offset X d n j"
  by (simp add: offset_mono_def)

lemma delta_region_min:
  assumes "offset_mono X d n" and "max_r r \<le> n"
  shows "min (delta_offset X d n (caret r)) (delta_offset X d n (tail r)) = delta_offset X d n (min_r r)"
  using offset_monoD [OF assms(1), of "caret r" "tail r"] offset_monoD [OF assms(1), of "tail r" "caret r"] assms(2)
  by (cases "caret r \<le> tail r") (auto simp: min_r_def max_r_def)

lemma delta_region_order:
  assumes "offset_mono X d n" "max_r a \<le> n" "max_r b \<le> n" "before a b"
    and "delta_region X d n a = Inr a'" "delta_region X d n b = Inr b'"
  shows "min_r a' \<le> min_r b'"
  using assms delta_region_min [OF assms(1,2)] delta_region_min [OF assms(1,3)]
    offset_monoD [OF assms(1), of "min_r a" "min_r b"] min_le_max_r [of a] min_le_max_r [of b]
  by (auto simp: delta_region_def before_def)

interpretation delta_map: region_map "\<lambda>r. offset_mono X d n \<and> max_r r \<le> n" "delta_region X d n"
  for X :: "('c, 'b, 'd, 's) xi" and d n
proof (unfold_locales, goal_cases)
  case (1 a b a' b')
  then show ?case using delta_region_order [of X d n a b] by blast
qed (auto simp: delta_region_def)

interpretation delta_fwd: total_region_map "\<lambda>r. offset_mono X d n \<and> max_r r \<le> n \<and> forward r"
    "delta_region X d n" forward
  for X :: "('c, 'b, 'd, 's) xi" and d n
proof (unfold_locales, goal_cases)
  case (1 a b a' b')
  then show ?case using delta_region_order [of X d n a b] by blast
qed (auto simp: delta_region_def forward_def [of "region_new _ _"] max_r_def intro!: offset_monoD merge_forward,
     auto simp: forward_def)

interpretation delta_bwd: total_region_map "\<lambda>r. offset_mono X d n \<and> max_r r \<le> n \<and> backward r"
    "delta_region X d n" backward
  for X :: "('c, 'b, 'd, 's) xi" and d n
proof (unfold_locales, goal_cases)
  case (1 a b a' b')
  then show ?case using delta_region_order [of X d n a b] by blast
qed (auto simp: delta_region_def backward_def [of "region_new _ _"] max_r_def intro!: offset_monoD merge_backward,
     auto simp: backward_def)

text \<open>All regions point the same way: what the edit commands need so that merging cannot panic.\<close>

definition uniform :: "selection \<Rightarrow> bool" where
  "uniform sel \<longleftrightarrow> (\<forall>r \<in> set (regions sel). forward r) \<or> (\<forall>r \<in> set (regions sel). backward r)"

lemma selection_new_ok: "sel_wf selection_new" "flags_ok selection_new" "in_bounds n selection_new"
    "uniform selection_new"
  by (auto simp: selection_new_def sel_wf_def flags_ok_def in_bounds_def uniform_def region_new_def
      max_r_def forward_def)

lemma sel_clear_new: "sel_clear sel = selection_new"
  by (simp add: sel_clear_def selection_new_def)

lemma delta_region_le: "delta_region X d n r = Inr r' \<Longrightarrow> max_r r' \<le> new_document_len X d"
  by (auto simp: delta_region_def delta_offset_def)

lemma sel_apply_delta_total:
  assumes "offset_mono X d n" "sel_wf sel" "in_bounds n sel" "uniform sel"
  shows "\<exists>sel'. sel_apply_delta X sel d n = Inr sel' \<and> sel_wf sel' \<and> flags_ok sel' \<and>
    in_bounds (new_document_len X d) sel' \<and> uniform sel'"
proof (cases "new_document_len X d = 0")
  case True
  then show ?thesis by (simp add: sel_apply_delta_def sel_clear_new selection_new_ok)
next
  case False
  have bd: "in_bounds (new_document_len X d) sel'"
    if "sel_map_selections (single (delta_region X d n) stateless) () sel = Inr ((), sel')" for sel'
    by (rule delta_map.map_selections_bounds [OF that]) (rule delta_region_le)
  obtain sel' where "sel_map_selections (single (delta_region X d n) stateless) () sel = Inr ((), sel')"
      "sel_wf sel'" "flags_ok sel'" "uniform sel'"
    using assms(4) delta_fwd.map_selections_total [of sel X d n stateless "()"]
      delta_bwd.map_selections_total [of sel X d n stateless "()"] assms(1-3)
    unfolding uniform_def in_bounds_def by (auto 4 4)
  with bd False show ?thesis by (auto simp: sel_apply_delta_def)
qed

context xi_delta
begin

lemma build_offset_mono:
  assumes "bden b = (n, es)" and "edits_ok n 0 es"
  shows "offset_mono X (builder_build X b) n"
  unfolding offset_mono_def delta_offset_def
  using build_transform [OF assms] coord_mono by (auto intro: min.coboundedI2 min.mono)

lemma sel_apply_build:
  assumes "bden b = (n, es)" "edits_ok n 0 es" "sel_wf sel" "in_bounds n sel" "uniform sel"
  shows "\<exists>sel'. sel_apply_delta X sel (builder_build X b) n = Inr sel' \<and> sel_wf sel' \<and> flags_ok sel' \<and>
    in_bounds (new_document_len X (builder_build X b)) sel' \<and> uniform sel'"
  using sel_apply_delta_total [OF build_offset_mono [OF assms(1,2)] assms(3-5)] .

end

section \<open>Correctness of selections\<close>

text \<open>
  C21: the regions drawn for a screen are found by two binary searches; they are exactly the regions
  that touch the visible range, in order.
\<close>

theorem visible_regions:
  assumes "sel_wf sel" and "start \<le> end"
  shows "regions_in_range sel start end =
    Inr (filter (\<lambda>r. start \<le> max_r r \<and> min_r r \<le> end) (regions sel))"
  by (rule regions_in_range_filter [OF assms])

text \<open>
  C29: cycling forward and then back by the same count restores the selection exactly (main index and
  flags), for every count that does not overflow.
\<close>

theorem cycle_roundtrip:
  assumes "sel_wf sel" "flags_ok sel" "main_selection sel + count \<le> usize_max" "2 * length (regions sel) \<le> usize_max"
  shows "rbind (sel_select_next sel count) (\<lambda>s. sel_select_prev s count) = Inr sel"
proof -
  let ?n = "length (regions sel)" let ?m = "(main_selection sel + count) mod ?n"
  have k: "main_selection sel < ?n" using assms(1) by (simp add: sel_wf_def)
  then have m: "?m < ?n" by (intro mod_less_divisor) linarith
  have w: "sel_wf (with_main sel ?m)" "flags_ok (with_main sel ?m)"
    using assms(1) m by (auto simp: sel_wf_def with_main_def flags_ok_def)
  have "sel_select_prev (with_main sel ?m) count =
      Inr (with_main (with_main sel ?m) ((?m + ?n - count mod ?n) mod ?n))"
    using select_prev_eq [OF w, of count] m assms(4) by (simp add: with_main_def)
  moreover have "(?m + ?n - count mod ?n) mod ?n = main_selection sel" by (rule cycle_back [OF k])
  moreover have "with_main (with_main sel ?m) (main_selection sel) = sel"
    using with_main_self [OF assms(2)] by (simp add: with_main_def)
  ultimately show ?thesis using select_next_eq [OF assms(1-3)] by simp
qed

text \<open>
  C30: removing one of several regions keeps the other regions in order and the index of the main region,
  brought back into range. Two regions are then flagged as main exactly when the removed region lies in front of the
  main region and the main region is not the last: the index names the region behind the old main region, which
  keeps its flag. In every other case just the region that the index names is flagged.
\<close>

theorem remove_flags:
  assumes "sel_wf sel" "flags_ok sel" "1 < length (regions sel)" "i < length (regions sel)"
  shows "\<exists>sel'. sel_remove sel i = Inr sel' \<and> sel_wf sel' \<and>
    map (\<lambda>r. (caret r, tail r)) (regions sel') = map (\<lambda>r. (caret r, tail r)) (take i (regions sel) @ drop (Suc i) (regions sel)) \<and>
    main_selection sel' = min (length (regions sel) - 2) (main_selection sel) \<and>
    (if i < main_selection sel \<and> main_selection sel < length (regions sel) - 1
     then main_selection sel' = main_selection sel \<and> flagged sel' = {main_selection sel - 1, main_selection sel} \<and> card (flagged sel') = 2
     else flagged sel' = {main_selection sel'})"
proof -
  let ?rs = "take i (regions sel) @ drop (Suc i) (regions sel)" and ?m = "min (length (regions sel) - 2) (main_selection sel)"
  obtain sel' where s: "sel_remove sel i = Inr sel'" "sel_wf sel'" using sel_remove_wf [OF assms(1,4)] by blast
  have e: "sel' = \<lparr>regions = ?rs[?m := (?rs ! ?m)\<lparr>main := True\<rparr>], main_selection = ?m\<rparr>"
    using sel_remove_eq [OF assms(1,3,4)] s(1) by simp
  have "map (\<lambda>r. (caret r, tail r)) (regions sel') = map (\<lambda>r. (caret r, tail r)) ?rs"
    unfolding e by (simp only: selection.simps ends_flagged)
  moreover have m: "main_selection sel' = ?m" by (simp add: e)
  moreover have "if i < main_selection sel \<and> main_selection sel < length (regions sel) - 1
     then main_selection sel' = main_selection sel \<and> flagged sel' = {main_selection sel - 1, main_selection sel} \<and> card (flagged sel') = 2
     else flagged sel' = {main_selection sel'}"
  proof -
    have k: "main_selection sel < length (regions sel)" using assms(1) by (simp add: sel_wf_def)
    note fl = sel_remove_flagged [OF assms refl s(1)]
    consider "i < main_selection sel" "main_selection sel < length (regions sel) - 1"
      | "i < main_selection sel" "main_selection sel = length (regions sel) - 1" | "\<not> i < main_selection sel"
      using k by linarith
    then show ?thesis
    proof cases
      case 1
      then have "?m = main_selection sel" "main_selection sel - 1 \<noteq> main_selection sel" by linarith+
      with 1 fl m show ?thesis by (simp add: insert_commute)
    next
      case 2
      then have "?m = main_selection sel - 1" by linarith
      with 2 fl m show ?thesis by simp
    qed (use fl m in simp)
  qed
  ultimately show ?thesis using s by blast
qed

text \<open>
  C28: splitting a region at a match cuts exactly the match out: the pieces cover the offsets of the
  region outside the match, and the left piece ends before the right one starts.
\<close>

theorem split_at_region_correct:
  assumes "s \<le> e" "min_r r \<le> e" "s \<le> max_r r" "max_r r \<le> usize_max"
  shows "\<exists>l q. split_at_region r s e = Inr (l, q) \<and> span_opt l \<union> span_opt q = span r - {s .. e} \<and>
    (\<forall>a b. l = Some a \<longrightarrow> q = Some b \<longrightarrow> before a b)"
  by (rule split_at_region_span [OF assms])

text \<open>
  C22: moving never panics and keeps the selection well formed and inside the document: for every
  direction, line width and count whose product fits a signed machine word, the regions become
  cursors, meeting cursors merge, and the main region stays marked.
\<close>

theorem move_keeps_selection:
  assumes "sel_wf sel" "in_bounds n sel" "0 < n" "fits n" "small_count bpl count"
  shows "\<exists>sel'. sel_map_selections (single (\<lambda>r. simple_move r dir bpl n count) stateless) () sel = Inr ((), sel') \<and>
    sel_wf sel' \<and> flags_ok sel' \<and> in_bounds n sel' \<and> (\<forall>r \<in> set (regions sel'). cursor r)"
proof -
  have ok: "\<forall>r \<in> set (regions sel). move_ok bpl n count r"
    using assms(2-5) by (auto simp: move_ok_def in_bounds_def max_r_def)
  obtain sel' where s: "sel_map_selections (single (\<lambda>r. simple_move r dir bpl n count) stateless) () sel = Inr ((), sel')"
    "sel_wf sel'" "flags_ok sel'" "\<forall>r \<in> set (regions sel'). cursor r"
    using move.map_selections_total [OF assms(1) ok, of dir stateless "()"] by fastforce
  have "in_bounds n sel'"
  proof (rule move.map_selections_bounds [OF s(1)])
    fix r r' assume "r \<in> set (regions sel)" "simple_move r dir bpl n count = Inr r'"
    with ok moved_to_le [of "caret r" n] show "max_r r' \<le> n" by (auto simp: simple_move_eq move_ok_def)
  qed
  with s show ?thesis by blast
qed

text \<open>
  C31: extending to an offset between two selections panics: when one region ends before the offset
  and the next begins after it, both reach the offset, overlap and point in opposite directions,
  and merging them is an explicit panic. \<open>5G\<close> with selections on both sides of offset 5 does this.
\<close>

theorem extend_to_panics:
  assumes "max_r a < off" "off < min_r b"
  shows "sel_map_selections (single (\<lambda>r. Inr (extend_to r off)) stateless) () \<lparr>regions = [a, b], main_selection = 0\<rparr>
    = Inl ExplicitPanic"
  using assms
  by (simp add: sel_map_selections_def single_def push_region_def extend_to_def overlaps_def set_main_Inr
      merge_def forward_def backward_def max_r_def min_r_def Let_def)

subsection \<open>The properties on concrete selections\<close>

definition demo_three :: selection where
  "demo_three = \<lparr>regions = [\<lparr>caret = 0, tail = 1, main = False\<rparr>, \<lparr>caret = 5, tail = 3, main = True\<rparr>,
     \<lparr>caret = 8, tail = 8, main = False\<rparr>], main_selection = 1\<rparr>"

lemma demo_three_ok: "sel_wf demo_three" "flags_ok demo_three" "in_bounds 9 demo_three"
  by (simp_all add: demo_three_def sel_wf_def flags_ok_def in_bounds_def before_def min_r_def max_r_def All_less_Suc)

theorem visible_regions_witness:
  "regions_in_range demo_three 2 4 = Inr [\<lparr>caret = 5, tail = 3, main = True\<rparr>]"
  using visible_regions [OF demo_three_ok(1), of 2 4] by (simp add: demo_three_def min_r_def max_r_def)

theorem cycle_roundtrip_witness:
  "rbind (sel_select_next demo_three 7) (\<lambda>s. sel_select_prev s 7) = Inr demo_three"
  using cycle_roundtrip [OF demo_three_ok(1,2), of 7] by (simp add: demo_three_def usize_max_def)

theorem remove_flags_witness:
  "\<exists>sel'. sel_remove demo_three 0 = Inr sel' \<and> main_selection sel' = 1 \<and> flagged sel' = {0, 1}"
  using remove_flags [OF demo_three_ok(1,2), of 0] by (simp add: demo_three_def) blast

theorem split_at_region_correct_witness:
  "\<exists>l q. split_at_region \<lparr>caret = 9, tail = 2, main = False\<rparr> 4 5 = Inr (l, q) \<and>
    span_opt l \<union> span_opt q = span \<lparr>caret = 9, tail = 2, main = False\<rparr> - {4 .. 5} \<and>
    (\<forall>a b. l = Some a \<longrightarrow> q = Some b \<longrightarrow> before a b)"
  using split_at_region_correct [of 4 5 "\<lparr>caret = 9, tail = 2, main = False\<rparr>"]
  by (simp add: min_r_def max_r_def usize_max_def)

theorem move_keeps_selection_witness:
  "\<exists>sel'. sel_map_selections (single (\<lambda>r. simple_move r Down 16 9 2) stateless) () demo_three = Inr ((), sel') \<and>
    sel_wf sel' \<and> flags_ok sel' \<and> in_bounds 9 sel' \<and> (\<forall>r \<in> set (regions sel'). cursor r)"
  using move_keeps_selection [OF demo_three_ok(1,3), of 16 2 Down] by (simp add: fits_def isize_max_def small_count_def)

theorem extend_to_panics_witness:
  "sel_map_selections (single (\<lambda>r. Inr (extend_to r 5)) stateless) ()
     \<lparr>regions = [\<lparr>caret = 1, tail = 1, main = True\<rparr>, \<lparr>caret = 8, tail = 8, main = False\<rparr>], main_selection = 0\<rparr>
   = Inl ExplicitPanic"
  using extend_to_panics [of "\<lparr>caret = 1, tail = 1, main = True\<rparr>" 5 "\<lparr>caret = 8, tail = 8, main = False\<rparr>"]
  by (simp add: min_r_def max_r_def)

end
