(* ===== verification/Operations.thy ===== *)
theory Operations
  imports Selection_Props
begin

text \<open>
  \<open>src/operations.rs\<close>: the edit operations. Each walks the regions of the selection and feeds
  a \<open>DeltaBuilder\<close>; it returns the built delta or panics where the builder does. The lemmas
  below say which edit script each delta stands for and what it does to the bytes.
\<close>

section \<open>The operations\<close>

definition deletion :: "('c, 'b, 'd, 's) xi \<Rightarrow> rope \<Rightarrow> selection \<Rightarrow> 'd res" where
  "deletion X base sel =
     rbind (rfold (\<lambda>builder region.
         rbind (uadd (max_r region) 1) (\<lambda>e.
         rbind (interval_new X (min_r region) e) (\<lambda>iv.
         if \<not> interval_is_empty X iv then builder_delete X builder iv else Inr builder)))
       (builder_new X (rope_len base)) (regions sel))
     (\<lambda>builder. Inr (builder_build X builder))"

definition backspace :: "('c, 'b, 'd, 's) xi \<Rightarrow> rope \<Rightarrow> selection \<Rightarrow> 'd res" where
  "backspace X base sel =
     rbind (rfold (\<lambda>builder region.
         if caret region = 0 then Inr builder
         else rbind (usub (caret region) 1) (\<lambda>s.
              rbind (interval_new X s (caret region)) (\<lambda>iv.
              builder_delete X builder iv)))
       (builder_new X (rope_len base)) (regions sel))
     (\<lambda>builder. Inr (builder_build X builder))"

definition delete_cursor :: "('c, 'b, 'd, 's) xi \<Rightarrow> rope \<Rightarrow> selection \<Rightarrow> 'd res" where
  "delete_cursor X base sel =
     rbind (rfold (\<lambda>builder region.
         rbind (uadd (caret region) 1) (\<lambda>e.
         rbind (interval_new X (caret region) (min (rope_len base) e)) (\<lambda>iv.
         if \<not> interval_is_empty X iv then builder_delete X builder iv else Inr builder)))
       (builder_new X (rope_len base)) (regions sel))
     (\<lambda>builder. Inr (builder_build X builder))"

definition insert_op :: "('c, 'b, 'd, 's) xi \<Rightarrow> rope \<Rightarrow> selection \<Rightarrow> rope \<Rightarrow> 'd res" where
  "insert_op X base sel inserted =
     rbind (rfold (\<lambda>builder region.
         rbind (interval_new X (caret region) (caret region)) (\<lambda>iv.
         builder_replace X builder iv (into_node inserted)))
       (builder_new X (rope_len base)) (regions sel))
     (\<lambda>builder. Inr (builder_build X builder))"

text \<open>\<open>register_contents.iter().chain(repeat(last_value))\<close>, cut to the number of regions by \<open>zip\<close>.\<close>

definition padded :: "bytes list \<Rightarrow> nat \<Rightarrow> bytes list" where
  "padded reg n = take n (reg @ replicate n (last reg))"

definition paste :: "('c, 'b, 'd, 's) xi \<Rightarrow> rope \<Rightarrow> selection \<Rightarrow> bytes list \<Rightarrow> bool \<Rightarrow> nat \<Rightarrow> 'd res" where
  "paste X base sel register_contents after count =
     (if register_contents = [] then Inl UnwrapNone
      else rbind (rfold (\<lambda>builder (region, pasted).
          rbind (if after then rbind (uadd (max_r region) 1) (\<lambda>e. Inr (min (rope_len base) e))
                 else Inr (min_r region)) (\<lambda>insert_pos.
          rbind (interval_new X insert_pos insert_pos) (\<lambda>iv.
          builder_replace X builder iv
            (into_node (rope_from_vec X (concat (replicate count pasted)))))))
        (builder_new X (rope_len base))
        (zip (regions sel) (padded register_contents (length (regions sel)))))
      (\<lambda>builder. Inr (builder_build X builder)))"

definition change :: "('c, 'b, 'd, 's) xi \<Rightarrow> rope \<Rightarrow> selection \<Rightarrow> rope \<Rightarrow> 'd res" where
  "change X base sel inserted =
     rbind (rfold (\<lambda>builder region.
         rbind (uadd (caret region) 1) (\<lambda>e.
         rbind (interval_new X (caret region) e) (\<lambda>iv.
         builder_replace X builder iv (into_node inserted))))
       (builder_new X (rope_len base)) (regions sel))
     (\<lambda>builder. Inr (builder_build X builder))"

definition overwrite_half :: "('c, 'b, 'd, 's) xi \<Rightarrow> rope \<Rightarrow> selection \<Rightarrow> u8 \<Rightarrow> 'd res" where
  "overwrite_half X base sel hi =
     rbind (rfold (\<lambda>builder region.
         rbind (uadd (caret region) 1) (\<lambda>e.
         rbind (interval_new X (caret region) e) (\<lambda>iv.
         rbind (if caret region < rope_len base
                then rbind (slice_to_cow X base iv) (\<lambda>bs. rbind (index bs 0) (\<lambda>b. Inr (b AND 0x0F)))
                else Inr 0) (\<lambda>base_char.
         builder_replace X builder iv (into_node (rope_from_vec X [base_char OR hi]))))))
       (builder_new X (rope_len base)) (regions sel))
     (\<lambda>builder. Inr (builder_build X builder))"

definition replace_op :: "('c, 'b, 'd, 's) xi \<Rightarrow> rope \<Rightarrow> selection \<Rightarrow> u8 \<Rightarrow> 'd res" where
  "replace_op X base sel ch =
     rbind (rfold (\<lambda>builder region.
         rbind (uadd (max_r region) 1) (\<lambda>e.
         rbind (interval_new X (min_r region) e) (\<lambda>iv.
         rbind (len_r region) (\<lambda>n.
         builder_replace X builder iv (into_node (rope_from_vec X (replicate n ch)))))))
       (builder_new X (rope_len base)) (regions sel))
     (\<lambda>builder. Inr (builder_build X builder))"

section \<open>The edit scripts\<close>

definition deletion_edit :: "selregion \<Rightarrow> edit" where
  "deletion_edit r = (min_r r, Suc (max_r r), [])"

definition backspace_edits :: "selregion \<Rightarrow> edit list" where
  "backspace_edits r = (if caret r = 0 then [] else [(caret r - 1, caret r, [])])"

definition delete_cursor_edits :: "nat \<Rightarrow> selregion \<Rightarrow> edit list" where
  "delete_cursor_edits n r = (if caret r < n then [(caret r, Suc (caret r), [])] else [])"

definition insert_edit :: "bytes \<Rightarrow> selregion \<Rightarrow> edit" where
  "insert_edit t r = (caret r, caret r, t)"

definition change_edit :: "bytes \<Rightarrow> selregion \<Rightarrow> edit" where
  "change_edit t r = (caret r, Suc (caret r), t)"

definition overwrite_half_edit :: "bytes \<Rightarrow> u8 \<Rightarrow> selregion \<Rightarrow> edit" where
  "overwrite_half_edit xs hi r =
     (caret r, Suc (caret r), [(if caret r < length xs then xs ! caret r AND 0x0F else 0) OR hi])"

definition replace_edit :: "u8 \<Rightarrow> selregion \<Rightarrow> edit" where
  "replace_edit ch r = (min_r r, Suc (max_r r), replicate (Suc (max_r r - min_r r)) ch)"

definition paste_edit :: "nat \<Rightarrow> bool \<Rightarrow> nat \<Rightarrow> selregion \<times> bytes \<Rightarrow> edit" where
  "paste_edit n after count p =
     (let pos = (if after then min n (Suc (max_r (fst p))) else min_r (fst p))
      in (pos, pos, concat (replicate count (snd p))))"

text \<open>
  Scripts made region by region are in order when each region's edits lie between the end of
  the previous region and its own end.
\<close>

lemma edits_ok_mono: "edits_ok n l es \<Longrightarrow> l' \<le> l \<Longrightarrow> edits_ok n l' es"
  by (cases es) auto

lemma edits_ok_regions:
  assumes "sorted_wrt before rs" and "\<forall>r \<in> set rs. max_r r \<le> n" and "\<forall>r \<in> set rs. l \<le> min_r r"
    and "\<And>r s e t. r \<in> set rs \<Longrightarrow> f r = (s, e, t) \<Longrightarrow> min_r r \<le> s \<and> s \<le> e \<and> s \<le> n \<and> e \<le> Suc (max_r r)"
  shows "edits_ok n l (map f rs)"
  using assms
proof (induction rs arbitrary: l)
  case (Cons r rs)
  obtain s e t where f: "f r = (s, e, t)" by (cases "f r") auto
  with Cons.prems(4) have b: "min_r r \<le> s" "s \<le> e" "s \<le> n" "e \<le> Suc (max_r r)" by auto
  have "edits_ok n (Suc (max_r r)) (map f rs)"
    using Cons.prems by (intro Cons.IH) (auto simp: before_def Suc_leI)
  then have "edits_ok n e (map f rs)" using b(4) edits_ok_mono by blast
  with Cons.prems(3) b f show ?case by auto
qed simp

lemma sel_regions_ok:
  assumes "sel_wf sel" "in_bounds n sel"
    and "\<And>r s e t. r \<in> set (regions sel) \<Longrightarrow> f r = (s, e, t) \<Longrightarrow>
      min_r r \<le> s \<and> s \<le> e \<and> s \<le> n \<and> e \<le> Suc (max_r r)"
  shows "edits_ok n 0 (map f (regions sel))"
  using assms by (intro edits_ok_regions) (auto simp: sel_wf_def in_bounds_def)

lemma edits_ok_backspace:
  assumes "sorted_wrt before rs" and "\<forall>r \<in> set rs. caret r \<le> n" and "\<forall>r \<in> set rs. l \<le> caret r - 1"
  shows "edits_ok n l (concat (map backspace_edits rs))"
  using assms
proof (induction rs arbitrary: l)
  case (Cons r rs)
  have "caret r \<le> caret q - 1" if "q \<in> set rs" for q
    using Cons.prems(1) that before_fields [of r q] by auto
  with Cons show ?case by (auto simp: backspace_edits_def)
qed simp

lemma edits_ok_delete_cursor:
  assumes "sorted_wrt before rs" and "\<forall>r \<in> set rs. l \<le> caret r"
  shows "edits_ok n l (concat (map (delete_cursor_edits n) rs))"
  using assms
proof (induction rs arbitrary: l)
  case (Cons r rs)
  have "Suc (caret r) \<le> caret q" if "q \<in> set rs" for q
    using Cons.prems(1) that before_fields [of r q] by auto
  with Cons show ?case by (auto simp: delete_cursor_edits_def)
qed simp

lemma edits_ok_paste:
  assumes "sorted_wrt before rs" and "\<forall>r \<in> set rs. max_r r \<le> n"
    and "l \<le> n" and "\<forall>r \<in> set rs. l \<le> min_r r"
  shows "edits_ok n l (map (paste_edit n after count) (zip rs ts))"
  using assms
proof (induction rs arbitrary: l ts)
  case (Cons r rs)
  show ?case
  proof (cases ts)
    case (Cons t ts')
    let ?pos = "if after then min n (Suc (max_r r)) else min_r r"
    have "?pos \<le> min_r q" if "q \<in> set rs" for q
      using Cons.prems(1) that min_le_max_r [of r] by (auto simp: before_def min_def)
    then have "edits_ok n ?pos (map (paste_edit n after count) (zip rs ts'))"
      using Cons.prems min_le_max_r [of r] by (intro Cons.IH) auto
    moreover have "paste_edit n after count (r, t) = (?pos, ?pos, concat (replicate count t))"
      by (simp add: paste_edit_def Let_def)
    moreover have "l \<le> ?pos" "?pos \<le> n"
      using Cons.prems min_le_max_r [of r] by auto
    ultimately show ?thesis using Cons by simp
  qed simp
qed simp

section \<open>Feeding the builder\<close>

context xi_delta
begin

text \<open>A step of the loop adds the given edits when they come after those already there.\<close>

definition adds :: "('b \<Rightarrow> 'r \<Rightarrow> 'b res) \<Rightarrow> 'r \<Rightarrow> edit list \<Rightarrow> bool" where
  "adds step r new \<longleftrightarrow> (\<forall>b n es. bden b = (n, es) \<longrightarrow> edits_ok n (last_end es) new \<longrightarrow>
     (\<exists>b'. step b r = Inr b' \<and> bden b' = (n, es @ new)))"

lemma adds_none: "(\<And>b. step b r = Inr b) \<Longrightarrow> adds step r []"
  by (auto simp: adds_def)

lemma adds_delete:
  "(\<And>b. step b r = builder_delete X b (Interval s e)) \<Longrightarrow> adds step r [(s, e, [])]"
  unfolding adds_def using builder_delete_sorted by fastforce

lemma adds_replace:
  "(\<And>b. step b r = builder_replace X b (Interval s e) t) \<Longrightarrow> adds step r [(s, e, node_bytes t)]"
  unfolding adds_def using builder_replace_sorted by fastforce

lemma edits_ok_app: "edits_ok n l (xs @ ys) \<longleftrightarrow>
    edits_ok n l xs \<and> edits_ok n (if xs = [] then l else last_end xs) ys"
proof (induction xs arbitrary: l)
  case (Cons x xs)
  then show ?case by (cases x; cases xs) auto
qed simp

lemma last_end_app: "last_end (xs @ ys) = (if ys = [] then last_end xs else last_end ys)"
  by (induction xs rule: last_end.induct) (auto simp: neq_Nil_conv)

lemma rfold_adds:
  assumes "\<And>r. r \<in> set rs \<Longrightarrow> adds step r (f r)"
    and "bden b = (n, es)" and "edits_ok n (last_end es) (concat (map f rs))"
  shows "\<exists>b'. rfold step b rs = Inr b' \<and> bden b' = (n, es @ concat (map f rs))"
  using assms
proof (induction rs arbitrary: b es)
  case (Cons r rs)
  from Cons.prems(3) have ok: "edits_ok n (last_end es) (f r)"
    "edits_ok n (if f r = [] then last_end es else last_end (f r)) (concat (map f rs))"
    by (auto simp: edits_ok_app)
  have "adds step r (f r)" using Cons.prems(1) by simp
  then obtain b' where b': "step b r = Inr b'" "bden b' = (n, es @ f r)"
    using Cons.prems(2) ok(1) unfolding adds_def by blast
  have "edits_ok n (last_end (es @ f r)) (concat (map f rs))"
    using ok(2) by (auto simp: last_end_app split: if_splits)
  with Cons.IH [of b' "es @ f r"] b' Cons.prems(1) show ?case by auto
qed auto

lemma build_from_loop:
  assumes "\<And>r. r \<in> set rs \<Longrightarrow> adds step r (f r)" and "edits_ok n 0 (concat (map f rs))"
  shows "\<exists>b. rbind (rfold step (builder_new X n) rs) (\<lambda>b. Inr (builder_build X b)) = Inr (builder_build X b) \<and>
    bden b = (n, concat (map f rs))"
  using rfold_adds [OF assms(1), of rs "builder_new X n" n "[]"] assms(2) builder_new_den by auto

end

section \<open>What each operation builds\<close>

text \<open>
  \<open>built X bden d n es\<close>: the delta \<open>d\<close> was built for a document of length \<open>n\<close> from the script
  \<open>es\<close>, which is in order.
\<close>

definition built :: "('c, 'b, 'd, 's) xi \<Rightarrow> ('b \<Rightarrow> nat \<times> edit list) \<Rightarrow> 'd \<Rightarrow> nat \<Rightarrow> edit list \<Rightarrow> bool" where
  "built X bden d n es \<longleftrightarrow> (\<exists>b. d = builder_build X b \<and> bden b = (n, es) \<and> edits_ok n 0 es)"

lemma caret_between: "min_r r \<le> caret r" "caret r \<le> max_r r" "tail r \<le> max_r r" "min_r r \<le> tail r"
  by (simp_all add: min_r_def max_r_def)

lemma len_r_eq: "max_r r + 1 \<le> usize_max \<Longrightarrow> len_r r = Inr (Suc (max_r r - min_r r))"
  using min_le_max_r [of r] by (simp add: len_r_def uadd_def)

context xi_rope
begin

lemma built_loop:
  assumes "\<And>r. r \<in> set rs \<Longrightarrow> adds step r (f r)" and "edits_ok n 0 (concat (map f rs))"
  shows "\<exists>d. rbind (rfold step (builder_new X n) rs) (\<lambda>b. Inr (builder_build X b)) = Inr d \<and>
    built X bden d n (concat (map f rs))"
  using build_from_loop [OF assms(1), of rs] assms(2) unfolding built_def by blast

lemma built_loop_single:
  assumes "\<And>r. r \<in> set rs \<Longrightarrow> adds step r [f r]" and "edits_ok n 0 (map f rs)"
  shows "\<exists>d. rbind (rfold step (builder_new X n) rs) (\<lambda>b. Inr (builder_build X b)) = Inr d \<and>
    built X bden d n (map f rs)"
proof -
  have "concat (map (\<lambda>r. [f r]) rs) = map f rs" by (induction rs) auto
  with built_loop [of rs step "\<lambda>r. [f r]" n] assms show ?thesis by simp
qed

lemma in_bounds_caret: "in_bounds n sel \<Longrightarrow> r \<in> set (regions sel) \<Longrightarrow> caret r \<le> n \<and> tail r \<le> n"
  using caret_between [of r] by (fastforce simp: in_bounds_def)

lemma bound_usize: "in_bounds n sel \<Longrightarrow> fits n \<Longrightarrow> r \<in> set (regions sel) \<Longrightarrow>
    max_r r + 1 \<le> usize_max \<and> caret r + 1 \<le> usize_max \<and> caret r \<le> n \<and> max_r r \<le> n \<and> min_r r \<le> n"
  using fits_Suc_usize [of n] caret_between [of r] min_le_max_r [of r]
  by (fastforce simp: in_bounds_def)

lemma deletion_built:
  assumes "sel_wf sel" "in_bounds (node_len base) sel" "fits (node_len base)"
  shows "\<exists>d. deletion X base sel = Inr d \<and> built X bden d (node_len base) (map deletion_edit (regions sel))"
  unfolding deletion_def rope_len_def
proof (rule built_loop_single)
  fix r assume "r \<in> set (regions sel)"
  with bound_usize [OF assms(2,3)] show "adds (\<lambda>builder region.
         rbind (uadd (max_r region) 1) (\<lambda>e.
         rbind (interval_new X (min_r region) e) (\<lambda>iv.
         if \<not> interval_is_empty X iv then builder_delete X builder iv else Inr builder))) r [deletion_edit r]"
    unfolding deletion_edit_def using min_le_max_r [of r]
    by (intro adds_delete) (auto simp: interval_new interval_is_empty)
qed (use assms bound_usize [OF assms(2,3)] in
     \<open>auto simp: deletion_edit_def min_le_max_r le_SucI intro!: sel_regions_ok\<close>)

lemma insert_built:
  assumes "sel_wf sel" "in_bounds (node_len base) sel"
  shows "\<exists>d. insert_op X base sel text = Inr d \<and>
    built X bden d (node_len base) (map (insert_edit (node_bytes text)) (regions sel))"
  unfolding insert_op_def rope_len_def into_node_def
proof (rule built_loop_single)
  fix r
  show "adds (\<lambda>builder region. rbind (interval_new X (caret region) (caret region))
      (\<lambda>iv. builder_replace X builder iv text)) r [insert_edit (node_bytes text) r]"
    unfolding insert_edit_def by (intro adds_replace) (auto simp: interval_new)
qed (use assms caret_between in_bounds_caret [OF assms(2)] in
     \<open>auto simp: insert_edit_def le_SucI intro!: sel_regions_ok\<close>)

lemma change_built:
  assumes "sel_wf sel" "in_bounds (node_len base) sel" "fits (node_len base)"
  shows "\<exists>d. change X base sel text = Inr d \<and>
    built X bden d (node_len base) (map (change_edit (node_bytes text)) (regions sel))"
  unfolding change_def rope_len_def into_node_def
proof (rule built_loop_single)
  fix r assume "r \<in> set (regions sel)"
  with bound_usize [OF assms(2,3)] show "adds (\<lambda>builder region. rbind (uadd (caret region) 1) (\<lambda>e.
      rbind (interval_new X (caret region) e) (\<lambda>iv. builder_replace X builder iv text))) r
      [change_edit (node_bytes text) r]"
    unfolding change_edit_def by (intro adds_replace) (auto simp: interval_new)
qed (use assms bound_usize [OF assms(2,3)] caret_between in
     \<open>auto simp: change_edit_def intro!: sel_regions_ok\<close>)

lemma replace_built:
  assumes "sel_wf sel" "in_bounds (node_len base) sel" "fits (node_len base)"
  shows "\<exists>d. replace_op X base sel ch = Inr d \<and>
    built X bden d (node_len base) (map (replace_edit ch) (regions sel))"
  unfolding replace_op_def rope_len_def into_node_def
proof (rule built_loop_single)
  fix r assume "r \<in> set (regions sel)"
  with bound_usize [OF assms(2,3)] have "adds (\<lambda>builder region. rbind (uadd (max_r region) 1) (\<lambda>e.
      rbind (interval_new X (min_r region) e) (\<lambda>iv. rbind (len_r region) (\<lambda>n.
      builder_replace X builder iv (rope_from_vec X (replicate n ch)))))) r
      [(min_r r, Suc (max_r r), node_bytes (rope_from_vec X (replicate (Suc (max_r r - min_r r)) ch)))]"
    using min_le_max_r [of r] by (intro adds_replace) (auto simp: interval_new len_r_eq)
  then show "adds (\<lambda>builder region. rbind (uadd (max_r region) 1) (\<lambda>e.
      rbind (interval_new X (min_r region) e) (\<lambda>iv. rbind (len_r region) (\<lambda>n.
      builder_replace X builder iv (rope_from_vec X (replicate n ch)))))) r [replace_edit ch r]"
    unfolding replace_edit_def rope_from_vec_bytes .
qed (use assms bound_usize [OF assms(2,3)] in
     \<open>auto simp: replace_edit_def min_le_max_r le_SucI intro!: sel_regions_ok\<close>)

lemma overwrite_half_built:
  assumes "sel_wf sel" "in_bounds (node_len base) sel" "fits (node_len base)"
  shows "\<exists>d. overwrite_half X base sel hi = Inr d \<and>
    built X bden d (node_len base) (map (overwrite_half_edit (node_bytes base) hi) (regions sel))"
  unfolding overwrite_half_def rope_len_def into_node_def
proof (rule built_loop_single)
  fix r assume r: "r \<in> set (regions sel)"
  let ?c = "(if caret r < node_len base then node_bytes base ! caret r AND 0x0F else 0) OR hi"
  have "slice_to_cow X base (Interval (caret r) (Suc (caret r))) = Inr [node_bytes base ! caret r]"
    if "caret r < node_len base"
    using that slice_to_cow_bytes [of "caret r" base "Suc (caret r)"] by (simp add: take_Suc_conv_app_nth)
  with r bound_usize [OF assms(2,3)] have "adds (\<lambda>builder region. rbind (uadd (caret region) 1) (\<lambda>e.
      rbind (interval_new X (caret region) e) (\<lambda>iv.
      rbind (if caret region < node_len base
             then rbind (slice_to_cow X base iv) (\<lambda>bs. rbind (index bs 0) (\<lambda>b. Inr (b AND 0x0F)))
             else Inr 0) (\<lambda>base_char.
      builder_replace X builder iv (rope_from_vec X [base_char OR hi]))))) r
      [(caret r, Suc (caret r), node_bytes (rope_from_vec X [?c]))]"
    by (intro adds_replace) (auto simp: interval_new)
  then show "adds (\<lambda>builder region. rbind (uadd (caret region) 1) (\<lambda>e.
      rbind (interval_new X (caret region) e) (\<lambda>iv.
      rbind (if caret region < node_len base
             then rbind (slice_to_cow X base iv) (\<lambda>bs. rbind (index bs 0) (\<lambda>b. Inr (b AND 0x0F)))
             else Inr 0) (\<lambda>base_char.
      builder_replace X builder iv (rope_from_vec X [base_char OR hi]))))) r
      [overwrite_half_edit (node_bytes base) hi r]"
    unfolding overwrite_half_edit_def rope_from_vec_bytes .
qed (use assms bound_usize [OF assms(2,3)] caret_between in
     \<open>auto simp: overwrite_half_edit_def intro!: sel_regions_ok\<close>)

lemma backspace_built:
  assumes "sel_wf sel" "in_bounds (node_len base) sel"
  shows "\<exists>d. backspace X base sel = Inr d \<and>
    built X bden d (node_len base) (concat (map backspace_edits (regions sel)))"
  unfolding backspace_def rope_len_def
proof (rule built_loop)
  fix r
  show "adds (\<lambda>builder region. if caret region = 0 then Inr builder
      else rbind (usub (caret region) 1) (\<lambda>s. rbind (interval_new X s (caret region)) (\<lambda>iv.
        builder_delete X builder iv))) r (backspace_edits r)"
    by (cases "caret r = 0")
      (auto simp: backspace_edits_def interval_new Suc_leI intro!: adds_none adds_delete)
next
  show "edits_ok (node_len base) 0 (concat (map backspace_edits (regions sel)))"
    by (rule edits_ok_backspace) (use assms in \<open>auto simp: sel_wf_def dest: in_bounds_caret\<close>)
qed

lemma delete_cursor_built:
  assumes "sel_wf sel" "in_bounds (node_len base) sel" "fits (node_len base)"
  shows "\<exists>d. delete_cursor X base sel = Inr d \<and>
    built X bden d (node_len base) (concat (map (delete_cursor_edits (node_len base)) (regions sel)))"
  unfolding delete_cursor_def rope_len_def
proof (rule built_loop)
  fix r assume r: "r \<in> set (regions sel)"
  show "adds (\<lambda>builder region. rbind (uadd (caret region) 1) (\<lambda>e.
      rbind (interval_new X (caret region) (min (node_len base) e)) (\<lambda>iv.
      if \<not> interval_is_empty X iv then builder_delete X builder iv else Inr builder))) r
      (delete_cursor_edits (node_len base) r)"
  proof (cases "caret r < node_len base")
    case True
    then have "min (node_len base) (Suc (caret r)) = Suc (caret r)" by simp
    with True bound_usize [OF assms(2,3) r] show ?thesis
      by (auto simp: delete_cursor_edits_def interval_new interval_is_empty intro!: adds_delete)
  next
    case False
    with bound_usize [OF assms(2,3) r] have "caret r = node_len base" by simp
    with False bound_usize [OF assms(2,3) r] show ?thesis
      by (auto simp: delete_cursor_edits_def interval_new interval_is_empty intro!: adds_none)
  qed
next
  show "edits_ok (node_len base) 0 (concat (map (delete_cursor_edits (node_len base)) (regions sel)))"
    by (rule edits_ok_delete_cursor) (use assms in \<open>auto simp: sel_wf_def\<close>)
qed

lemma paste_built:
  assumes "sel_wf sel" "in_bounds (node_len base) sel" "fits (node_len base)" "reg \<noteq> []"
  shows "\<exists>d. paste X base sel reg after count = Inr d \<and>
    built X bden d (node_len base)
      (map (paste_edit (node_len base) after count) (zip (regions sel) (padded reg (length (regions sel)))))"
proof -
  let ?z = "zip (regions sel) (padded reg (length (regions sel)))"
  let ?step = "\<lambda>builder (region, pasted).
          rbind (if after then rbind (uadd (max_r region) 1) (\<lambda>e. Inr (min (node_len base) e))
                 else Inr (min_r region)) (\<lambda>insert_pos.
          rbind (interval_new X insert_pos insert_pos) (\<lambda>iv.
          builder_replace X builder iv (rope_from_vec X (concat (replicate count pasted)))))"
  have "adds ?step p [paste_edit (node_len base) after count p]" if "p \<in> set ?z" for p
  proof -
    obtain r t where p: "p = (r, t)" by force
    with that have r: "r \<in> set (regions sel)" by (auto dest: set_zip_leftD)
    let ?pos = "if after then min (node_len base) (Suc (max_r r)) else min_r r"
    have "adds ?step p [(?pos, ?pos, node_bytes (rope_from_vec X (concat (replicate count t))))]"
      using bound_usize [OF assms(2,3) r] p by (intro adds_replace) (auto simp: interval_new)
    then show ?thesis unfolding paste_edit_def rope_from_vec_bytes p Let_def fst_conv snd_conv .
  qed
  moreover have "edits_ok (node_len base) 0 (map (paste_edit (node_len base) after count) ?z)"
    by (rule edits_ok_paste) (use assms in \<open>auto simp: sel_wf_def in_bounds_def\<close>)
  ultimately show ?thesis
    using built_loop_single [of ?z ?step "paste_edit (node_len base) after count" "node_len base"] assms(4)
    unfolding paste_def rope_len_def into_node_def by (simp only: if_False)
qed

lemma built_apply:
  assumes "built X bden d n es" and "node_len base = n"
  shows "\<exists>r. delta_apply X d base = Inr r \<and> node_bytes r = apply_edits 0 es (node_bytes base) \<and>
    new_document_len X d = node_len r"
proof -
  obtain b where b: "d = builder_build X b" "bden b = (n, es)" "edits_ok n 0 es"
    using assms(1) by (auto simp: built_def)
  with build_ok [OF b(2,3)] obtain r where r: "delta_apply X d base = Inr r"
    using delta_applies assms(2) by blast
  with b show ?thesis
    using build_apply [OF b(2,3) assms(2)] delta_new_len [of d base r] build_ok [OF b(2,3)] assms(2) by auto
qed

lemma built_ok: "built X bden d n es \<Longrightarrow> delta_ok d \<and> delta_base_len X d = n"
  using build_ok by (auto simp: built_def)

lemma built_offset_mono: "built X bden d n es \<Longrightarrow> offset_mono X d n"
  using build_offset_mono by (auto simp: built_def)

lemma built_offset: "built X bden d n es \<Longrightarrow> i < n \<Longrightarrow>
    delta_offset X d n i = min (new_document_len X d) (coord 0 es i)"
  using build_transform by (auto simp: built_def delta_offset_def)

end

section \<open>What each operation does to the bytes\<close>

text \<open>
  What an edit script puts at offset \<open>i\<close>: the texts of the edits that start there, then the byte
  at \<open>i\<close> unless an edit covers it. The last offset is the end of the document.
\<close>

definition spliced :: "edit list \<Rightarrow> bytes \<Rightarrow> nat \<Rightarrow> bytes" where
  "spliced es xs i = concat (map (\<lambda>(s, e, t). if s = i then t else []) es) @
     (if list_ex (\<lambda>(s, e, t). s \<le> i \<and> i < e) es then [] else take 1 (drop i xs))"

lemma upt_split: "i \<le> j \<Longrightarrow> j \<le> k \<Longrightarrow> [i ..< k] = [i ..< j] @ [j ..< k]"
  by (metis le_add_diff_inverse upt_add_eq_append)

lemma concat_take1: "concat (map (\<lambda>i. take 1 (drop i xs)) [l ..< k]) = take (k - l) (drop l xs)"
proof (induction k)
  case (Suc k)
  show ?case
  proof (cases "l \<le> k")
    case True
    then have "take (Suc k - l) (drop l xs) = take (k - l) (drop l xs) @ take 1 (drop k xs)"
      by (simp add: Suc_diff_le take_Suc_conv_app_nth take_add [of "k - l" 1, simplified])
    with Suc True show ?thesis by simp
  qed simp
qed simp

lemma edits_ok_starts: "edits_ok n l es \<Longrightarrow> (s, e, t) \<in> set es \<Longrightarrow> l \<le> s \<and> s \<le> n"
proof (induction es arbitrary: l)
  case (Cons x es)
  then show ?case by (cases x) fastforce
qed simp

lemma spliced_before: "edits_ok n l es \<Longrightarrow> i < l \<Longrightarrow> spliced es xs i = take 1 (drop i xs)"
proof -
  assume ok: "edits_ok n l es" and i: "i < l"
  have "concat (map (\<lambda>(s, e, t). if s = i then t else []) es) = []"
    using edits_ok_starts [OF ok] i by (fastforce simp: concat_eq_Nil_conv)
  moreover have "\<not> list_ex (\<lambda>(s, e, t). s \<le> i \<and> i < e) es"
    using edits_ok_starts [OF ok] i by (fastforce simp: list_ex_iff)
  ultimately show ?thesis by (simp only: spliced_def if_False append_Nil)
qed

lemma apply_edits_spliced:
  "edits_ok (length xs) l es \<Longrightarrow> apply_edits l es xs = concat (map (spliced es xs) [l ..< Suc (length xs)])"
proof (induction es arbitrary: l)
  case Nil
  have "spliced [] xs = (\<lambda>i. take 1 (drop i xs))" by (simp add: spliced_def fun_eq_iff)
  then have "concat (map (spliced [] xs) [l ..< Suc (length xs)]) = take (Suc (length xs) - l) (drop l xs)"
    by (simp only: concat_take1)
  then show ?case by (simp del: upt_Suc)
next
  case (Cons x es)
  obtain s e t where x: "x = (s, e, t)" by (cases x)
  let ?n = "length xs"
  let ?g = "spliced (x # es) xs" and ?h = "spliced es xs"
  let ?e = "min e (Suc ?n)"
  from Cons.prems x have ok: "l \<le> s" "s \<le> e" "s \<le> ?n" "edits_ok ?n e es" by auto
  have below: "?g i = take 1 (drop i xs)" if "i < s" for i
    using that x ok spliced_before [OF ok(4), of i] by (simp add: spliced_def)
  have inside: "?g i = (if i = s then t else [])" if "s \<le> i" "i < e" for i
    using that x spliced_before [OF ok(4), of i] by (auto simp: spliced_def split: if_splits dest!: edits_ok_starts [OF ok(4)])
  have above: "?g i = (if i = s then t @ ?h i else ?h i)" if "e \<le> i" for i
    using that x by (simp add: spliced_def)
  have "concat (map ?g [l ..< s]) = take (s - l) (drop l xs)"
    unfolding concat_take1 [symmetric] by (rule arg_cong [where f = concat]) (simp add: below)
  moreover have "concat (map ?g [s ..< Suc ?n]) = t @ concat (map ?h [?e ..< Suc ?n])"
  proof (cases "s = e")
    case True
    have "concat (map ?g [Suc s ..< Suc ?n]) = concat (map ?h [Suc s ..< Suc ?n])"
      by (rule arg_cong [where f = concat]) (use True above in auto)
    with True ok above [of s] show ?thesis by (simp add: upt_conv_Cons del: upt_Suc)
  next
    case False
    with ok have "s < ?e" by simp
    have "concat (map ?g [Suc s ..< ?e]) = []" using inside by auto
    moreover have "concat (map ?g [?e ..< Suc ?n]) = concat (map ?h [?e ..< Suc ?n])"
      by (rule arg_cong [where f = concat]) (use False ok above in \<open>auto simp: min_def split: if_splits\<close>)
    moreover have "[s ..< Suc ?n] = s # [Suc s ..< ?e] @ [?e ..< Suc ?n]"
      using \<open>s < ?e\<close> upt_split [of "Suc s" ?e "Suc ?n"] ok by (simp add: upt_conv_Cons del: upt_Suc)
    ultimately show ?thesis using inside [of s] \<open>s < ?e\<close> by (simp del: upt_Suc)
  qed
  moreover have "apply_edits e es xs = concat (map ?h [?e ..< Suc ?n])"
    using Cons.IH [OF ok(4)] by (cases "e \<le> Suc ?n") (simp_all add: min_def del: upt_Suc)
  ultimately show ?case
    using x ok upt_split [of l s "Suc ?n"] by (simp del: upt_Suc)
qed

text \<open>
  The other reading of a script: where every edit \<open>(s, e, t)\<close> spreads its text over the offsets
  it covers, the result is what each offset contributes on its own.
\<close>

lemma apply_edits_pointwise:
  assumes "edits_ok (length xs) l es"
    and "\<forall>(s, e, t) \<in> set es. e \<le> Suc (length xs) \<and> concat (map g [s ..< e]) = t"
    and "\<And>i. l \<le> i \<Longrightarrow> \<forall>(s, e, t) \<in> set es. \<not> (s \<le> i \<and> i < e) \<Longrightarrow> g i = take 1 (drop i xs)"
    and "l \<le> Suc (length xs)"
  shows "apply_edits l es xs = concat (map g [l ..< Suc (length xs)])"
  using assms
proof (induction es arbitrary: l)
  case Nil
  then have "map g [l ..< Suc (length xs)] = map (\<lambda>i. take 1 (drop i xs)) [l ..< Suc (length xs)]"
    by (simp del: upt_Suc)
  then show ?case using concat_take1 [of xs l "Suc (length xs)"] by (simp only:) simp
next
  case (Cons x es)
  obtain s e t where x: "x = (s, e, t)" by (cases x)
  let ?n = "length xs"
  from Cons.prems x have ok: "l \<le> s" "s \<le> e" "s \<le> ?n" "edits_ok ?n e es" "e \<le> Suc ?n"
    and t: "concat (map g [s ..< e]) = t" by auto
  have "map g [l ..< s] = map (\<lambda>i. take 1 (drop i xs)) [l ..< s]"
  proof (rule map_cong [OF refl])
    fix i assume i: "i \<in> set [l ..< s]"
    then have "\<forall>(s, e, t) \<in> set (x # es). \<not> (s \<le> i \<and> i < e)"
      using ok x edits_ok_starts [OF ok(4)] by fastforce
    with Cons.prems(3) i show "g i = take 1 (drop i xs)" by simp
  qed
  then have "concat (map g [l ..< s]) = take (s - l) (drop l xs)"
    using concat_take1 [of xs l s] by (simp only:)
  moreover have "apply_edits e es xs = concat (map g [e ..< Suc ?n])"
    using Cons.prems(2,3) ok x by (intro Cons.IH) auto
  ultimately show ?case
    using x t ok upt_split [of l s "Suc ?n"] upt_split [of s e "Suc ?n"] by (simp del: upt_Suc)
qed

subsection \<open>What the user sees\<close>

text \<open>The byte at an offset (nothing at the end), and the document made of what each offset contributes.\<close>

definition byte_at :: "bytes \<Rightarrow> nat \<Rightarrow> bytes" where
  "byte_at xs i = take 1 (drop i xs)"

definition by_offset :: "(nat \<Rightarrow> bytes) \<Rightarrow> bytes \<Rightarrow> bytes" where
  "by_offset g xs = concat (map g [0 ..< Suc (length xs)])"

definition selected :: "selection \<Rightarrow> nat \<Rightarrow> bool" where
  "selected sel i \<longleftrightarrow> list_ex (\<lambda>r. min_r r \<le> i \<and> i \<le> max_r r) (regions sel)"

definition careted :: "selection \<Rightarrow> nat \<Rightarrow> bool" where
  "careted sel i \<longleftrightarrow> list_ex (\<lambda>r. caret r = i) (regions sel)"

lemma by_offset_cong: "(\<And>i. i \<le> length xs \<Longrightarrow> g i = h i) \<Longrightarrow> by_offset g xs = by_offset h xs"
  unfolding by_offset_def by (rule arg_cong [where f = concat]) (auto simp del: upt_Suc)

lemma by_offset_filter:
  "by_offset (\<lambda>i. if P i then [] else byte_at xs i) xs = map ((!) xs) (filter (\<lambda>i. \<not> P i) [0 ..< length xs])"
proof -
  have "concat (map (\<lambda>i. if P i then [] else byte_at xs i) [0 ..< k]) = map ((!) xs) (filter (\<lambda>i. \<not> P i) [0 ..< k])"
    if "k \<le> length xs" for k
    using that by (induction k) (auto simp: byte_at_def take_Suc_conv_app_nth hd_drop_conv_nth take_Suc)
  from this [of "length xs"] show ?thesis by (simp add: by_offset_def byte_at_def)
qed

lemma by_offset_map:
  "by_offset (\<lambda>i. if P i then [f i] else byte_at xs i) xs =
    map (\<lambda>i. if P i then f i else xs ! i) [0 ..< length xs] @ (if P (length xs) then [f (length xs)] else [])"
proof -
  have "concat (map (\<lambda>i. if P i then [f i] else byte_at xs i) [0 ..< k]) =
      map (\<lambda>i. if P i then f i else xs ! i) [0 ..< k]" if "k \<le> length xs" for k
    using that by (induction k) (auto simp: byte_at_def hd_drop_conv_nth take_Suc)
  from this [of "length xs"] show ?thesis by (simp add: by_offset_def byte_at_def)
qed

lemma spliced_deletion: "spliced (map deletion_edit (regions sel)) xs i =
    (if selected sel i then [] else byte_at xs i)"
  by (auto simp: spliced_def deletion_edit_def selected_def list_ex_iff byte_at_def less_Suc_eq_le)

lemma spliced_backspace: "spliced (concat (map backspace_edits (regions sel))) xs i =
    (if careted sel (Suc i) then [] else byte_at xs i)"
proof -
  have "list_ex (\<lambda>(s, e, t). s \<le> i \<and> i < e) (concat (map backspace_edits rs)) \<longleftrightarrow>
      list_ex (\<lambda>r. caret r = Suc i) rs" for rs
    by (induction rs) (auto simp: backspace_edits_def)
  moreover have "concat (map (\<lambda>(s, e, t). if s = i then t else []) (concat (map backspace_edits rs))) = []" for rs
    by (induction rs) (auto simp: backspace_edits_def)
  ultimately show ?thesis by (simp only: spliced_def careted_def byte_at_def append_Nil)
qed

lemma spliced_delete_cursor: "spliced (concat (map (delete_cursor_edits (length xs)) (regions sel))) xs i =
    (if careted sel i then [] else byte_at xs i)"
  by (auto simp: spliced_def delete_cursor_edits_def careted_def list_ex_iff byte_at_def less_Suc_eq_le
      concat_eq_Nil_conv split: if_splits)

lemma spliced_insert:
  assumes "sel_wf sel"
  shows "spliced (map (insert_edit t) (regions sel)) xs i = (if careted sel i then t else []) @ byte_at xs i"
proof -
  have "concat (map (\<lambda>r. if caret r = i then t else []) rs) =
      (if list_ex (\<lambda>r. caret r = i) rs then t else [])" if "sorted_wrt before rs" for rs
    using that
  proof (induction rs)
    case (Cons r rs)
    have "caret r < caret q" if "q \<in> set rs" for q
      using Cons.prems that before_fields [of r q] by auto
    then have "caret r = i \<Longrightarrow> \<not> list_ex (\<lambda>r. caret r = i) rs" by (fastforce simp: list_ex_iff)
    with Cons show ?case by auto
  qed simp
  with assms show ?thesis
    by (auto simp: spliced_def insert_edit_def list_ex_iff byte_at_def careted_def sel_wf_def o_def)
qed

text \<open>The offsets of a region hold the replacement, every other offset keeps its byte.\<close>

lemma span_edits_pointwise:
  assumes wf: "sel_wf sel" "in_bounds (length xs) sel"
    and f: "\<And>r. r \<in> set (regions sel) \<Longrightarrow> f r = (s r, Suc (e r), concat (map g [s r ..< Suc (e r)]))"
    and b: "\<And>r. min_r r \<le> s r \<and> s r \<le> e r \<and> e r \<le> max_r r"
    and g: "\<And>i. \<forall>r \<in> set (regions sel). \<not> (s r \<le> i \<and> i \<le> e r) \<Longrightarrow> g i = byte_at xs i"
  shows "apply_edits 0 (map f (regions sel)) xs = by_offset g xs"
  unfolding by_offset_def
proof (rule apply_edits_pointwise)
  have m: "max_r r \<le> length xs" if "r \<in> set (regions sel)" for r
    using wf(2) that by (simp add: in_bounds_def)
  have n: "s r \<le> length xs" "e r \<le> length xs" if "r \<in> set (regions sel)" for r
    using b [of r] m [OF that] by linarith+
  show "edits_ok (length xs) 0 (map f (regions sel))"
  proof (rule sel_regions_ok [OF wf])
    fix r s' e' t assume r: "r \<in> set (regions sel)" and "f r = (s', e', t)"
    with f have "s' = s r" "e' = Suc (e r)" by auto
    with b [of r] n [OF r] show "min_r r \<le> s' \<and> s' \<le> e' \<and> s' \<le> length xs \<and> e' \<le> Suc (max_r r)"
      by simp
  qed
  show "\<forall>(s, e, t) \<in> set (map f (regions sel)). e \<le> Suc (length xs) \<and> concat (map g [s ..< e]) = t"
    using f n by (simp del: upt_Suc)
  show "g i = take 1 (drop i xs)" if "\<forall>(s, e, t) \<in> set (map f (regions sel)). \<not> (s \<le> i \<and> i < e)" for i
    using that f g [of i] by (auto simp: byte_at_def less_Suc_eq_le)
qed simp

lemma concat_map_const: "(\<And>i. i \<in> set is \<Longrightarrow> g i = [c]) \<Longrightarrow> concat (map g is) = replicate (length is) c"
  by (induction "is") auto

lemma apply_replace_edits:
  assumes "sel_wf sel" "in_bounds (length xs) sel"
  shows "apply_edits 0 (map (replace_edit ch) (regions sel)) xs =
    by_offset (\<lambda>i. if selected sel i then [ch] else byte_at xs i) xs" (is "_ = by_offset ?g xs")
proof (rule span_edits_pointwise [OF assms, where s = min_r and e = max_r])
  fix r assume r: "r \<in> set (regions sel)"
  have "concat (map ?g [min_r r ..< Suc (max_r r)]) = replicate (length [min_r r ..< Suc (max_r r)]) ch"
    by (rule concat_map_const) (use r in \<open>auto simp: selected_def list_ex_iff less_Suc_eq_le simp del: upt_Suc\<close>)
  then show "replace_edit ch r = (min_r r, Suc (max_r r), concat (map ?g [min_r r ..< Suc (max_r r)]))"
    using min_le_max_r [of r] by (simp add: replace_edit_def Suc_diff_le del: upt_Suc)
qed (auto simp: selected_def list_ex_iff min_le_max_r)

lemma apply_change_edits:
  assumes "sel_wf sel" "in_bounds (length xs) sel"
  shows "apply_edits 0 (map (change_edit t) (regions sel)) xs =
    by_offset (\<lambda>i. if careted sel i then t else byte_at xs i) xs"
  by (rule span_edits_pointwise [OF assms, where s = caret and e = caret])
    (auto simp: change_edit_def careted_def list_ex_iff caret_between)

lemma apply_overwrite_half_edits:
  assumes "sel_wf sel" "in_bounds (length xs) sel"
  shows "apply_edits 0 (map (overwrite_half_edit xs hi) (regions sel)) xs =
    by_offset (\<lambda>i. if careted sel i then [(if i < length xs then xs ! i AND 0x0F else 0) OR hi] else byte_at xs i) xs"
  by (rule span_edits_pointwise [OF assms, where s = caret and e = caret])
    (auto simp: overwrite_half_edit_def careted_def list_ex_iff caret_between)

section \<open>Correctness of the operations\<close>

text \<open>The delta an operation returned takes the document to the given bytes.\<close>

definition yields :: "('c, 'b, 'd, 's) xi \<Rightarrow> rope \<Rightarrow> 'd res \<Rightarrow> bytes \<Rightarrow> bool" where
  "yields X base d xs \<longleftrightarrow>
     (case rbind d (rope_apply_delta X base) of Inl _ \<Rightarrow> False | Inr r \<Rightarrow> node_bytes r = xs)"

context xi_rope
begin

lemma built_yields:
  assumes "\<exists>d. op = Inr d \<and> built X bden d (node_len base) es"
    and "apply_edits 0 es (node_bytes base) = xs"
  shows "yields X base op xs"
  using assms built_apply by (fastforce simp: yields_def rope_apply_delta_def)

lemma built_spliced:
  assumes "\<exists>d. op = Inr d \<and> built X bden d (node_len base) es"
    and "\<And>i. i \<le> node_len base \<Longrightarrow> spliced es (node_bytes base) i = g i"
  shows "yields X base op (by_offset g (node_bytes base))"
proof -
  have "edits_ok (node_len base) 0 es" using assms(1) by (auto simp: built_def)
  then have "apply_edits 0 es (node_bytes base) = by_offset (spliced es (node_bytes base)) (node_bytes base)"
    unfolding by_offset_def by (rule apply_edits_spliced)
  also have "\<dots> = by_offset g (node_bytes base)" using assms(2) by (rule by_offset_cong)
  finally show ?thesis using built_yields [OF assms(1)] by blast
qed

lemmas deletion_yields = built_spliced [OF deletion_built spliced_deletion]
lemmas backspace_yields = built_spliced [OF backspace_built spliced_backspace]
lemmas delete_cursor_yields = built_spliced [OF delete_cursor_built spliced_delete_cursor]
lemmas insert_yields = built_spliced [OF insert_built spliced_insert]
lemmas replace_yields = built_yields [OF replace_built apply_replace_edits]
lemmas change_yields = built_yields [OF change_built apply_change_edits]
lemmas overwrite_half_yields = built_yields [OF overwrite_half_built apply_overwrite_half_edits]

end

text \<open>
  C4: \<open>d\<close> deletes exactly the selected bytes: for a well-formed selection inside the document,
  \<open>deletion\<close> builds a delta without panicking, and applying it leaves the bytes whose offset lies
  in no region, in order.
\<close>

theorem deletion_correct:
  assumes "xi_rope X cur_at bden delta_ok msk ins_ok"
    and "sel_wf sel" "in_bounds (node_len base) sel" "fits (node_len base)"
  shows "yields X base (deletion X base sel)
    (map ((!) (node_bytes base)) (filter (\<lambda>i. \<not> selected sel i) [0 ..< node_len base]))"
  using xi_rope.deletion_yields [OF assms] by (simp add: by_offset_filter)

text \<open>
  C15: backspace removes the byte before each caret, and nothing for a caret at offset 0;
  \<open>delete_cursor\<close> removes the byte under each caret, and nothing for a caret at the end.
\<close>

theorem backspace_delete_correct:
  assumes "xi_rope X cur_at bden delta_ok msk ins_ok"
    and "sel_wf sel" "in_bounds (node_len base) sel" "fits (node_len base)"
  shows "yields X base (backspace X base sel)
      (map ((!) (node_bytes base)) (filter (\<lambda>i. \<not> careted sel (Suc i)) [0 ..< node_len base])) \<and>
    yields X base (delete_cursor X base sel)
      (map ((!) (node_bytes base)) (filter (\<lambda>i. \<not> careted sel i) [0 ..< node_len base]))"
  using xi_rope.backspace_yields [OF assms(1-3)] xi_rope.delete_cursor_yields [OF assms]
  by (simp add: by_offset_filter)

text \<open>
  C12: inserting puts the text in front of the byte under each caret (or at the end of the
  document) and keeps every byte.
\<close>

theorem insert_correct:
  assumes "xi_rope X cur_at bden delta_ok msk ins_ok"
    and "sel_wf sel" "in_bounds (node_len base) sel"
  shows "yields X base (insert_op X base sel inserted)
    (by_offset (\<lambda>i. (if careted sel i then node_bytes inserted else []) @ byte_at (node_bytes base) i)
      (node_bytes base))"
  using xi_rope.insert_yields [OF assms] assms(2) by blast

text \<open>
  C11: \<open>r\<close> replaces every selected byte by the given one and keeps the others; a selection that
  reaches one past the last byte appends one.
\<close>

theorem replace_correct:
  assumes "xi_rope X cur_at bden delta_ok msk ins_ok"
    and "sel_wf sel" "in_bounds (node_len base) sel" "fits (node_len base)"
  shows "yields X base (replace_op X base sel ch)
    (map (\<lambda>i. if selected sel i then ch else node_bytes base ! i) [0 ..< node_len base] @
     (if selected sel (node_len base) then [ch] else []))"
  using xi_rope.replace_yields [OF assms(1,2,3,4,2,3)] by (simp add: by_offset_map)

text \<open>
  C14: typing a hexadecimal digit in overwrite mode: \<open>overwrite_half\<close> sets the upper half of the
  byte under each caret, keeps its lower half and appends a byte at the end of the document.
\<close>

theorem overwrite_half_correct:
  assumes "xi_rope X cur_at bden delta_ok msk ins_ok"
    and "sel_wf sel" "in_bounds (node_len base) sel" "fits (node_len base)"
  shows "yields X base (overwrite_half X base sel hi)
    (map (\<lambda>i. if careted sel i then node_bytes base ! i AND 0x0F OR hi else node_bytes base ! i)
       [0 ..< node_len base] @ (if careted sel (node_len base) then [hi] else []))"
proof -
  let ?f = "\<lambda>i. (if i < node_len base then node_bytes base ! i AND 0x0F else 0) OR hi"
  have "yields X base (overwrite_half X base sel hi)
      (map (\<lambda>i. if careted sel i then ?f i else node_bytes base ! i) [0 ..< node_len base] @
        (if careted sel (node_len base) then [?f (node_len base)] else []))"
    using xi_rope.overwrite_half_yields [OF assms(1,2,3,4,2,3)] unfolding by_offset_map .
  moreover have "map (\<lambda>i. if careted sel i then ?f i else node_bytes base ! i) [0 ..< node_len base] =
      map (\<lambda>i. if careted sel i then node_bytes base ! i AND 0x0F OR hi else node_bytes base ! i) [0 ..< node_len base]"
    by simp
  moreover have "?f (node_len base) = hi" by simp
  ultimately show ?thesis by (simp only:)
qed

text \<open>
  C13: \<open>p\<close> and \<open>P\<close> insert, for every region, its register entry \<open>count\<close> times after the region
  (capped at the end of the document) or before it; a register with fewer entries than regions
  repeats its last entry. No byte is lost.
\<close>

theorem paste_correct:
  assumes "xi_rope X cur_at bden delta_ok msk ins_ok"
    and "sel_wf sel" "in_bounds (node_len base) sel" "fits (node_len base)" "reg \<noteq> []"
  shows "yields X base (paste X base sel reg after count)
    (by_offset (\<lambda>i. concat (map (\<lambda>k. if (if after then min (node_len base) (Suc (max_r (regions sel ! k)))
                                          else min_r (regions sel ! k)) = i
                                       then concat (replicate count (if k < length reg then reg ! k else last reg))
                                       else []) [0 ..< length (regions sel)])
        @ byte_at (node_bytes base) i)
      (node_bytes base))"
proof (rule xi_rope.built_spliced [OF assms(1) xi_rope.paste_built [OF assms]])
  fix i
  let ?rs = "regions sel" let ?n = "length ?rs"
  have len: "length (padded reg ?n) = ?n" by (simp add: padded_def)
  have nth: "padded reg ?n ! k = (if k < length reg then reg ! k else last reg)" if "k < ?n" for k
    using that by (simp add: padded_def nth_append)
  have z: "zip ?rs (padded reg ?n) = map (\<lambda>k. (?rs ! k, if k < length reg then reg ! k else last reg)) [0 ..< ?n]"
    by (rule nth_equalityI) (simp_all add: len nth)
  show "spliced (map (paste_edit (node_len base) after count) (zip ?rs (padded reg ?n))) (node_bytes base) i =
    concat (map (\<lambda>k. if (if after then min (node_len base) (Suc (max_r (?rs ! k))) else min_r (?rs ! k)) = i
        then concat (replicate count (if k < length reg then reg ! k else last reg)) else []) [0 ..< ?n])
      @ byte_at (node_bytes base) i"
    unfolding z
    by (auto simp: spliced_def paste_edit_def Let_def byte_at_def list_ex_iff o_def cong: if_cong)
qed

text \<open>The properties at a document of four bytes and a selection of two regions.\<close>

definition demo_base :: rope where
  "demo_base = [[0x10, 0x2A], [0x30, 0x4F]]"

definition demo_sel :: selection where
  "demo_sel = \<lparr>regions = [\<lparr>caret = 0, tail = 1, main = True\<rparr>, \<lparr>caret = 3, tail = 3, main = False\<rparr>],
     main_selection = 0\<rparr>"

lemma demo_ok: "sel_wf demo_sel" "flags_ok demo_sel" "in_bounds (node_len demo_base) demo_sel" "fits (node_len demo_base)"
  by (simp_all add: demo_sel_def demo_base_def sel_wf_def flags_ok_def in_bounds_def before_def min_r_def max_r_def
      fits_def isize_max_def All_less_Suc)

lemmas demo_simps = demo_sel_def demo_base_def selected_def careted_def min_r_def max_r_def by_offset_def byte_at_def
  upt_rec

theorem deletion_correct_witness: "yields ref_xi demo_base (deletion ref_xi demo_base demo_sel) [0x30]"
  using deletion_correct [OF ref_xi_rope demo_ok(1,3,4)] by (simp add: demo_simps)

theorem backspace_delete_correct_witness:
  "yields ref_xi demo_base (backspace ref_xi demo_base demo_sel) [0x10, 0x2A, 0x4F] \<and>
   yields ref_xi demo_base (delete_cursor ref_xi demo_base demo_sel) [0x2A, 0x30]"
  using backspace_delete_correct [OF ref_xi_rope demo_ok(1,3,4)] by (simp add: demo_simps)

theorem insert_correct_witness:
  "yields ref_xi demo_base (insert_op ref_xi demo_base demo_sel [[7, 8]]) [7, 8, 0x10, 0x2A, 0x30, 7, 8, 0x4F]"
  using insert_correct [OF ref_xi_rope demo_ok(1,3), of "[[7, 8]]"] by (simp add: demo_simps)

theorem replace_correct_witness:
  "yields ref_xi demo_base (replace_op ref_xi demo_base demo_sel 0xFF) [0xFF, 0xFF, 0x30, 0xFF]"
  using replace_correct [OF ref_xi_rope demo_ok(1,3,4), of "0xFF"] by (simp add: demo_simps)

theorem overwrite_half_correct_witness:
  "yields ref_xi demo_base (overwrite_half ref_xi demo_base demo_sel 0xB0) [0xB0, 0x2A, 0x30, 0xBF]"
  using overwrite_half_correct [OF ref_xi_rope demo_ok(1,3,4), of "0xB0"] by (simp add: demo_simps)

theorem paste_correct_witness:
  "yields ref_xi demo_base (paste ref_xi demo_base demo_sel [[1], [2, 3]] True 2)
     [0x10, 0x2A, 1, 1, 0x30, 0x4F, 2, 3, 2, 3]"
  using paste_correct [OF ref_xi_rope demo_ok(1,3,4), of "[[1], [2, 3]]" True 2]
  by (simp add: demo_simps numeral_2_eq_2)

end
