(* ===== verification/History.thy ===== *)
theory History
  imports Operations
begin

text \<open>
  \<open>src/history.rs\<close>: actions (a delta with its inversion and its chaining), and the history of a
  buffer: the edit being typed (\<open>partial\<close>) and the undo and redo stacks, each entry a delta that
  leads back (or forward again) and the selection to restore. A \<open>Vec\<close> used as a stack keeps its
  top at the end of the list.

  The lemmas show that \<open>invert\<close> inverts, that \<open>chain\<close> composes, and that the stacks of deltas
  implement stacks of snapshots.
\<close>

section \<open>Actions\<close>

record 'd action =
  delta :: 'd

definition from_delta :: "'d \<Rightarrow> 'd action" where
  "from_delta d = \<lparr>delta = d\<rparr>"

definition invert :: "('c, 'b, 'd, 's) xi \<Rightarrow> 'd action \<Rightarrow> rope \<Rightarrow> 'd action" where
  "invert X self base_rope =
     (let (inserts, deletions) = factor X (delta self);
          ins_subset = inserted_subset X inserts;
          deleted_now = without_subset X base_rope (complement X deletions);
          deletions_from_base = transform_expand X deletions ins_subset;
          deletions_from_inverted = ins_subset
      in \<lparr>delta = synthesize X (into_node deleted_now) deletions_from_base deletions_from_inverted\<rparr>)"

definition subsets_for_chain :: "('c, 'b, 'd, 's) xi \<Rightarrow> 'd action \<Rightarrow> 'd \<Rightarrow> 's \<times> 's \<times> 's" where
  "subsets_for_chain X self nxt =
     (let (ins1, del1) = factor X (delta self);
          (ins2, del2) = factor X nxt;
          inserts_in_mid_union = inserted_subset X ins1;
          deletes_from_mid_union = transform_expand X del1 (inserted_subset X ins1);
          union_ins_delta = ins_transform_expand X ins2 deletes_from_mid_union True;
          new_inserts = inserted_subset X union_ins_delta;
          new_deletes =
            (let pre_expand = transform_expand X del2 deletes_from_mid_union
             in if subset_is_empty X new_inserts then pre_expand
                else transform_expand X pre_expand new_inserts);
          rebased_deletes_from_union = transform_expand X deletes_from_mid_union new_inserts;
          deletes_from_union = subset_union X rebased_deletes_from_union new_deletes;
          rebased_inserts_in_union = transform_expand X inserts_in_mid_union new_inserts;
          inserts_in_union = subset_union X rebased_inserts_in_union new_inserts;
          inserts_in_mid_text = transform_shrink X inserts_in_mid_union deletes_from_mid_union;
          prefinal_insertion = inserted_subset X ins2;
          inserts_in_prefinal = transform_union X inserts_in_mid_text prefinal_insertion
      in (inserts_in_union, deletes_from_union, inserts_in_prefinal))"

definition chain :: "('c, 'b, 'd, 's) xi \<Rightarrow> 'd action \<Rightarrow> rope \<Rightarrow> 'd \<Rightarrow> 'd action res" where
  "chain X self after_self nxt =
     rbind (rope_apply_delta X after_self (fst (factor X nxt))) (\<lambda>after_next.
     let (inserted, deleted, inserts_in_prefinal) = subsets_for_chain X self nxt;
         tombstones = without_subset X after_next (complement X inserts_in_prefinal)
     in Inr \<lparr>delta = synthesize X (into_node tombstones) inserted deleted\<rparr>)"

section \<open>The history\<close>

record 'd history =
  partial :: "('d action \<times> selection) option"
  undo :: "('d action \<times> selection) list"
  redo :: "('d action \<times> selection) list"

definition history_new :: "'d history" where
  "history_new = \<lparr>partial = None, undo = [], redo = []\<rparr>"

definition perform_final :: "('c, 'b, 'd, 's) xi \<Rightarrow> 'd history \<Rightarrow> rope \<Rightarrow> 'd \<Rightarrow> selection \<Rightarrow> 'd history" where
  "perform_final X h current_rope d sel =
     h\<lparr>undo := undo h @ [(invert X (from_delta d) current_rope, sel)], redo := []\<rparr>"

definition perform_partial :: "('c, 'b, 'd, 's) xi \<Rightarrow> 'd history \<Rightarrow> rope \<Rightarrow> 'd \<Rightarrow> selection \<Rightarrow> 'd history res" where
  "perform_partial X h current_rope d sel =
     (let this_inversion = invert X (from_delta d) current_rope
      in rbind (case partial h of
             None \<Rightarrow> Inr (this_inversion, sel)
           | Some (act, old_sel) \<Rightarrow>
               rbind (chain X this_inversion current_rope (delta act)) (\<lambda>c. Inr (c, old_sel)))
         (\<lambda>replaced. Inr (h\<lparr>partial := Some replaced\<rparr>)))"

definition commit_partial :: "'d history \<Rightarrow> 'd history" where
  "commit_partial h =
     (case partial h of
        None \<Rightarrow> h
      | Some entry \<Rightarrow> h\<lparr>partial := None, undo := undo h @ [entry], redo := []\<rparr>)"

definition history_undo ::
  "('c, 'b, 'd, 's) xi \<Rightarrow> 'd history \<Rightarrow> rope \<Rightarrow> selection \<Rightarrow> 'd history \<times> ('d \<times> selection) option" where
  "history_undo X h current_rope sel =
     (if undo h = [] then (h, None)
      else let (act, old_selection) = last (undo h)
           in (h\<lparr>undo := butlast (undo h), redo := redo h @ [(invert X act current_rope, sel)]\<rparr>,
               Some (delta act, old_selection)))"

definition history_redo ::
  "('c, 'b, 'd, 's) xi \<Rightarrow> 'd history \<Rightarrow> rope \<Rightarrow> selection \<Rightarrow> 'd history \<times> ('d \<times> selection) option" where
  "history_redo X h current_rope sel =
     (if redo h = [] then (h, None)
      else let (act, old_selection) = last (redo h)
           in (h\<lparr>redo := butlast (redo h), undo := undo h @ [(invert X act current_rope, sel)]\<rparr>,
               Some (delta act, old_selection)))"

section \<open>Inverting and chaining\<close>

text \<open>\<open>moves X delta_ok d xs ys\<close>: the delta takes every document with bytes \<open>xs\<close> to one with bytes \<open>ys\<close>.\<close>

definition moves :: "('c, 'b, 'd, 's) xi \<Rightarrow> ('d \<Rightarrow> bool) \<Rightarrow> 'd \<Rightarrow> bytes \<Rightarrow> bytes \<Rightarrow> bool" where
  "moves X delta_ok d xs ys \<longleftrightarrow> delta_ok d \<and> delta_base_len X d = length xs \<and>
     (\<forall>b. node_bytes b = xs \<longrightarrow> (\<exists>r. delta_apply X d b = Inr r \<and> node_bytes r = ys))"

context xi_history
begin

lemma movesI:
  assumes "delta_ok d" "delta_base_len X d = length xs"
    and "\<And>b r. node_bytes b = xs \<Longrightarrow> delta_apply X d b = Inr r \<Longrightarrow> node_bytes r = ys"
  shows "moves X delta_ok d xs ys"
  unfolding moves_def
proof (intro conjI allI impI)
  fix b :: node assume b: "node_bytes b = xs"
  then have "node_len b = delta_base_len X d" using assms(2) by simp
  then obtain r where "delta_apply X d b = Inr r" using delta_applies [OF assms(1)] by blast
  with assms(3) [OF b] show "\<exists>r. delta_apply X d b = Inr r \<and> node_bytes r = ys" by blast
qed (use assms in simp_all)

lemma moves_applied:
  assumes "delta_ok d" "node_len base = delta_base_len X d" "delta_apply X d base = Inr r"
  shows "moves X delta_ok d (node_bytes base) (node_bytes r)"
proof (rule movesI [OF assms(1)])
  show "node_bytes r' = node_bytes r" if "node_bytes b = node_bytes base" "delta_apply X d b = Inr r'" for b r'
    using delta_apply_bytes [OF assms(1) that(1) that(2) assms(3)] .
qed (simp add: assms(2))

text \<open>The union of the bytes of a delta's two ends, with what it inserts and what it deletes.\<close>

lemma moves_factor:
  assumes m: "moves X delta_ok d xs ys" and f: "factor X d = (i, dl)" and b: "node_bytes b = xs"
  obtains u where "delta_apply X i b = Inr u"
    and "ins_ok i" "delta_base_len X i = length xs" "length (mask dl) = length xs"
    and "outside (mask (inserted_subset X i)) = length xs"
    and "length (mask (inserted_subset X i)) = node_len u"
    and "keep (mask (inserted_subset X i)) (node_bytes u) = xs"
    and "ys = keep (expand (mask dl) (mask (inserted_subset X i))) (node_bytes u)"
proof -
  have d: "delta_ok d" "delta_base_len X d = length xs" using m by (auto simp: moves_def)
  note i = factor_ok [OF d(1) f]
  obtain u where u: "delta_apply X i b = Inr u"
    using delta_applies [of i b] ins_delta_ok i d b by auto
  obtain r where r: "delta_apply X d b = Inr r" "node_bytes r = ys"
    using m b by (auto simp: moves_def)
  have n: "node_len b = delta_base_len X i" "node_len b = delta_base_len X d"
    using i d b by simp_all
  have "length (mask (inserted_subset X i)) = node_len u"
    "keep (mask (inserted_subset X i)) (node_bytes u) = xs"
    using inserted_subset_apply [OF _ n(1) u] i b by simp_all
  moreover have "ys = keep (expand (mask dl) (mask (inserted_subset X i))) (node_bytes u)"
    using factor_apply [OF d(1) f n(2) r(1) u] r(2) by simp
  moreover have "outside (mask (inserted_subset X i)) = length xs"
    using inserted_subset_len [of i] i d by simp
  ultimately show ?thesis using that [OF u] i d(2) by simp
qed

lemma synthesize_moves:
  assumes "length (mask f) = length un" "length (mask t) = length un"
    and tomb: "node_bytes tomb = select (mask f) un" and "xs = keep (mask f) un" "ys = keep (mask t) un"
  shows "moves X delta_ok (synthesize X tomb f t) xs ys"
proof (rule movesI)
  have "node_len tomb + outside (mask f) = length (mask f)"
    unfolding tomb using assms(1) by (rule length_select_outside)
  with synthesize_ok [of f t tomb] assms
  show "delta_ok (synthesize X tomb f t)" "delta_base_len X (synthesize X tomb f t) = length xs"
    by (simp_all add: length_keep)
  show "node_bytes r = ys" if "node_bytes b = xs" "delta_apply X (synthesize X tomb f t) b = Inr r" for b r
    using synthesize_apply [OF assms(1-3) _ that(2)] that(1) assms(4,5) by simp
qed

lemma invert_moves:
  assumes m: "moves X delta_ok d (node_bytes base) ys"
  shows "moves X delta_ok (delta (invert X (from_delta d) base)) ys (node_bytes base)"
proof -
  obtain i dl where f: "factor X d = (i, dl)" by force
  obtain u where u: "outside (mask (inserted_subset X i)) = node_len base" "length (mask dl) = node_len base"
      "length (mask (inserted_subset X i)) = node_len u"
      "keep (mask (inserted_subset X i)) (node_bytes u) = node_bytes base"
      "ys = keep (expand (mask dl) (mask (inserted_subset X i))) (node_bytes u)"
    using moves_factor [OF m f refl] by metis
  let ?I = "mask (inserted_subset X i)" and ?tomb = "delete_from X (complement X dl) base"
  have D: "mask (transform_expand X dl (inserted_subset X i)) = expand (mask dl) ?I"
    using u by (simp add: mask_transform_expand)
  have tomb: "node_bytes ?tomb = select (expand (mask dl) ?I) (node_bytes u)"
    using u by (simp add: mask_delete_from mask_complement keep_Not_select select_expand)
  have inv: "delta (invert X (from_delta d) base) =
      synthesize X ?tomb (transform_expand X dl (inserted_subset X i)) (inserted_subset X i)"
    by (simp add: invert_def from_delta_def f without_subset_def into_node_def Let_def)
  show ?thesis unfolding inv
    by (rule synthesize_moves [OF _ _ tomb [folded D]]) (use D u in simp_all)
qed

lemma subsets_for_chain_masks:
  fixes a nxt ins1 del1 ins2 del2
  defines "N \<equiv> inserted_subset X (ins_transform_expand X ins2 (transform_expand X del1 (inserted_subset X ins1)) True)"
  assumes f: "factor X (delta a) = (ins1, del1)" "factor X nxt = (ins2, del2)"
    and im: "im = mask (inserted_subset X ins1)" and n: "n = mask N" and dm: "dm = expand (mask del1) im"
    and o: "outside im = length (mask del1)" "outside n = length dm" "outside dm = length (mask del2)"
      "mask (inserted_subset X ins2) = keep (expand dm n) n"
  obtains J D P where "subsets_for_chain X a nxt = (J, D, P)" "mask J = mask_union (expand im n) n"
    "mask D = mask_union (expand dm n) (expand (expand (mask del2) dm) n)"
    "mask P = expand_union (keep dm im) (keep (expand dm n) n)"
proof -
  let ?DM = "transform_expand X del1 (inserted_subset X ins1)"
  have DM: "mask ?DM = dm" using o by (simp add: dm im mask_transform_expand)
  have len: "length dm = length im" by (simp add: dm)
  let ?pre = "transform_expand X del2 ?DM"
  let ?ND = "if subset_is_empty X N then ?pre else transform_expand X ?pre N"
  have pre: "mask ?pre = expand (mask del2) dm" using DM o by (simp add: mask_transform_expand)
  have nd: "mask ?ND = expand (expand (mask del2) dm) n"
  proof (cases "subset_is_empty X N")
    case True
    then have no: "True \<notin> set n" by (simp add: subset_is_empty_mask n)
    then have "outside n = length n" by (metis (full_types) filter_True outside_def)
    with True no pre o show ?thesis by (simp add: expand_no_subset)
  qed (use pre o in \<open>simp add: mask_transform_expand n\<close>)
  have R: "mask (transform_expand X ?DM N) = expand dm n" using DM o by (simp add: mask_transform_expand n)
  have RI: "mask (transform_expand X (inserted_subset X ins1) N) = expand im n"
    using o len by (simp add: mask_transform_expand n im)
  have sh: "mask (transform_shrink X (inserted_subset X ins1) ?DM) = keep dm im"
    using DM len by (simp add: mask_transform_shrink im)
  have o': "outside (keep (expand dm n) n) = length (keep dm im)"
    using o len by (simp add: outside_keep_expand length_keep)
  show ?thesis
  proof (rule that)
    show "subsets_for_chain X a nxt = (subset_union X (transform_expand X (inserted_subset X ins1) N) N,
        subset_union X (transform_expand X ?DM N) ?ND,
        transform_union X (transform_shrink X (inserted_subset X ins1) ?DM) (inserted_subset X ins2))"
      by (simp add: subsets_for_chain_def f N_def Let_def)
  qed (use R RI nd sh o o' in \<open>simp_all add: mask_subset_union mask_transform_union n\<close>)
qed

lemma chain_moves:
  assumes m1: "moves X delta_ok (delta a) xs (node_bytes mid)" and m2: "moves X delta_ok nxt (node_bytes mid) zs"
  shows "\<exists>c. chain X a mid nxt = Inr c \<and> moves X delta_ok (delta c) xs zs"
proof -
  obtain ins1 del1 where f1: "factor X (delta a) = (ins1, del1)" by force
  obtain ins2 del2 where f2: "factor X nxt = (ins2, del2)" by force
  let ?I = "inserted_subset X ins1" let ?DM = "transform_expand X del1 ?I"
  let ?ud = "ins_transform_expand X ins2 ?DM True"
  define im dm n where "im = mask ?I" and "dm = expand (mask del1) im" and "n = mask (inserted_subset X ?ud)"
  obtain u1 where u1: "outside im = length xs" "length (mask del1) = length xs" "length im = node_len u1"
      "keep im (node_bytes u1) = xs" "node_bytes mid = keep dm (node_bytes u1)"
    using moves_factor [OF m1 f1, of "[xs]"] unfolding im_def dm_def by auto
  obtain p where p: "delta_apply X ins2 mid = Inr p" "ins_ok ins2" "delta_base_len X ins2 = node_len mid"
      "length (mask del2) = node_len mid" "outside (mask (inserted_subset X ins2)) = node_len mid"
      "length (mask (inserted_subset X ins2)) = node_len p"
      "zs = keep (expand (mask del2) (mask (inserted_subset X ins2))) (node_bytes p)"
    using moves_factor [OF m2 f2 refl] by metis
  have DM: "mask ?DM = dm" using u1 by (simp add: dm_def im_def mask_transform_expand)
  have len_dm: "length dm = node_len u1" using u1 by (simp add: dm_def)
  have out_dm: "outside dm = node_len mid" unfolding u1(5) using len_dm by (simp add: length_keep)
  have ud: "ins_ok ?ud" "delta_base_len X ?ud = length dm"
    using ins_expand_ok [of ins2 ?DM True] p out_dm DM by simp_all
  obtain uf where uf: "delta_apply X ?ud u1 = Inr uf"
    using delta_applies [of ?ud u1] ins_delta_ok [OF ud(1)] ud(2) len_dm by auto
  have n: "length n = node_len uf" "keep n (node_bytes uf) = node_bytes u1" "outside n = length dm"
    using inserted_subset_apply [OF ud(1) _ uf] inserted_subset_len [OF ud(1)] ud(2) len_dm
    by (simp_all add: n_def)
  have p_bytes: "node_bytes p = keep (expand dm n) (node_bytes uf)"
    using ins_expand_apply [OF p(2) _ _ _ p(1) uf] out_dm len_dm u1(5) DM p(3) by (simp add: n_def)
  have p_mask: "mask (inserted_subset X ins2) = keep (expand dm n) n"
    using ins_expand_inserted [OF p(2), of ?DM True] out_dm p DM by (simp add: n_def)
  obtain J D P where JDP: "subsets_for_chain X a nxt = (J, D, P)" "mask J = mask_union (expand im n) n"
    "mask D = mask_union (expand dm n) (expand (expand (mask del2) dm) n)"
    "mask P = expand_union (keep dm im) (keep (expand dm n) n)"
    using subsets_for_chain_masks [OF f1 f2 im_def n_def dm_def _ n(3) _ p_mask] u1 out_dm p by metis
  note un = chain_union [OF dm_def _ n(3) _ n(1), of "mask del2"]
  let ?c = "synthesize X (delete_from X (complement X P) p) J D"
  have "chain X a mid nxt = Inr \<lparr>delta = ?c\<rparr>"
    using p(1) JDP(1) by (simp add: chain_def rope_apply_delta_def f2 without_subset_def into_node_def)
  moreover have "moves X delta_ok ?c xs zs"
  proof (rule synthesize_moves)
    show "node_bytes (delete_from X (complement X P) p) = select (mask J) (node_bytes uf)"
      using p p_mask JDP p_bytes un(3) u1 out_dm by (simp add: mask_delete_from mask_complement keep_Not_select)
  qed (use JDP un u1 n p p_mask p_bytes out_dm in simp_all)
  ultimately show ?thesis by auto
qed

end

section \<open>The history as stacks of snapshots\<close>

text \<open>
  The abstract history: what the document and the selection were before the edit being typed, and
  the snapshots to go back and forward to, nearest first.
\<close>

type_synonym snapshot = "bytes \<times> selection"

record snapshots =
  typing :: "snapshot option"
  past :: "snapshot list"
  future :: "snapshot list"

definition snap_final :: "snapshots \<Rightarrow> snapshot \<Rightarrow> snapshots" where
  "snap_final S now = S\<lparr>past := now # past S, future := []\<rparr>"

definition snap_partial :: "snapshots \<Rightarrow> snapshot \<Rightarrow> snapshots" where
  "snap_partial S now = S\<lparr>typing := Some (case typing S of None \<Rightarrow> now | Some p \<Rightarrow> p)\<rparr>"

definition snap_commit :: "snapshots \<Rightarrow> snapshots" where
  "snap_commit S = (case typing S of None \<Rightarrow> S
     | Some p \<Rightarrow> S\<lparr>typing := None, past := p # past S, future := []\<rparr>)"

definition snap_undo :: "snapshots \<Rightarrow> snapshot \<Rightarrow> snapshots \<times> snapshot option" where
  "snap_undo S now = (case past S of [] \<Rightarrow> (S, None)
     | p # ps \<Rightarrow> (S\<lparr>past := ps, future := now # future S\<rparr>, Some p))"

definition snap_redo :: "snapshots \<Rightarrow> snapshot \<Rightarrow> snapshots \<times> snapshot option" where
  "snap_redo S now = (case future S of [] \<Rightarrow> (S, None)
     | p # ps \<Rightarrow> (S\<lparr>future := ps, past := now # past S\<rparr>, Some p))"

text \<open>The deltas of a stack lead, one after the other, through the bytes of the snapshots.\<close>

fun trail :: "('c, 'b, 'd, 's) xi \<Rightarrow> ('d \<Rightarrow> bool) \<Rightarrow> bytes \<Rightarrow> ('d action \<times> selection) list \<Rightarrow> snapshot list \<Rightarrow> bool" where
  "trail X delta_ok xs [] ps \<longleftrightarrow> ps = []"
| "trail X delta_ok xs ((a, s) # es) ps \<longleftrightarrow>
     (case ps of [] \<Rightarrow> False
      | (ys, s') # ps' \<Rightarrow> s = s' \<and> moves X delta_ok (delta a) xs ys \<and> trail X delta_ok ys es ps')"

definition committed :: "snapshots \<Rightarrow> bytes \<Rightarrow> bytes" where
  "committed S xs = (case typing S of None \<Rightarrow> xs | Some (b, _) \<Rightarrow> b)"

definition hist_rel :: "('c, 'b, 'd, 's) xi \<Rightarrow> ('d \<Rightarrow> bool) \<Rightarrow> 'd history \<Rightarrow> bytes \<Rightarrow> snapshots \<Rightarrow> bool" where
  "hist_rel X delta_ok h xs S \<longleftrightarrow>
     (case (partial h, typing S) of
        (None, None) \<Rightarrow> True
      | (Some (a, s), Some (b, s')) \<Rightarrow> s = s' \<and> moves X delta_ok (delta a) xs b
      | _ \<Rightarrow> False) \<and>
     trail X delta_ok (committed S xs) (rev (undo h)) (past S) \<and>
     trail X delta_ok (committed S xs) (rev (redo h)) (future S)"

context xi_history
begin

lemma invert_action_moves:
  "moves X delta_ok (delta a) (node_bytes base) ys \<Longrightarrow> moves X delta_ok (delta (invert X a base)) ys (node_bytes base)"
  using invert_moves [of "delta a" base ys] by (cases a) (simp add: from_delta_def)

lemma history_new_rel: "hist_rel X delta_ok history_new xs \<lparr>typing = None, past = [], future = []\<rparr>"
  by (simp add: hist_rel_def history_new_def)

lemma perform_final_rel:
  assumes "hist_rel X delta_ok h (node_bytes base) S" "typing S = None"
    and "moves X delta_ok d (node_bytes base) ys"
  shows "hist_rel X delta_ok (perform_final X h base d sel) ys (snap_final S (node_bytes base, sel))"
  using assms invert_moves [OF assms(3)]
  by (auto simp: hist_rel_def perform_final_def snap_final_def committed_def split: option.splits)

lemma perform_partial_rel:
  assumes r: "hist_rel X delta_ok h (node_bytes base) S" and m: "moves X delta_ok d (node_bytes base) ys"
  shows "\<exists>h'. perform_partial X h base d sel = Inr h' \<and>
    hist_rel X delta_ok h' ys (snap_partial S (node_bytes base, sel))"
proof (cases "partial h")
  case None
  with r have "typing S = None" by (auto simp: hist_rel_def split: option.splits)
  with None r invert_moves [OF m] show ?thesis
    by (simp add: perform_partial_def hist_rel_def snap_partial_def committed_def)
next
  case (Some p)
  obtain a s where p: "p = (a, s)" by force
  with Some r obtain b where b: "typing S = Some (b, s)" "moves X delta_ok (delta a) (node_bytes base) b"
    by (auto simp: hist_rel_def split: option.splits)
  from chain_moves [OF invert_moves [OF m] b(2)] obtain c where
    "chain X (invert X (from_delta d) base) base (delta a) = Inr c" "moves X delta_ok (delta c) ys b" by auto
  with Some p b r show ?thesis
    by (simp add: perform_partial_def hist_rel_def snap_partial_def committed_def)
qed

lemma commit_partial_rel:
  "hist_rel X delta_ok h xs S \<Longrightarrow> hist_rel X delta_ok (commit_partial h) xs (snap_commit S)"
  by (auto simp: hist_rel_def commit_partial_def snap_commit_def committed_def split: option.splits prod.splits)

lemma trail_pop:
  "trail X delta_ok xs (rev es) ps \<Longrightarrow> es \<noteq> [] \<Longrightarrow> \<exists>ys ps'. ps = (ys, snd (last es)) # ps' \<and>
    moves X delta_ok (delta (fst (last es))) xs ys \<and> trail X delta_ok ys (rev (butlast es)) ps'"
  by (cases es rule: rev_cases) (auto split: list.splits prod.splits)

lemma trail_empty: "trail X delta_ok xs (rev es) ps \<Longrightarrow> es = [] \<longleftrightarrow> ps = []"
  by (cases es rule: rev_cases) (auto split: list.splits prod.splits)

lemma history_undo_rel:
  assumes r: "hist_rel X delta_ok h (node_bytes base) S" and t: "typing S = None"
  shows "case history_undo X h base sel of
      (h', None) \<Rightarrow> h' = h \<and> snap_undo S (node_bytes base, sel) = (S, None)
    | (h', Some (d, s)) \<Rightarrow> (\<exists>ys S'. snap_undo S (node_bytes base, sel) = (S', Some (ys, s)) \<and> typing S' = None \<and>
        moves X delta_ok d (node_bytes base) ys \<and> hist_rel X delta_ok h' ys S')"
proof (cases "undo h = []")
  case True
  with r t trail_empty show ?thesis
    by (auto simp: hist_rel_def history_undo_def snap_undo_def committed_def)
next
  case False
  from r t have u: "trail X delta_ok (node_bytes base) (rev (undo h)) (past S)"
    by (simp add: hist_rel_def committed_def)
  obtain a s where l: "last (undo h) = (a, s)" by force
  from trail_pop [OF u False] l obtain ys ps where "past S = (ys, s) # ps"
    "moves X delta_ok (delta a) (node_bytes base) ys" "trail X delta_ok ys (rev (butlast (undo h))) ps" by auto
  with r t False l invert_action_moves show ?thesis
    by (auto simp: hist_rel_def history_undo_def snap_undo_def committed_def split: option.splits)
qed

lemma history_redo_rel:
  assumes r: "hist_rel X delta_ok h (node_bytes base) S" and t: "typing S = None"
  shows "case history_redo X h base sel of
      (h', None) \<Rightarrow> h' = h \<and> snap_redo S (node_bytes base, sel) = (S, None)
    | (h', Some (d, s)) \<Rightarrow> (\<exists>ys S'. snap_redo S (node_bytes base, sel) = (S', Some (ys, s)) \<and> typing S' = None \<and>
        moves X delta_ok d (node_bytes base) ys \<and> hist_rel X delta_ok h' ys S')"
proof (cases "redo h = []")
  case True
  with r t trail_empty show ?thesis
    by (auto simp: hist_rel_def history_redo_def snap_redo_def committed_def)
next
  case False
  from r t have u: "trail X delta_ok (node_bytes base) (rev (redo h)) (future S)"
    by (simp add: hist_rel_def committed_def)
  obtain a s where l: "last (redo h) = (a, s)" by force
  from trail_pop [OF u False] l obtain ys ps where "future S = (ys, s) # ps"
    "moves X delta_ok (delta a) (node_bytes base) ys" "trail X delta_ok ys (rev (butlast (redo h))) ps" by auto
  with r t False l invert_action_moves show ?thesis
    by (auto simp: hist_rel_def history_redo_def snap_redo_def committed_def split: option.splits)
qed

end

section \<open>Correctness of the history\<close>

text \<open>
  C7: \<open>invert\<close> is an inverse: whatever delta was applied to a document, applying the inverted
  action to the result gives back the bytes of the document, for every delta of the rope library
  and every representation of the result.
\<close>

theorem invert_correct:
  assumes "xi_rope X cur_at bden delta_ok msk ins_ok"
    and "delta_ok d" "delta_base_len X d = node_len base" "rope_apply_delta X base d = Inr after"
    and "node_bytes after' = node_bytes after"
  shows "\<exists>r. rope_apply_delta X after' (delta (invert X (from_delta d) base)) = Inr r \<and>
    node_bytes r = node_bytes base"
proof -
  have h: "xi_history X bden delta_ok msk ins_ok" using assms(1) by (simp add: xi_rope_def)
  show ?thesis
    using xi_history.invert_moves [OF h xi_history.moves_applied [OF h assms(2)], of base after] assms(3-5)
    by (simp add: rope_apply_delta_def moves_def)
qed

theorem invert_correct_witness:
  "\<exists>r. rope_apply_delta ref_xi [[2, 3], []] (delta (invert ref_xi (from_delta (simple_edit ref_xi (Interval 0 1) [] 3)) [[1, 2, 3]])) = Inr r \<and>
    node_bytes r = [1, 2, 3]"
proof -
  have d: "delta_base_len ref_xi (simple_edit ref_xi (Interval 0 1) [] 3) = node_len [[1, 2, 3]]"
    "rope_apply_delta ref_xi [[1, 2, 3]] (simple_edit ref_xi (Interval 0 1) [] 3) = Inr [[2, 3]]"
    by code_simp+
  show ?thesis using invert_correct [OF ref_xi_rope _ d, of "[[2, 3], []]"] by simp
qed

text \<open>
  C8: \<open>chain\<close> composes: if an action leads from \<open>xs\<close> to the middle document and \<open>next\<close> from
  there to \<open>zs\<close>, chaining them does not panic and gives one delta from \<open>xs\<close> to \<open>zs\<close>.
\<close>

theorem chain_correct:
  assumes "xi_rope X cur_at bden delta_ok msk ins_ok"
    and "moves X delta_ok (delta a) xs (node_bytes mid)" "moves X delta_ok nxt (node_bytes mid) zs"
  shows "\<exists>c. chain X a mid nxt = Inr c \<and> moves X delta_ok (delta c) xs zs"
  using xi_history.chain_moves assms by (metis xi_rope_def)

lemma demo_moves:
  "moves ref_xi (\<lambda>_. True) (simple_edit ref_xi (Interval 0 1) [] 3) [1, 2, 3] [2, 3]"
  "moves ref_xi (\<lambda>_. True) (simple_edit ref_xi (Interval 1 1) [[9]] 2) [2, 3] [2, 9, 3]"
proof -
  have "node_len [[1, 2, 3]] = delta_base_len ref_xi (simple_edit ref_xi (Interval 0 1) [] 3)"
    "delta_apply ref_xi (simple_edit ref_xi (Interval 0 1) [] 3) [[1, 2, 3]] = Inr [[2, 3]]"
    by code_simp+
  from ref_hist.moves_applied [OF TrueI this]
  show "moves ref_xi (\<lambda>_. True) (simple_edit ref_xi (Interval 0 1) [] 3) [1, 2, 3] [2, 3]" by simp
  have "node_len [[2, 3]] = delta_base_len ref_xi (simple_edit ref_xi (Interval 1 1) [[9]] 2)"
    "delta_apply ref_xi (simple_edit ref_xi (Interval 1 1) [[9]] 2) [[2, 3]] = Inr [[2, 9, 3]]"
    by code_simp+
  from ref_hist.moves_applied [OF TrueI this]
  show "moves ref_xi (\<lambda>_. True) (simple_edit ref_xi (Interval 1 1) [[9]] 2) [2, 3] [2, 9, 3]" by simp
qed

theorem chain_correct_witness:
  "\<exists>c. chain ref_xi \<lparr>delta = simple_edit ref_xi (Interval 0 1) [] 3\<rparr> [[2, 3]]
      (simple_edit ref_xi (Interval 1 1) [[9]] 2) = Inr c \<and>
    moves ref_xi (\<lambda>_. True) (delta c) [1, 2, 3] [2, 9, 3]"
  using chain_correct [OF ref_xi_rope, of "\<lparr>delta = simple_edit ref_xi (Interval 0 1) [] 3\<rparr>" "[1, 2, 3]" "[[2, 3]]"
      "simple_edit ref_xi (Interval 1 1) [[9]] 2" "[2, 9, 3]"] demo_moves by simp

end
