(* ===== verification/Current_Buffer.thy ===== *)
theory Current_Buffer
  imports History
begin

text \<open>
  \<open>src/current_buffer.rs\<close>: a buffer (document, selection, registers, history, path) with every
  operation on it, and the collection of open buffers.

  A \<open>char\<close> is its code point, a \<open>String\<close> and a path the list of theirs. The file system is the
  record \<open>fs\<close>: which file a path leads to, the files with their content, which of them can be opened
  and which can be written completely, which operations on an open file fail, how many bytes a failing
  write leaves in the file (\<open>None\<close> when the file cannot even be opened for writing, which truncates it),
  the text of the error an operation reports, and how much a \<open>read\<close> returns of what it could return. An \<open>std::io::Result\<close> is a sum with the error on the left, inside the \<open>res\<close> of
  the panics.
\<close>

section \<open>Strings and the file system\<close>

type_synonym rchar = nat
type_synonym rstring = "rchar list"
type_synonym path = rstring

definition chr :: "char \<Rightarrow> rchar" where
  "chr c = of_char c"

definition str :: "string \<Rightarrow> rstring" where
  "str s = map chr s"

datatype io_error = IoError rstring

type_synonym 'a io = "io_error + 'a"

datatype file_op = Metadata | Seek | Read

record fs =
  resolve :: "path \<Rightarrow> path"
  files :: "path \<rightharpoonup> bytes"
  readable :: "path \<Rightarrow> bool"
  file_error :: "path \<Rightarrow> file_op \<Rightarrow> bool"
  writable :: "path \<Rightarrow> bool"
  left_over :: "path \<Rightarrow> nat option"
  err_text :: "path \<Rightarrow> rstring"
  read_some :: "nat \<Rightarrow> nat"

definition fs_open :: "fs \<Rightarrow> path \<Rightarrow> bytes io" where
  "fs_open F p =
     (case files F (resolve F p) of
        Some c \<Rightarrow> if readable F (resolve F p) then Inr c else Inl (IoError (err_text F p))
      | None \<Rightarrow> Inl (IoError (err_text F p)))"

definition fs_canonicalize :: "fs \<Rightarrow> path \<Rightarrow> path io" where
  "fs_canonicalize F p =
     (case files F (resolve F p) of
        Some _ \<Rightarrow> Inr (resolve F p)
      | None \<Rightarrow> Inl (IoError (err_text F p)))"

definition fs_write :: "fs \<Rightarrow> path \<Rightarrow> bytes \<Rightarrow> unit io \<times> fs" where
  "fs_write F p bs =
     (if writable F (resolve F p) then (Inr (), F\<lparr>files := (files F)(resolve F p \<mapsto> bs)\<rparr>)
      else (Inl (IoError (err_text F p)),
            case left_over F (resolve F p) of
              None \<Rightarrow> F
            | Some n \<Rightarrow> F\<lparr>files := (files F)(resolve F p \<mapsto> take n bs)\<rparr>))"

text \<open>The first operation on the open file that fails ends a sequence of them with its error.\<close>

definition fs_ops :: "fs \<Rightarrow> path \<Rightarrow> file_op list \<Rightarrow> unit io" where
  "fs_ops F p ops = (if list_ex (file_error F (resolve F p)) ops then Inl (IoError (err_text F p)) else Inr ())"

text \<open>One \<open>read\<close> at a position: at most the requested and the remaining number of bytes.\<close>

definition fs_read :: "fs \<Rightarrow> bytes \<Rightarrow> nat \<Rightarrow> nat \<Rightarrow> bytes" where
  "fs_read F content pos wanted =
     take (read_some F (min wanted (length content - pos))) (drop pos content)"

text \<open>
  A device without errors on open files, and what the operating system promises of \<open>read\<close>: nothing only
  when nothing is left or wanted.
\<close>

definition fs_ok :: "fs \<Rightarrow> bool" where
  "fs_ok F \<longleftrightarrow> (\<forall>n. read_some F n \<le> n \<and> (0 < n \<longrightarrow> 0 < read_some F n)) \<and> (\<forall>p op. \<not> file_error F p op)"

lemma fs_ops_ok [simp]: "fs_ok F \<Longrightarrow> fs_ops F p ops = Inr ()"
  by (auto simp: fs_ok_def fs_ops_def list_ex_iff)

section \<open>The buffer\<close>

datatype dirty_bytes = ChangeInPlace "interval list" | ChangeLength

datatype overflow_selection_style = Cursor | Tail | CursorTail

record 'd buffer =
  path :: "path option"
  data :: rope
  selection :: selection
  registers :: "rchar \<rightharpoonup> bytes list"
  dirty :: bool
  history :: "'d history"
  data_start_offset :: nat

definition buffer_default :: "'d buffer" where
  "buffer_default = \<lparr>path = None, data = [], selection = selection_new, registers = Map.empty,
     dirty = False, history = history_new, data_start_offset = 0\<rparr>"

definition from_data_and_path :: "('c, 'b, 'd, 's) xi \<Rightarrow> bytes \<Rightarrow> path option \<Rightarrow> 'd buffer" where
  "from_data_and_path X bs p = \<lparr>path = p, data = rope_from_vec X bs, selection = selection_new,
     registers = Map.empty, dirty = False, history = history_new, data_start_offset = 0\<rparr>"

definition load_next_chunk :: "('c, 'b, 'd, 's) xi \<Rightarrow> fs \<Rightarrow> 'd buffer \<Rightarrow> nat \<Rightarrow> (bool io \<times> 'd buffer) res" where
  "load_next_chunk X F b chunk_size =
     (case path b of
        None \<Rightarrow> Inr (Inr False, b)
      | Some p \<Rightarrow>
          (case fs_open F p of
             Inl err \<Rightarrow> Inr (Inl err, b)
           | Inr content \<Rightarrow>
               (case fs_ops F p [Metadata, Seek, Read] of
                  Inl err \<Rightarrow> Inr (Inl err, b)
                | Inr _ \<Rightarrow>
                    let next_chunk = fs_read F content (rope_len (data b)) chunk_size
                    in if 0 < length next_chunk
                       then let chunk_node = tree_build X [next_chunk]
                            in rbind (interval_new X (rope_len (data b)) (rope_len (data b))) (\<lambda>iv.
                               let d = simple_edit X iv chunk_node (rope_len (data b))
                               in rbind (rope_apply_delta X (data b) d) (\<lambda>r.
                                  Inr (Inr True, b\<lparr>data := r\<rparr>)))
                       else Inr (Inr False, b))))"

definition buffer_name :: "'d buffer \<Rightarrow> rstring" where
  "buffer_name b = (case path b of Some p \<Rightarrow> p | None \<Rightarrow> str ''*scratch*'')"

definition region_interval :: "('c, 'b, 'd, 's) xi \<Rightarrow> selregion \<Rightarrow> interval res" where
  "region_interval X r = interval_incl X (min_r r) (max_r r)"

text \<open>The loop that joins the sorted intervals which touch.\<close>

definition push_interval :: "('c, 'b, 'd, 's) xi \<Rightarrow> interval list \<Rightarrow> interval \<Rightarrow> interval list" where
  "push_interval X acc r =
     (if acc = [] then [r]
      else if interval_contains X (last acc) (iv_start r)
           then butlast acc @ [interval_union X (last acc) r]
           else acc @ [r])"

definition record_ranges :: "('c, 'b, 'd, 's) xi \<Rightarrow> 'st region_closure \<Rightarrow> (interval list \<times> 'st) region_closure" where
  "record_ranges X f = (\<lambda>(inv, st) region.
     rbind (region_interval X region) (\<lambda>iv.
     rbind (f st region) (\<lambda>(st', new).
     rbind (rmap (region_interval X) new) (\<lambda>ivs.
     Inr ((inv @ [iv] @ ivs, st'), new)))))"

definition buf_map_selections ::
  "('c, 'b, 'd, 's) xi \<Rightarrow> 'st region_closure \<Rightarrow> 'st \<Rightarrow> 'd buffer \<Rightarrow> ('st \<times> dirty_bytes \<times> 'd buffer) res" where
  "buf_map_selections X f st b =
     rbind (sel_map_selections (record_ranges X f) ([], st) (selection b)) (\<lambda>((inv, st'), sel).
     Inr (st', ChangeInPlace (foldl (push_interval X) [] (sort_key iv_start inv)), b\<lparr>selection := sel\<rparr>))"

definition apply_delta_to_current_buffer ::
  "('c, 'b, 'd, 's) xi \<Rightarrow> 'd buffer \<Rightarrow> 'd \<Rightarrow> bool \<Rightarrow> 'd buffer res" where
  "apply_delta_to_current_buffer X b d is_final =
     rbind (rope_apply_delta X (data b) d) (\<lambda>next_data.
     rbind (if is_final then Inr (perform_final X (history b) (data b) d (selection b))
            else perform_partial X (history b) (data b) d (selection b)) (\<lambda>h.
     Inr (b\<lparr>history := h, data := next_data, dirty := True\<rparr>)))"

definition buf_apply_delta :: "('c, 'b, 'd, 's) xi \<Rightarrow> 'd buffer \<Rightarrow> 'd \<Rightarrow> (dirty_bytes \<times> 'd buffer) res" where
  "buf_apply_delta X b d =
     (let max_len = rope_len (data b)
      in rbind (apply_delta_to_current_buffer X b d True) (\<lambda>b'.
         rbind (sel_apply_delta X (selection b') d max_len) (\<lambda>sel.
         Inr (ChangeLength, b'\<lparr>selection := sel\<rparr>))))"

definition buf_apply_delta_offset_carets ::
  "('c, 'b, 'd, 's) xi \<Rightarrow> 'd buffer \<Rightarrow> 'd \<Rightarrow> int \<Rightarrow> int \<Rightarrow> (dirty_bytes \<times> 'd buffer) res" where
  "buf_apply_delta_offset_carets X b d caret_offset tail_offset =
     (let max_len = rope_len (data b)
      in rbind (apply_delta_to_current_buffer X b d True) (\<lambda>b'.
         rbind (sel_apply_delta_offset_carets X (selection b') d caret_offset tail_offset max_len) (\<lambda>sel.
         Inr (ChangeLength, b'\<lparr>selection := sel\<rparr>))))"

definition apply_incomplete_delta :: "('c, 'b, 'd, 's) xi \<Rightarrow> 'd buffer \<Rightarrow> 'd \<Rightarrow> (dirty_bytes \<times> 'd buffer) res" where
  "apply_incomplete_delta X b d =
     (let max_len = rope_len (data b)
      in rbind (apply_delta_to_current_buffer X b d False) (\<lambda>b'.
         rbind (sel_apply_delta X (selection b') d max_len) (\<lambda>sel.
         Inr (ChangeLength, b'\<lparr>selection := sel\<rparr>))))"

definition apply_incomplete_delta_offset_carets ::
  "('c, 'b, 'd, 's) xi \<Rightarrow> 'd buffer \<Rightarrow> 'd \<Rightarrow> int \<Rightarrow> int \<Rightarrow> (dirty_bytes \<times> 'd buffer) res" where
  "apply_incomplete_delta_offset_carets X b d caret_offset tail_offset =
     (let max_len = rope_len (data b)
      in rbind (apply_delta_to_current_buffer X b d False) (\<lambda>b'.
         rbind (sel_apply_delta_offset_carets X (selection b') d caret_offset tail_offset max_len) (\<lambda>sel.
         Inr (ChangeLength, b'\<lparr>selection := sel\<rparr>))))"

definition commit_delta :: "'d buffer \<Rightarrow> 'd buffer" where
  "commit_delta b = b\<lparr>history := commit_partial (history b)\<rparr>"

definition perform_undo :: "('c, 'b, 'd, 's) xi \<Rightarrow> 'd buffer \<Rightarrow> (dirty_bytes option \<times> 'd buffer) res" where
  "perform_undo X b =
     (case history_undo X (history b) (data b) (selection b) of
        (h, None) \<Rightarrow> Inr (None, b\<lparr>history := h\<rparr>)
      | (h, Some (undo_delta, old_selection)) \<Rightarrow>
          rbind (rope_apply_delta X (data b) undo_delta) (\<lambda>r.
          Inr (Some ChangeLength, b\<lparr>history := h, selection := old_selection, data := r, dirty := True\<rparr>)))"

definition perform_redo :: "('c, 'b, 'd, 's) xi \<Rightarrow> 'd buffer \<Rightarrow> (dirty_bytes option \<times> 'd buffer) res" where
  "perform_redo X b =
     (case history_redo X (history b) (data b) (selection b) of
        (h, None) \<Rightarrow> Inr (None, b\<lparr>history := h\<rparr>)
      | (h, Some (redo_delta, old_selection)) \<Rightarrow>
          rbind (rope_apply_delta X (data b) redo_delta) (\<lambda>r.
          Inr (Some ChangeLength, b\<lparr>history := h, selection := old_selection, data := r, dirty := True\<rparr>)))"

definition switch_main_sel ::
  "('c, 'b, 'd, 's) xi \<Rightarrow> (selection \<Rightarrow> selection res) \<Rightarrow> 'd buffer \<Rightarrow> (dirty_bytes \<times> 'd buffer) res" where
  "switch_main_sel X f b =
     rbind (rbind (sel_main (selection b)) (region_interval X)) (\<lambda>old_main_sel_interval.
     rbind (f (selection b)) (\<lambda>sel.
     rbind (rbind (sel_main sel) (region_interval X)) (\<lambda>new_main_sel_interval.
     Inr (ChangeInPlace [old_main_sel_interval, new_main_sel_interval], b\<lparr>selection := sel\<rparr>))))"

definition modify_sels_in_place ::
  "('c, 'b, 'd, 's) xi \<Rightarrow> (selection \<Rightarrow> selection res) \<Rightarrow> 'd buffer \<Rightarrow> (dirty_bytes \<times> 'd buffer) res" where
  "modify_sels_in_place X f b =
     rbind (rmap (region_interval X) (regions (selection b))) (\<lambda>ivs.
     rbind (f (selection b)) (\<lambda>sel.
     Inr (ChangeInPlace ivs, b\<lparr>selection := sel\<rparr>)))"

definition remove_selection :: "('c, 'b, 'd, 's) xi \<Rightarrow> 'd buffer \<Rightarrow> nat \<Rightarrow> (dirty_bytes \<times> 'd buffer) res" where
  "remove_selection X b i =
     modify_sels_in_place X (\<lambda>sel. rbind (umod i (sel_len sel)) (sel_remove sel)) b"

definition retain_selection :: "('c, 'b, 'd, 's) xi \<Rightarrow> 'd buffer \<Rightarrow> nat \<Rightarrow> (dirty_bytes \<times> 'd buffer) res" where
  "retain_selection X b i =
     modify_sels_in_place X (\<lambda>sel. rbind (umod i (sel_len sel)) (retain sel)) b"

definition buf_select_next :: "('c, 'b, 'd, 's) xi \<Rightarrow> 'd buffer \<Rightarrow> nat \<Rightarrow> (dirty_bytes \<times> 'd buffer) res" where
  "buf_select_next X b count = switch_main_sel X (\<lambda>sel. sel_select_next sel count) b"

definition buf_select_prev :: "('c, 'b, 'd, 's) xi \<Rightarrow> 'd buffer \<Rightarrow> nat \<Rightarrow> (dirty_bytes \<times> 'd buffer) res" where
  "buf_select_prev X b count = switch_main_sel X (\<lambda>sel. sel_select_prev sel count) b"

definition yank_selections :: "('c, 'b, 'd, 's) xi \<Rightarrow> 'd buffer \<Rightarrow> rchar \<Rightarrow> 'd buffer res" where
  "yank_selections X b reg =
     (if rope_is_empty (data b)
      then Inr (b\<lparr>registers := (registers b)(reg \<mapsto> replicate (sel_len (selection b)) [])\<rparr>)
      else rbind (rmap (\<lambda>region. rbind (region_interval X region) (slice_to_cow X (data b)))
             (regions (selection b))) (\<lambda>selections.
           Inr (b\<lparr>registers := (registers b)(reg \<mapsto> selections)\<rparr>)))"

definition overflow_sel_style :: "'d buffer \<Rightarrow> overflow_selection_style option res" where
  "overflow_sel_style b =
     (if regions (selection b) = [] then Inl UnwrapNone
      else let last_sel = last (regions (selection b)); len = rope_len (data b)
           in Inr (if caret last_sel = len \<and> tail last_sel = len then Some CursorTail
                   else if caret last_sel = len then Some Cursor
                   else if tail last_sel = len then Some Tail
                   else None))"

definition update_path_if_missing :: "'d buffer \<Rightarrow> path \<Rightarrow> 'd buffer" where
  "update_path_if_missing b p = (case path b of None \<Rightarrow> b\<lparr>path := Some p\<rparr> | Some _ \<Rightarrow> b)"

section \<open>The open buffers\<close>

record 'd buffr_collection =
  buf_list :: "'d buffer list"
  cur_buf_index :: nat

definition with_current_buffer :: "'d buffer \<Rightarrow> 'd buffr_collection" where
  "with_current_buffer b = \<lparr>buf_list = [b], cur_buf_index = 0\<rparr>"

definition collection_new :: "'d buffr_collection" where
  "collection_new = with_current_buffer buffer_default"

definition current :: "'d buffr_collection \<Rightarrow> 'd buffer res" where
  "current c = index (buf_list c) (cur_buf_index c)"

text \<open>\<open>current_mut\<close>: run an operation on the current buffer in place.\<close>

definition set_current :: "'d buffr_collection \<Rightarrow> 'd buffer \<Rightarrow> 'd buffr_collection" where
  "set_current c b = c\<lparr>buf_list := (buf_list c)[cur_buf_index c := b]\<rparr>"

text \<open>The search of \<open>switch_current_buffer\<close>: the first buffer whose path is the same file.\<close>

fun find_buffer :: "fs \<Rightarrow> path \<Rightarrow> nat \<Rightarrow> 'd buffer list \<Rightarrow> nat option io" where
  "find_buffer F canon i [] = Inr None"
| "find_buffer F canon i (b # bs) =
     (case path b of
        None \<Rightarrow> find_buffer F canon (Suc i) bs
      | Some p \<Rightarrow>
          (case fs_canonicalize F p of
             Inl err \<Rightarrow> Inl err
           | Inr c \<Rightarrow> if c = canon then Inr (Some i) else find_buffer F canon (Suc i) bs))"

definition switch_current_buffer ::
  "('c, 'b, 'd, 's) xi \<Rightarrow> fs \<Rightarrow> 'd buffr_collection \<Rightarrow> path \<Rightarrow> (unit io \<times> 'd buffr_collection)" where
  "switch_current_buffer X F c filename =
     (case fs_canonicalize F filename of
        Inl err \<Rightarrow> (Inl err, c)
      | Inr canon \<Rightarrow>
          (case find_buffer F canon 0 (buf_list c) of
             Inl err \<Rightarrow> (Inl err, c)
           | Inr (Some i) \<Rightarrow> (Inr (), c\<lparr>cur_buf_index := i\<rparr>)
           | Inr None \<Rightarrow>
               (case fs_open F filename of
                  Inl err \<Rightarrow> (Inl err, c)
                | Inr content \<Rightarrow>
                    (case fs_ops F filename [Read] of
                       Inl err \<Rightarrow> (Inl err, c)
                     | Inr _ \<Rightarrow>
                         let l = buf_list c @ [from_data_and_path X content (Some filename)]
                         in (Inr (), c\<lparr>buf_list := l, cur_buf_index := length l - 1\<rparr>)))))"

definition delete_current :: "'d buffr_collection \<Rightarrow> 'd buffr_collection res" where
  "delete_current c =
     rbind (vec_remove (buf_list c) (cur_buf_index c)) (\<lambda>l.
     Inr \<lparr>buf_list = (if l = [] then [buffer_default] else l), cur_buf_index = cur_buf_index c - 1\<rparr>)"

end
