(* ===== verification/Keymap.thy ===== *)
theory Keymap
  imports Current_Buffer
begin

text \<open>
  \<open>src/keymap.rs\<close>: the terminal events of the \<open>crossterm\<close> crate as the editor sees them (the
  variants the code names; every other key and event is one of the remaining constructors), and key
  maps. A key map is the list of insertions into the \<open>HashMap\<close> that the \<open>keys!\<close> macro makes.
\<close>

section \<open>Events\<close>

datatype key_code =
    Backspace | Enter | LeftKey | RightKey | UpKey | DownKey | DeleteKey | Esc
  | Char rchar | OtherKey nat

record key_modifiers =
  shift :: bool
  control :: bool
  alt :: bool

definition NONE :: key_modifiers where
  "NONE = \<lparr>shift = False, control = False, alt = False\<rparr>"

datatype key_event = KeyEvent (code: key_code) (modifiers: key_modifiers)

datatype event = Key key_event | Resize nat nat | OtherEvent nat

text \<open>\<open>modifiers & !KeyModifiers::SHIFT\<close>, and \<open>is_empty\<close>.\<close>

definition without_shift :: "key_modifiers \<Rightarrow> key_modifiers" where
  "without_shift m = m\<lparr>shift := False\<rparr>"

definition no_modifiers :: "key_modifiers \<Rightarrow> bool" where
  "no_modifiers m \<longleftrightarrow> \<not> shift m \<and> \<not> control m \<and> \<not> alt m"

section \<open>Key maps\<close>

type_synonym 'a key_map = "(key_event \<times> 'a) list"

definition event_to_action :: "'a key_map \<Rightarrow> event \<Rightarrow> 'a option" where
  "event_to_action maps evt =
     (case evt of
        Key e \<Rightarrow> map_of (rev maps) (KeyEvent (code e) (without_shift (modifiers e)))
      | _ \<Rightarrow> None)"

text \<open>The four forms of a mapping in the \<open>k!\<close> macro.\<close>

definition on_char :: "char \<Rightarrow> 'a \<Rightarrow> key_event \<times> 'a" where
  "on_char c a = (KeyEvent (Char (chr c)) NONE, a)"

definition on_alt :: "char \<Rightarrow> 'a \<Rightarrow> key_event \<times> 'a" where
  "on_alt c a = (KeyEvent (Char (chr c)) (NONE\<lparr>alt := True\<rparr>), a)"

definition on_ctrl :: "char \<Rightarrow> 'a \<Rightarrow> key_event \<times> 'a" where
  "on_ctrl c a = (KeyEvent (Char (chr c)) (NONE\<lparr>control := True\<rparr>), a)"

definition on_key :: "key_code \<Rightarrow> 'a \<Rightarrow> key_event \<times> 'a" where
  "on_key k a = (KeyEvent k NONE, a)"

lemmas key_defs = event_to_action_def on_char_def on_alt_def on_ctrl_def on_key_def without_shift_def
  no_modifiers_def NONE_def chr_def

text \<open>The shift modifier never changes what a key does.\<close>

lemma event_to_action_shift:
  "event_to_action maps (Key (KeyEvent k (m\<lparr>shift := s\<rparr>))) = event_to_action maps (Key (KeyEvent k m))"
  by (simp add: event_to_action_def without_shift_def)

lemma event_to_action_key: "event_to_action maps evt = Some a \<Longrightarrow> \<exists>e. evt = Key e"
  by (auto simp: event_to_action_def split: event.splits)

end
