(* ===== verification/Cmd_Count.thy ===== *)
theory Cmd_Count
  imports Keymap "HOL-Library.Word"
begin

unbundle bit_operations_syntax

text \<open>
  \<open>src/cmd_count.rs\<close>: the count typed in front of a command. Decimal entry multiplies and adds with
  the overflow check of the language; hexadecimal entry shifts, which drops the bits beyond 64.
\<close>

section \<open>Formatting of integers\<close>

text \<open>\<open>{}\<close> and \<open>{:x}\<close> of an unsigned integer.\<close>

fun fmt_radix :: "nat \<Rightarrow> nat \<Rightarrow> string" where
  "fmt_radix b n = (if b \<le> 1 \<or> n < b then [hex_digit n] else fmt_radix b (n div b) @ [hex_digit (n mod b)])"

declare fmt_radix.simps [simp del]

definition fmt_dec :: "nat \<Rightarrow> string" where
  "fmt_dec n = fmt_radix 10 n"

definition fmt_hex :: "nat \<Rightarrow> string" where
  "fmt_hex n = fmt_radix 16 n"

section \<open>The count\<close>

datatype count_state = NoCount | Count (hex: bool) (count: nat)

datatype count_action = AppendDigit nat | CancelEntry | SwitchHexEntry | RemoveLastDigit

datatype count_result = NotHandled | Update count_state

definition count_maps :: "count_action key_map" where
  "count_maps = [
     on_key Esc CancelEntry, on_key Backspace RemoveLastDigit, on_char (CHR ''x'') SwitchHexEntry,
     on_char (CHR ''0'') (AppendDigit 0), on_char (CHR ''1'') (AppendDigit 1), on_char (CHR ''2'') (AppendDigit 2),
     on_char (CHR ''3'') (AppendDigit 3), on_char (CHR ''4'') (AppendDigit 4), on_char (CHR ''5'') (AppendDigit 5),
     on_char (CHR ''6'') (AppendDigit 6), on_char (CHR ''7'') (AppendDigit 7), on_char (CHR ''8'') (AppendDigit 8),
     on_char (CHR ''9'') (AppendDigit 9), on_char (CHR ''a'') (AppendDigit 10), on_char (CHR ''b'') (AppendDigit 11),
     on_char (CHR ''c'') (AppendDigit 12), on_char (CHR ''d'') (AppendDigit 13), on_char (CHR ''e'') (AppendDigit 14),
     on_char (CHR ''f'') (AppendDigit 15)]"

definition shl4 :: "nat \<Rightarrow> nat" where
  "shl4 n = push_bit 4 n mod (usize_max + 1)"

fun count_step :: "count_state \<Rightarrow> count_action \<Rightarrow> count_result res" where
  "count_step NoCount (AppendDigit d) = (if d > 9 then Inr NotHandled else Inr (Update (Count False d)))"
| "count_step NoCount CancelEntry = Inr NotHandled"
| "count_step NoCount SwitchHexEntry = Inr (Update (Count True 0))"
| "count_step NoCount RemoveLastDigit = Inr NotHandled"
| "count_step (Count False n) (AppendDigit d) =
     (if d > 9 then Inr NotHandled
      else rbind (umul n 10) (\<lambda>m. rbind (uadd m d) (\<lambda>m. Inr (Update (Count False m)))))"
| "count_step (Count True n) (AppendDigit d) = Inr (Update (Count True (shl4 n OR d)))"
| "count_step (Count True n) RemoveLastDigit =
     (if n \<ge> 0x10 then Inr (Update (Count True (drop_bit 4 n))) else Inr (Update NoCount))"
| "count_step (Count False n) RemoveLastDigit =
     (if n \<ge> 10 then Inr (Update (Count False (n div 10))) else Inr (Update NoCount))"
| "count_step (Count h n) CancelEntry = Inr (Update NoCount)"
| "count_step (Count h n) SwitchHexEntry = Inr (Update (Count (\<not> h) n))"

definition count_transition :: "count_state \<Rightarrow> event \<Rightarrow> count_result res" where
  "count_transition s evt =
     (case event_to_action count_maps evt of Some a \<Rightarrow> count_step s a | None \<Rightarrow> Inr NotHandled)"

definition to_count :: "count_state \<Rightarrow> nat" where
  "to_count s = (case s of Count _ n \<Rightarrow> n | NoCount \<Rightarrow> 1)"

definition count_display :: "count_state \<Rightarrow> string" where
  "count_display s =
     (case s of
        NoCount \<Rightarrow> ''''
      | Count True n \<Rightarrow> if n = 0 then '' (0x)'' else '' (0x'' @ fmt_hex n @ '')''
      | Count False n \<Rightarrow> '' ('' @ fmt_dec n @ '')'')"

section \<open>Typing a count\<close>

text \<open>Pressing the keys of a string one after the other; a key that is not handled stops the entry.\<close>

definition press :: "char \<Rightarrow> event" where
  "press c = Key (KeyEvent (Char (chr c)) NONE)"

fun type_count :: "count_state \<Rightarrow> string \<Rightarrow> count_state option res" where
  "type_count s [] = Inr (Some s)"
| "type_count s (c # cs) =
     rbind (count_transition s (press c)) (\<lambda>t.
     case t of NotHandled \<Rightarrow> Inr None | Update s' \<Rightarrow> type_count s' cs)"

lemma count_maps_digits:
  "list_all (\<lambda>d. event_to_action count_maps (press (hex_digit d)) = Some (AppendDigit d)) [0 ..< 16]"
  by code_simp

lemma count_maps_digit:
  "d < 16 \<Longrightarrow> event_to_action count_maps (press (hex_digit d)) = Some (AppendDigit d)"
  using count_maps_digits unfolding list_all_iff by simp

lemma type_count_append:
  "type_count s (xs @ ys) = rbind (type_count s xs) (\<lambda>r. case r of None \<Rightarrow> Inr None | Some s' \<Rightarrow> type_count s' ys)"
proof (induction xs arbitrary: s)
  case (Cons x xs)
  then show ?case
    by (cases "count_transition s (press x)") (auto split: count_result.splits)
qed simp

lemma type_digit: "d < 16 \<Longrightarrow> type_count s [hex_digit d] =
    rbind (count_step s (AppendDigit d)) (\<lambda>t. case t of NotHandled \<Rightarrow> Inr None | Update s' \<Rightarrow> Inr (Some s'))"
  by (simp add: count_transition_def count_maps_digit)

lemma shl4_or: "n < 2 ^ 60 \<Longrightarrow> d < 16 \<Longrightarrow> shl4 n OR d = 16 * n + d"
proof -
  assume n: "n < 2 ^ 60" and d: "d < 16"
  have d4: "d = take_bit 4 d" using d by (simp add: take_bit_nat_eq_self)
  have "push_bit 4 n AND take_bit 4 d = 0" by (rule bit_eqI) (auto simp: bit_simps)
  then have "push_bit 4 n + take_bit 4 d = push_bit 4 n OR take_bit 4 d" by (rule disjunctive_add_eq_or)
  moreover have "shl4 n = push_bit 4 n" using n by (simp add: shl4_def push_bit_eq_mult usize_max_def)
  ultimately show ?thesis using d4 by (simp add: push_bit_eq_mult)
qed

lemma type_radix:
  assumes "b = 10 \<and> \<not> h \<or> b = 16 \<and> h" and "n \<le> usize_max" and "h \<Longrightarrow> s = Count True 0" and "\<not> h \<Longrightarrow> s = NoCount"
  shows "type_count s (fmt_radix b n) = Inr (Some (Count h n))"
  using assms(2)
proof (induction n rule: less_induct)
  case (less n)
  show ?case
  proof (cases "n < b")
    case True
    with assms have "n < 16" "\<not> h \<longrightarrow> n < 10" by auto
    with True assms show ?thesis
      using type_digit [of n s] by (auto simp: fmt_radix.simps [of b n] shl4_def)
  next
    case False
    let ?q = "n div b" and ?d = "n mod b"
    have b: "1 < b" "?d < b" using assms(1) by auto
    with False have "?q < n" by (intro div_less_dividend) auto
    with less have q: "type_count s (fmt_radix b ?q) = Inr (Some (Count h ?q))" by simp
    have n: "n = b * ?q + ?d" by simp
    have "?d < 16" "\<not> h \<longrightarrow> ?d < 10" using assms(1) b by auto
    have step: "count_step (Count h ?q) (AppendDigit ?d) = Inr (Update (Count h n))"
    proof (cases h)
      case True
      then have "b = 16" using assms(1) by simp
      moreover have "?q < 2 ^ 60" using less.prems \<open>b = 16\<close> by (simp add: usize_max_def div_less_iff_less_mult)
      ultimately show ?thesis using True shl4_or [of ?q ?d] by simp
    next
      case False
      then have b10: "b = 10" using assms(1) by simp
      have "n div 10 * 10 \<le> usize_max" "n div 10 * 10 + n mod 10 \<le> usize_max" "n mod 10 < 10"
        using less.prems div_mult_mod_eq [of n 10] by linarith+
      with False b10 show ?thesis by (auto simp: umul_def uadd_def)
    qed
    show ?thesis
      using False b q step type_digit [OF \<open>?d < 16\<close>, of "Count h ?q"]
      by (simp add: fmt_radix.simps [of b n] type_count_append)
  qed
qed

text \<open>
  C32: the count typed is the count shown: pressing the decimal digits of a 64-bit number, or \<open>x\<close>
  and its hexadecimal digits, gives that count, without overflow and with every key handled; what
  the mode line then displays is what was typed.
\<close>

theorem type_count_roundtrip:
  assumes "n \<le> usize_max"
  shows "type_count NoCount (fmt_dec n) = Inr (Some (Count False n)) \<and>
    type_count NoCount (''x'' @ fmt_hex n) = Inr (Some (Count True n)) \<and>
    count_display (Count False n) = '' ('' @ fmt_dec n @ '')'' \<and>
    (0 < n \<longrightarrow> count_display (Count True n) = '' (0x'' @ fmt_hex n @ '')'')"
proof -
  have "type_count NoCount ''x'' = Inr (Some (Count True 0))"
    by (simp add: count_transition_def press_def count_maps_def key_defs)
  then show ?thesis
    using type_radix [of 10 False n NoCount] type_radix [of 16 True n "Count True 0"] assms
      type_count_append [of NoCount "''x''" "fmt_hex n"]
    by (simp add: fmt_dec_def fmt_hex_def count_display_def del: type_count.simps(2))
qed

theorem type_count_roundtrip_witness:
  "type_count NoCount ''255'' = Inr (Some (Count False 255)) \<and> type_count NoCount ''xff'' = Inr (Some (Count True 255))"
  using type_count_roundtrip [of 255] by (simp add: usize_max_def fmt_dec_def fmt_hex_def fmt_radix.simps hex_digit_def)

text \<open>
  Backspace undoes a digit: after a digit was appended to a count without losing high bits,
  removing the last digit gives the count before it, unless that was zero, when the entry ends.
\<close>

lemma remove_last_undoes_append:
  assumes "count_step (Count h n) (AppendDigit d) = Inr (Update s)" "d < 16" "h \<longrightarrow> n < 2 ^ 60"
  shows "count_step s RemoveLastDigit = Inr (Update (if n = 0 then NoCount else Count h n))"
proof (cases h)
  case True
  with assms have "s = Count True (16 * n + d)" by (simp add: shl4_or)
  then show ?thesis using True assms(2) by (simp add: drop_bit_eq_div)
next
  case False
  with assms have "s = Count False (n * 10 + d)" "d \<le> 9" by (auto simp: res_simps umul_def uadd_def split: if_splits)
  then show ?thesis using False by auto
qed

end
