(* ===== verification/Search.thy ===== *)
theory Search
  imports Cmd_Count
begin

text \<open>
  \<open>src/modes/search.rs\<close>: byte patterns with wildcards, how they are edited, and how they are matched
  against the selections. Substring search (the \<open>jetscii\<close> crate) and regular expressions (the
  \<open>regex\<close> crate) are parameters, the record \<open>finder\<close>; the locale states what their documentation
  says of them.
\<close>

section \<open>Patterns\<close>

datatype piece = Literal u8 | Wildcard

type_synonym pattern = "piece list"

definition insert_literal :: "pattern \<Rightarrow> nat \<Rightarrow> u8 \<Rightarrow> (pattern \<times> nat) res" where
  "insert_literal ps position l =
     rbind (vec_insert ps position (Literal l)) (\<lambda>ps'. rbind (uadd position 1) (\<lambda>p. Inr (ps', p)))"

definition insert_half_literal :: "pattern \<Rightarrow> nat \<Rightarrow> u8 \<Rightarrow> (pattern \<times> nat) res" where
  "insert_half_literal ps position l =
     rbind (vec_set ps position (Literal l)) (\<lambda>ps'. rbind (uadd position 1) (\<lambda>p. Inr (ps', p)))"

definition insert_wildcard :: "pattern \<Rightarrow> nat \<Rightarrow> (pattern \<times> nat) res" where
  "insert_wildcard ps position =
     rbind (vec_insert ps position Wildcard) (\<lambda>ps'. rbind (uadd position 1) (\<lambda>p. Inr (ps', p)))"

definition pattern_remove :: "pattern \<Rightarrow> nat \<Rightarrow> (pattern \<times> bool) res" where
  "pattern_remove ps position =
     (if position < length ps then rbind (vec_remove ps position) (\<lambda>ps'. Inr (ps', True))
      else Inr (ps, False))"

fun as_basic_slice :: "pattern \<Rightarrow> bytes option" where
  "as_basic_slice [] = Some []"
| "as_basic_slice (Literal c # ps) = (case as_basic_slice ps of None \<Rightarrow> None | Some cs \<Rightarrow> Some (c # cs))"
| "as_basic_slice (Wildcard # ps) = None"

section \<open>Matching\<close>

record finder =
  substring_find :: "bytes \<Rightarrow> bytes \<Rightarrow> nat option"
  regex_find_iter :: "string \<Rightarrow> (bytes \<Rightarrow> (nat \<times> nat) list) res"

type_synonym range = "nat \<times> nat"

text \<open>
  The \<open>while let\<close> loop of the substring search. Every round moves on by the length of the pattern,
  so the length of the data is enough fuel when the pattern is not empty.
\<close>

fun find_loop :: "finder \<Rightarrow> bytes \<Rightarrow> bytes \<Rightarrow> nat \<Rightarrow> nat \<Rightarrow> nat \<Rightarrow> range list res" where
  "find_loop Y sub dat 0 base slice_base = Inl OutOfFuel"
| "find_loop Y sub dat (Suc fuel) base slice_base =
     rbind (slice dat slice_base (length dat)) (\<lambda>rest.
     case substring_find Y sub rest of
       None \<Rightarrow> Inr []
     | Some start \<Rightarrow>
         rbind (uadd base start) (\<lambda>match_abs_start.
         rbind (uadd match_abs_start (length sub)) (\<lambda>match_abs_end.
         rbind (uadd slice_base start) (\<lambda>sb.
         rbind (uadd sb (length sub)) (\<lambda>sb'.
         rbind (find_loop Y sub dat fuel match_abs_end sb') (\<lambda>rs.
         Inr ((match_abs_start, match_abs_end) # rs)))))))"

definition match_basic :: "('c, 'b, 'd, 's) xi \<Rightarrow> finder \<Rightarrow> bytes \<Rightarrow> rope \<Rightarrow> selregion \<Rightarrow> range list res" where
  "match_basic X Y sub dat r =
     rbind (region_interval X r) (\<lambda>iv.
     rbind (slice_to_cow X dat iv) (\<lambda>bs.
     find_loop Y sub bs (Suc (length bs)) (min_r r) 0))"

definition piece_expr :: "piece \<Rightarrow> string" where
  "piece_expr p = (case p of Wildcard \<Rightarrow> ''.'' | Literal c \<Rightarrow> [CHR 0x5C] @ ''x'' @ fmt_02x c)"

definition pattern_expr :: "pattern \<Rightarrow> string" where
  "pattern_expr ps = concat (map piece_expr ps)"

definition match_regex :: "('c, 'b, 'd, 's) xi \<Rightarrow> (bytes \<Rightarrow> (nat \<times> nat) list) \<Rightarrow> rope \<Rightarrow> selregion \<Rightarrow> range list res" where
  "match_regex X matcher dat r =
     rbind (region_interval X r) (\<lambda>iv.
     rbind (slice_to_cow X dat iv) (\<lambda>bs.
     rmap (\<lambda>(s, e). rbind (uadd (min_r r) s) (\<lambda>s'. rbind (uadd (min_r r) e) (\<lambda>e'. Inr (s', e')))) (matcher bs)))"

definition map_selections_to_matches ::
  "('c, 'b, 'd, 's) xi \<Rightarrow> finder \<Rightarrow> pattern \<Rightarrow> 'd buffer \<Rightarrow> range list list res" where
  "map_selections_to_matches X Y ps b =
     (case as_basic_slice ps of
        Some sub \<Rightarrow> rmap (match_basic X Y sub (data b)) (regions (selection b))
      | None \<Rightarrow> rbind (regex_find_iter Y (pattern_expr ps)) (\<lambda>matcher.
          rmap (match_regex X matcher (data b)) (regions (selection b))))"

section \<open>What is relied on\<close>

text \<open>An occurrence of a byte string, and of a pattern (\<open>.\<close> matches every byte but the newline).\<close>

definition occurs_at :: "bytes \<Rightarrow> bytes \<Rightarrow> nat \<Rightarrow> bool" where
  "occurs_at sub dat i \<longleftrightarrow> i + length sub \<le> length dat \<and> take (length sub) (drop i dat) = sub"

fun piece_matches :: "piece \<Rightarrow> u8 \<Rightarrow> bool" where
  "piece_matches (Literal c) x \<longleftrightarrow> x = c"
| "piece_matches Wildcard x \<longleftrightarrow> x \<noteq> 0x0A"

definition pattern_at :: "pattern \<Rightarrow> bytes \<Rightarrow> nat \<Rightarrow> bool" where
  "pattern_at ps dat i \<longleftrightarrow> i + length ps \<le> length dat \<and> list_all2 piece_matches ps (take (length ps) (drop i dat))"

text \<open>The leftmost matches, one after the other, from position \<open>i\<close> on.\<close>

function leftmost :: "(nat \<Rightarrow> bool) \<Rightarrow> nat \<Rightarrow> nat \<Rightarrow> nat \<Rightarrow> range list" where
  "leftmost P k n i =
     (if i \<ge> n \<or> k = 0 then []
      else if P i then (i, i + k) # leftmost P k n (i + k) else leftmost P k n (Suc i))"
  by auto
termination by (relation "measure (\<lambda>(P, k, n, i). n - i)") auto

declare leftmost.simps [simp del]

text \<open>
  The part of the syntax of regular expressions that matters here, as the documentation of the \<open>regex\<close>
  crate has it, in the bytes mode that \<open>unicode(false)\<close> selects: a dot stands for any byte but the newline, a
  backslash with \<open>x\<close> and two hexadecimal digits for that byte, a letter or a digit for itself, and a sequence of
  these for one after the other. Everything else is left open (\<open>None\<close>).
\<close>

datatype atom = Dot | Byte u8

fun atom_matches :: "atom \<Rightarrow> u8 \<Rightarrow> bool" where
  "atom_matches (Byte c) x \<longleftrightarrow> x = c"
| "atom_matches Dot x \<longleftrightarrow> x \<noteq> 0x0A"

definition atoms_at :: "atom list \<Rightarrow> bytes \<Rightarrow> nat \<Rightarrow> bool" where
  "atoms_at as dat i \<longleftrightarrow> i + length as \<le> length dat \<and> list_all2 atom_matches as (take (length as) (drop i dat))"

definition hex_value :: "char \<Rightarrow> nat option" where
  "hex_value c = (let n = of_char c in
     if 48 \<le> n \<and> n \<le> 57 then Some (n - 48)
     else if 97 \<le> n \<and> n \<le> 102 then Some (n - 87)
     else if 65 \<le> n \<and> n \<le> 70 then Some (n - 55)
     else None)"

definition alphanumeric :: "char \<Rightarrow> bool" where
  "alphanumeric c \<longleftrightarrow> (let n = (of_char c :: nat) in
     48 \<le> n \<and> n \<le> 57 \<or> 65 \<le> n \<and> n \<le> 90 \<or> 97 \<le> n \<and> n \<le> 122)"

fun regex_parse :: "string \<Rightarrow> atom list option" where
  "regex_parse [] = Some []"
| "regex_parse (c # cs) =
     (if c = CHR ''.'' then map_option (Cons Dot) (regex_parse cs)
      else if alphanumeric c then map_option (Cons (Byte (of_char c))) (regex_parse cs)
      else if c = CHR 0x5C then
        (case cs of
           x # hi # lo # rest \<Rightarrow>
             (case (hex_value hi, hex_value lo) of
                (Some a, Some b) \<Rightarrow>
                  if x = CHR ''x'' then map_option (Cons (Byte (word_of_nat (16 * a + b)))) (regex_parse rest) else None
              | _ \<Rightarrow> None)
         | _ \<Rightarrow> None)
      else None)"

locale finder_spec =
  fixes Y :: finder
  assumes substring_find_Some: "substring_find Y sub dat = Some i \<Longrightarrow> occurs_at sub dat i \<and> (\<forall>j < i. \<not> occurs_at sub dat j)"
    and substring_find_None: "substring_find Y sub dat = None \<Longrightarrow> \<not> occurs_at sub dat j"
    and regex_atoms: "regex_parse expr = Some as \<Longrightarrow> as \<noteq> [] \<Longrightarrow> \<exists>m. regex_find_iter Y expr = Inr m \<and>
      (\<forall>dat. m dat = leftmost (atoms_at as dat) (length as) (length dat) 0)"

end
