(* ===== verification/Modes.thy ===== *)
theory Modes
  imports Search Operations
begin

text \<open>
  \<open>src/modes/\<close>: the modes of the editor and what each does with an event. A mode is a value of
  \<open>mode\<close>, \<open>Box<dyn Mode>\<close> its dynamic dispatch \<open>mode_transition\<close>. The handlers of the modes that
  work on the current buffer take and return that buffer; \<open>with_current\<close> runs them on the collection
  as \<open>current_mut\<close> does. The command mode also reads and writes the file system.
\<close>

section \<open>The modes\<close>

datatype insertion_mode = IInsert | IAppend | IOverwrite

datatype acceptor = SplitAcc count_state | CollapseAcc

record search_state =
  pattern :: pattern
  pat_cursor :: nat
  pat_hex :: bool
  pat_half :: "u8 option"
  acc :: acceptor

datatype mode =
    Normal count_state
  | JumpTo bool
  | Split count_state
  | Collapse
  | Replace bool "u8 option"
  | Insert insertion_mode bool "u8 option"
  | Command rstring nat
  | SearchMode search_state
  | Quitting

definition normal_new :: mode where
  "normal_new = Normal NoCount"

definition split_new :: mode where
  "split_new = Split NoCount"

definition command_new :: mode where
  "command_new = Command [] 0"

definition search_new :: "acceptor \<Rightarrow> bool \<Rightarrow> mode" where
  "search_new nxt h = SearchMode \<lparr>pattern = [], pat_cursor = 0, pat_hex = h, pat_half = None, acc = nxt\<rparr>"

datatype transition =
    NoTransition
  | NewMode mode
  | Dirty dirty_bytes
  | ModeAndDirtyBytes mode dirty_bytes
  | ModeAndInfo mode rstring

type_synonym 'd handler = "'d buffer \<Rightarrow> (transition option \<times> 'd buffer) res"

section \<open>Jumping\<close>

definition jump_maps :: "direction key_map" where
  "jump_maps = [
     on_key LeftKey Left, on_char (CHR ''h'') Left, on_key DownKey Down, on_char (CHR ''j'') Down,
     on_key UpKey Up, on_char (CHR ''k'') Up, on_key RightKey Right, on_char (CHR ''l'') Right]"

text \<open>A command that maps each region by a function without captured state, and enters a mode.\<close>

definition map_regions :: "('c, 'b, 'd, 's) xi \<Rightarrow> (selregion \<Rightarrow> selregion res) \<Rightarrow> (dirty_bytes \<Rightarrow> transition) \<Rightarrow> 'd handler" where
  "map_regions X g t b =
     rbind (buf_map_selections X (single g stateless) () b) (\<lambda>(_, dy, b'). Inr (Some (t dy), b'))"

definition jump_transition :: "('c, 'b, 'd, 's) xi \<Rightarrow> bool \<Rightarrow> event \<Rightarrow> nat \<Rightarrow> 'd handler" where
  "jump_transition X ext evt bytes_per_line b =
     (case event_to_action jump_maps evt of
        Some dir \<Rightarrow>
          let max_bytes = rope_len (data b)
          in if ext then map_regions X (\<lambda>r. extend_to_boundary r dir bytes_per_line max_bytes)
                 (ModeAndDirtyBytes normal_new) b
             else map_regions X (\<lambda>r. jump_to_boundary r dir bytes_per_line max_bytes)
                 (ModeAndDirtyBytes normal_new) b
      | None \<Rightarrow>
          (case evt of Key _ \<Rightarrow> Inr (Some (NewMode normal_new), b) | _ \<Rightarrow> Inr (None, b)))"

section \<open>Normal mode\<close>

datatype normal_action =
    Move direction
  | Extend direction
  | SplitMode
  | JumpToMode
  | ExtendToMode
  | CollapseMode bool
  | CommandMode
  | SwapCaret
  | CollapseSelection
  | Delete rchar
  | Yank rchar
  | Paste bool rchar
  | Change bool rchar
  | InsertAction bool
  | AppendAction bool
  | OverwriteAction bool
  | RemoveMain
  | RetainMain
  | SelectPrev
  | SelectNext
  | SelectAll
  | ReplaceMode bool
  | Measure
  | UndoAction
  | RedoAction

abbreviation quote_reg :: rchar where
  "quote_reg \<equiv> chr (CHR 0x22)"

definition normal_maps :: "normal_action key_map" where
  "normal_maps = [
     on_char (CHR ''h'') (Move Left), on_key LeftKey (Move Left),
     on_char (CHR ''j'') (Move Down), on_key DownKey (Move Down),
     on_char (CHR ''k'') (Move Up), on_key UpKey (Move Up),
     on_char (CHR ''l'') (Move Right), on_key RightKey (Move Right),
     on_char (CHR ''H'') (Extend Left), on_char (CHR ''J'') (Extend Down),
     on_char (CHR ''K'') (Extend Up), on_char (CHR ''L'') (Extend Right),
     on_char (CHR ''g'') JumpToMode, on_char (CHR ''G'') ExtendToMode,
     on_alt (CHR ''s'') SplitMode, on_char (CHR '':'') CommandMode,
     on_char (CHR '';'') CollapseSelection, on_alt (CHR '';'') SwapCaret,
     on_char (CHR ''%'') SelectAll, on_char (CHR '' '') RetainMain, on_alt (CHR '' '') RemoveMain,
     on_char (CHR ''('') SelectPrev, on_char (CHR '')'') SelectNext, on_char (CHR ''M'') Measure,
     on_char (CHR ''u'') UndoAction, on_char (CHR ''U'') RedoAction,
     on_char (CHR ''p'') (Paste True quote_reg), on_char (CHR ''P'') (Paste False quote_reg),
     on_char (CHR ''d'') (Delete quote_reg), on_char (CHR ''y'') (Yank quote_reg),
     on_char (CHR ''c'') (Change False quote_reg), on_char (CHR ''C'') (Change True quote_reg),
     on_char (CHR ''i'') (InsertAction False), on_char (CHR ''I'') (InsertAction True),
     on_char (CHR ''a'') (AppendAction False), on_char (CHR ''A'') (AppendAction True),
     on_char (CHR ''r'') (ReplaceMode False), on_char (CHR ''R'') (ReplaceMode True),
     on_char (CHR ''o'') (OverwriteAction False), on_char (CHR ''O'') (OverwriteAction True),
     on_char (CHR ''s'') (CollapseMode False), on_char (CHR ''S'') (CollapseMode True)]"

definition normal_name :: "count_state \<Rightarrow> string" where
  "normal_name cs = ''NORMAL'' @ count_display cs"

text \<open>An edit command: build the delta, apply it, and say what to do next.\<close>

definition edit_with :: "('c, 'b, 'd, 's) xi \<Rightarrow> 'd res \<Rightarrow> (dirty_bytes \<Rightarrow> transition) \<Rightarrow> 'd handler" where
  "edit_with X d t b = rbind d (\<lambda>d. rbind (buf_apply_delta X b d) (\<lambda>(dy, b'). Inr (Some (t dy), b')))"

definition normal_delete :: "('c, 'b, 'd, 's) xi \<Rightarrow> rchar \<Rightarrow> 'd handler" where
  "normal_delete X reg b =
     rbind (yank_selections X b reg) (\<lambda>b.
     if \<not> rope_is_empty (data b)
     then edit_with X (deletion X (data b) (selection b)) Dirty b
     else Inr (Some NoTransition, b))"

definition normal_change :: "('c, 'b, 'd, 's) xi \<Rightarrow> bool \<Rightarrow> rchar \<Rightarrow> 'd handler" where
  "normal_change X h reg b =
     rbind (yank_selections X b reg) (\<lambda>b.
     if \<not> rope_is_empty (data b)
     then edit_with X (deletion X (data b) (selection b)) (ModeAndDirtyBytes (Insert IInsert h None)) b
     else Inr (Some (NewMode (Insert IInsert h None)), b))"

definition normal_paste :: "('c, 'b, 'd, 's) xi \<Rightarrow> bool \<Rightarrow> rchar \<Rightarrow> nat \<Rightarrow> 'd handler" where
  "normal_paste X after reg n b =
     edit_with X (paste X (data b) (selection b)
       (case registers b reg of Some r \<Rightarrow> r | None \<Rightarrow> [[]]) after n) Dirty b"

definition with_dirty :: "(dirty_bytes \<times> 'd buffer) res \<Rightarrow> (dirty_bytes \<Rightarrow> transition) \<Rightarrow> (transition option \<times> 'd buffer) res" where
  "with_dirty r t = rbind r (\<lambda>(dy, b'). Inr (Some (t dy), b'))"

fun normal_act :: "('c, 'b, 'd, 's) xi \<Rightarrow> count_state \<Rightarrow> nat \<Rightarrow> normal_action \<Rightarrow> 'd handler" where
  "normal_act X cs bytes_per_line JumpToMode b =
     (case cs of
        NoCount \<Rightarrow> Inr (Some (NewMode (JumpTo False)), b)
      | Count _ offset \<Rightarrow> map_regions X (\<lambda>r. Inr (jump_to r offset)) (ModeAndDirtyBytes normal_new) b)"
| "normal_act X cs bytes_per_line ExtendToMode b =
     (case cs of
        NoCount \<Rightarrow> Inr (Some (NewMode (JumpTo True)), b)
      | Count _ offset \<Rightarrow> map_regions X (\<lambda>r. Inr (extend_to r offset)) (ModeAndDirtyBytes normal_new) b)"
| "normal_act X cs bytes_per_line SplitMode b = Inr (Some (NewMode split_new), b)"
| "normal_act X cs bytes_per_line (InsertAction h) b =
     map_regions X (\<lambda>r. Inr (to_backward r)) (ModeAndDirtyBytes (Insert IInsert h None)) b"
| "normal_act X cs bytes_per_line (AppendAction h) b =
     (let max_size = rope_len (data b)
      in map_regions X (\<lambda>r. simple_extend (to_forward r) Right bytes_per_line max_size 1)
           (ModeAndDirtyBytes (Insert IAppend h None)) b)"
| "normal_act X cs bytes_per_line (ReplaceMode h) b = Inr (Some (NewMode (Replace h None)), b)"
| "normal_act X cs bytes_per_line (OverwriteAction h) b = Inr (Some (NewMode (Insert IOverwrite h None)), b)"
| "normal_act X cs bytes_per_line (Move dir) b =
     (let max_bytes = rope_len (data b)
      in map_regions X (\<lambda>r. simple_move r dir bytes_per_line max_bytes (to_count cs))
           (ModeAndDirtyBytes normal_new) b)"
| "normal_act X cs bytes_per_line (Extend dir) b =
     (let max_bytes = rope_len (data b)
      in map_regions X (\<lambda>r. simple_extend r dir bytes_per_line max_bytes (to_count cs))
           (ModeAndDirtyBytes normal_new) b)"
| "normal_act X cs bytes_per_line SwapCaret b = map_regions X (\<lambda>r. Inr (swap_caret r)) Dirty b"
| "normal_act X cs bytes_per_line CollapseSelection b = map_regions X (\<lambda>r. Inr (collapse r)) Dirty b"
| "normal_act X cs bytes_per_line (Delete reg) b = normal_delete X reg b"
| "normal_act X cs bytes_per_line (Change h reg) b = normal_change X h reg b"
| "normal_act X cs bytes_per_line (Yank reg) b =
     rbind (yank_selections X b reg) (\<lambda>b. Inr (Some NoTransition, b))"
| "normal_act X cs bytes_per_line (Paste after reg) b = normal_paste X after reg (to_count cs) b"
| "normal_act X cs bytes_per_line RemoveMain b =
     (case cs of
        Count _ n \<Rightarrow>
          if n > 0 then with_dirty (remove_selection X b (n - 1)) (ModeAndDirtyBytes normal_new)
          else with_dirty (remove_selection X b (main_selection (selection b))) Dirty
      | NoCount \<Rightarrow> with_dirty (remove_selection X b (main_selection (selection b))) Dirty)"
| "normal_act X cs bytes_per_line RetainMain b =
     (case cs of
        Count _ n \<Rightarrow>
          if n > 0 then with_dirty (retain_selection X b (n - 1)) (ModeAndDirtyBytes normal_new)
          else with_dirty (retain_selection X b (main_selection (selection b))) Dirty
      | NoCount \<Rightarrow> with_dirty (retain_selection X b (main_selection (selection b))) Dirty)"
| "normal_act X cs bytes_per_line SelectNext b =
     with_dirty (buf_select_next X b (to_count cs)) (ModeAndDirtyBytes normal_new)"
| "normal_act X cs bytes_per_line SelectPrev b =
     with_dirty (buf_select_prev X b (to_count cs)) (ModeAndDirtyBytes normal_new)"
| "normal_act X cs bytes_per_line SelectAll b =
     rbind (select_all (selection b) (rope_len (data b))) (\<lambda>sel.
     rbind (interval_new X 0 (rope_len (data b))) (\<lambda>iv.
     Inr (Some (Dirty (ChangeInPlace [iv])), b\<lparr>selection := sel\<rparr>)))"
| "normal_act X cs bytes_per_line (CollapseMode h) b = Inr (Some (NewMode (search_new CollapseAcc h)), b)"
| "normal_act X cs bytes_per_line Measure b =
     rbind (sel_main (selection b)) (\<lambda>r.
     rbind (len_r r) (\<lambda>n.
     Inr (Some (ModeAndInfo normal_new (str (fmt_dec n @ '' = 0x'' @ fmt_hex n @ '' bytes''))), b)))"
| "normal_act X cs bytes_per_line CommandMode b = Inr (Some (NewMode command_new), b)"
| "normal_act X cs bytes_per_line UndoAction b =
     rbind (perform_undo X b) (\<lambda>(o', b').
     case o' of
       None \<Rightarrow> Inr (Some (ModeAndInfo normal_new (str ''nothing left to undo'')), b')
     | Some dy \<Rightarrow> Inr (Some (ModeAndDirtyBytes normal_new dy), b'))"
| "normal_act X cs bytes_per_line RedoAction b =
     rbind (perform_redo X b) (\<lambda>(o', b').
     case o' of
       None \<Rightarrow> Inr (Some (ModeAndInfo normal_new (str ''nothing left to redo'')), b')
     | Some dy \<Rightarrow> Inr (Some (ModeAndDirtyBytes normal_new dy), b'))"

definition normal_transition :: "('c, 'b, 'd, 's) xi \<Rightarrow> count_state \<Rightarrow> event \<Rightarrow> nat \<Rightarrow> 'd handler" where
  "normal_transition X cs evt bytes_per_line b =
     rbind (count_transition cs evt) (\<lambda>t.
     case t of
       Update new_state \<Rightarrow> Inr (Some (NewMode (Normal new_state)), b)
     | NotHandled \<Rightarrow>
         (case event_to_action normal_maps evt of
            Some act \<Rightarrow> normal_act X cs bytes_per_line act b
          | None \<Rightarrow> Inr (None, b)))"

end
