(* ===== verification/Editing_Modes.thy ===== *)
theory Editing_Modes
  imports Modes
begin

text \<open>
  \<open>src/modes/insert.rs\<close> and \<open>src/modes/replace.rs\<close>: typing characters or hexadecimal digits,
  and replacing the selection by one byte.
\<close>

section \<open>Characters\<close>

text \<open>\<open>char::encode_utf8\<close>, \<open>char::is_ascii_hexdigit\<close> and \<open>char::to_digit(16)\<close>.\<close>

definition utf8 :: "rchar \<Rightarrow> bytes" where
  "utf8 c = map word_of_nat
     (if c < 0x80 then [c]
      else if c < 0x800 then [0xC0 + c div 0x40, 0x80 + c mod 0x40]
      else if c < 0x10000 then [0xE0 + c div 0x1000, 0x80 + c div 0x40 mod 0x40, 0x80 + c mod 0x40]
      else [0xF0 + c div 0x40000, 0x80 + c div 0x1000 mod 0x40, 0x80 + c div 0x40 mod 0x40, 0x80 + c mod 0x40])"

definition is_ascii_hexdigit :: "rchar \<Rightarrow> bool" where
  "is_ascii_hexdigit c \<longleftrightarrow> 0x30 \<le> c \<and> c \<le> 0x39 \<or> 0x61 \<le> c \<and> c \<le> 0x66 \<or> 0x41 \<le> c \<and> c \<le> 0x46"

definition to_digit16 :: "rchar \<Rightarrow> nat option" where
  "to_digit16 c =
     (if 0x30 \<le> c \<and> c \<le> 0x39 then Some (c - 0x30)
      else if 0x61 \<le> c \<and> c \<le> 0x66 then Some (c - 0x61 + 10)
      else if 0x41 \<le> c \<and> c \<le> 0x46 then Some (c - 0x41 + 10)
      else None)"

section \<open>Insert mode\<close>

datatype insert_action = InsertNull | SwitchInputMode | RemoveLast | RemoveThis | Exit | IMove direction

definition insert_maps :: "insert_action key_map" where
  "insert_maps = [
     on_ctrl (CHR ''n'') InsertNull, on_ctrl (CHR ''o'') SwitchInputMode, on_key Backspace RemoveLast,
     on_key DeleteKey RemoveThis, on_key Esc Exit, on_key RightKey (IMove Right),
     on_key LeftKey (IMove Left), on_key UpKey (IMove Up), on_key DownKey (IMove Down)]"

definition incomplete_with :: "('c, 'b, 'd, 's) xi \<Rightarrow> 'd res \<Rightarrow> (dirty_bytes \<Rightarrow> transition) \<Rightarrow> 'd handler" where
  "incomplete_with X d t b =
     rbind d (\<lambda>d. rbind (apply_incomplete_delta X b d) (\<lambda>(dy, b'). Inr (Some (t dy), b')))"

definition incomplete_carets_with :: "('c, 'b, 'd, 's) xi \<Rightarrow> 'd res \<Rightarrow> int \<Rightarrow> int \<Rightarrow> (dirty_bytes \<Rightarrow> transition) \<Rightarrow> 'd handler" where
  "incomplete_carets_with X d co ta t b =
     rbind d (\<lambda>d. rbind (apply_incomplete_delta_offset_carets X b d co ta) (\<lambda>(dy, b'). Inr (Some (t dy), b')))"

definition transition_ascii_insertion :: "('c, 'b, 'd, 's) xi \<Rightarrow> rchar \<Rightarrow> insertion_mode \<Rightarrow> 'd handler" where
  "transition_ascii_insertion X key m b =
     (let inserted_bytes = rope_from_vec X (utf8 key)
      in case m of
           IOverwrite \<Rightarrow> incomplete_with X (change X (data b) (selection b) inserted_bytes) Dirty b
         | _ \<Rightarrow> incomplete_with X (insert_op X (data b) (selection b) inserted_bytes) Dirty b)"

definition transition_hex_insertion ::
  "('c, 'b, 'd, 's) xi \<Rightarrow> rchar \<Rightarrow> insertion_mode \<Rightarrow> u8 option \<Rightarrow> 'd handler" where
  "transition_hex_insertion X key m hex_half b =
     (if \<not> is_ascii_hexdigit key then Inr (None, b)
      else rbind (unwrap (to_digit16 key)) (\<lambda>dg.
        let digit = word_of_nat dg;
            to_insert = (case hex_half of Some x \<Rightarrow> x OR digit | None \<Rightarrow> push_bit 4 digit)
        in case hex_half of
             None \<Rightarrow>
               (case m of
                  IOverwrite \<Rightarrow>
                    incomplete_carets_with X (overwrite_half X (data b) (selection b) to_insert) (-1) 0
                      (ModeAndDirtyBytes (Insert m True (Some to_insert))) b
                | _ \<Rightarrow>
                    incomplete_carets_with X (insert_op X (data b) (selection b) (rope_from_vec X [to_insert])) (-1) 0
                      (ModeAndDirtyBytes (Insert m True (Some to_insert))) b)
           | Some _ \<Rightarrow>
               incomplete_with X (change X (data b) (selection b) (rope_from_vec X [to_insert]))
                 (ModeAndDirtyBytes (Insert m True None)) b))"

definition insert_name :: "insertion_mode \<Rightarrow> bool \<Rightarrow> string" where
  "insert_name m h =
     (case (m, h) of
        (IInsert, True) \<Rightarrow> ''INSERT (hex)'' | (IInsert, False) \<Rightarrow> ''INSERT (ascii)''
      | (IAppend, True) \<Rightarrow> ''APPEND (hex)'' | (IAppend, False) \<Rightarrow> ''APPEND (ascii)''
      | (IOverwrite, True) \<Rightarrow> ''OVERWRITE (hex)'' | (IOverwrite, False) \<Rightarrow> ''OVERWRITE (ascii)'')"

fun insert_act :: "('c, 'b, 'd, 's) xi \<Rightarrow> insertion_mode \<Rightarrow> bool \<Rightarrow> u8 option \<Rightarrow> nat \<Rightarrow> insert_action \<Rightarrow> 'd handler" where
  "insert_act X m h half bytes_per_line Exit b = Inr (Some (NewMode normal_new), commit_delta b)"
| "insert_act X m h half bytes_per_line InsertNull b =
     incomplete_with X (insert_op X (data b) (selection b) (rope_from_vec X [0])) (ModeAndDirtyBytes (Insert m h None)) b"
| "insert_act X m h half bytes_per_line SwitchInputMode b = Inr (Some (NewMode (Insert m (\<not> h) None)), b)"
| "insert_act X m h half bytes_per_line RemoveLast b =
     (if rope_is_empty (data b) then Inr (Some NoTransition, b)
      else if half \<noteq> None
           then incomplete_with X (delete_cursor X (data b) (selection b)) (ModeAndDirtyBytes (Insert m h None)) b
           else incomplete_with X (backspace X (data b) (selection b)) Dirty b)"
| "insert_act X m h half bytes_per_line RemoveThis b =
     (if rope_is_empty (data b) then Inr (Some NoTransition, b)
      else if half \<noteq> None
           then incomplete_with X (delete_cursor X (data b) (selection b)) (ModeAndDirtyBytes (Insert m h None)) b
           else incomplete_with X (delete_cursor X (data b) (selection b)) Dirty b)"
| "insert_act X m h half bytes_per_line (IMove dir) b =
     rbind (if half \<noteq> None
            then rbind (transition_hex_insertion X (chr (CHR ''0'')) m half b) (\<lambda>(_, b'). Inr b')
            else Inr b) (\<lambda>b.
     let max_bytes = rope_len (data b)
     in map_regions X
          (\<lambda>r. rbind (simple_move r dir bytes_per_line max_bytes 1) (\<lambda>r.
               if half \<noteq> None then simple_move r Left bytes_per_line max_bytes 1 else Inr r))
          (ModeAndDirtyBytes (Insert m h None)) b)"

definition insert_transition ::
  "('c, 'b, 'd, 's) xi \<Rightarrow> insertion_mode \<Rightarrow> bool \<Rightarrow> u8 option \<Rightarrow> event \<Rightarrow> nat \<Rightarrow> 'd handler" where
  "insert_transition X m h half evt bytes_per_line b =
     (case event_to_action insert_maps evt of
        Some act \<Rightarrow> insert_act X m h half bytes_per_line act b
      | None \<Rightarrow>
          (case evt of
             Key (KeyEvent (Char key) mods) \<Rightarrow>
               if \<not> no_modifiers (without_shift mods) then Inr (None, b)
               else if h then transition_hex_insertion X key m half b
               else transition_ascii_insertion X key m b
           | _ \<Rightarrow> Inr (None, b)))"

section \<open>Replace mode\<close>

definition replace_maps :: "unit key_map" where
  "replace_maps = [on_ctrl (CHR ''n'') ()]"

definition replace_name :: "bool \<Rightarrow> u8 option \<Rightarrow> string" where
  "replace_name h half =
     (case (h, half) of
        (True, None) \<Rightarrow> ''REPLACE (hex)''
      | (False, _) \<Rightarrow> ''REPLACE (ascii)''
      | (True, Some c) \<Rightarrow> ''REPLACE (hex: '' @ fmt_hex (unat (drop_bit 4 c)) @ ''...)'')"

definition replace_transition :: "('c, 'b, 'd, 's) xi \<Rightarrow> bool \<Rightarrow> u8 option \<Rightarrow> event \<Rightarrow> 'd handler" where
  "replace_transition X h half evt b =
     (case evt of
        Key (KeyEvent (Char c) mods) \<Rightarrow>
          (case event_to_action replace_maps evt of
             Some _ \<Rightarrow> edit_with X (replace_op X (data b) (selection b) 0) (ModeAndDirtyBytes normal_new) b
           | None \<Rightarrow>
               if \<not> no_modifiers (without_shift mods) then Inr (Some (NewMode normal_new), b)
               else if \<not> h
               then edit_with X (replace_op X (data b) (selection b) (word_of_nat c)) (ModeAndDirtyBytes normal_new) b
               else case half of
                 None \<Rightarrow>
                   if \<not> is_ascii_hexdigit c then Inr (Some (NewMode normal_new), b)
                   else rbind (unwrap (to_digit16 c)) (\<lambda>dg.
                     Inr (Some (NewMode (Replace h (Some (push_bit 4 (word_of_nat dg))))), b))
               | Some x \<Rightarrow>
                   if \<not> is_ascii_hexdigit c then Inr (Some (NewMode normal_new), b)
                   else rbind (unwrap (to_digit16 c)) (\<lambda>dg.
                     edit_with X (replace_op X (data b) (selection b) (word_of_nat dg OR x))
                       (ModeAndDirtyBytes normal_new) b))
      | Key _ \<Rightarrow> Inr (Some (NewMode normal_new), b)
      | _ \<Rightarrow> Inr (None, b))"

end
