(* ===== verification/Mode_Machine.thy ===== *)
theory Mode_Machine
  imports Editing_Modes
begin

text \<open>
  \<open>src/modes/\<close>, continued: splitting and collapsing by a search (\<open>split.rs\<close>, \<open>collapse.rs\<close>, the
  mode of \<open>search.rs\<close>), the command line (\<open>command.rs\<close>), and the dispatch over all modes.
\<close>

section \<open>Splitting and collapsing\<close>

text \<open>\<open>matched_ranges.iter().flatten().map(|r| r.end - r.start).sum()\<close>\<close>

definition matched_len :: "range list list \<Rightarrow> nat res" where
  "matched_len rs = rfold (\<lambda>n (s, e). rbind (usub e s) (uadd n)) 0 (concat rs)"

text \<open>The loop over the matches of one region: the pieces so far and what is left of the region.\<close>

fun split_ranges :: "selregion \<Rightarrow> selregion list \<Rightarrow> range list \<Rightarrow> selregion list res" where
  "split_ranges base_region out [] = Inr (out @ [base_region])"
| "split_ranges base_region out ((s, e) # ranges) =
     rbind (usub e 1) (\<lambda>e'.
     rbind (split_at_region base_region s e') (\<lambda>(left_region, right_region).
     let out' = (case left_region of Some l \<Rightarrow> out @ [l] | None \<Rightarrow> out)
     in case right_region of
          Some r \<Rightarrow> split_ranges r out' ranges
        | None \<Rightarrow> Inr out'))"

definition split_closure :: "range list list region_closure" where
  "split_closure remaining base_region =
     rbind (index remaining 0) (\<lambda>this.
     rbind (split_ranges base_region [] this) (\<lambda>out.
     Inr (tl remaining, out)))"

definition split_apply_search :: "('c, 'b, 'd, 's) xi \<Rightarrow> finder \<Rightarrow> pattern \<Rightarrow> 'd handler" where
  "split_apply_search X Y ps b =
     (if ps = [] then Inr (Some (NewMode normal_new), b)
      else rbind (map_selections_to_matches X Y ps b) (\<lambda>ranges.
        rbind (matched_len ranges) (\<lambda>n.
        rbind (len_bytes (selection b)) (\<lambda>total.
        if n = total then Inr (Some (NewMode normal_new), b)
        else rbind (buf_map_selections X split_closure ranges b) (\<lambda>(_, dy, b').
          Inr (Some (ModeAndDirtyBytes normal_new dy), b'))))))"

definition collapse_closure :: "range list list region_closure" where
  "collapse_closure remaining base_region =
     (case remaining of
        [] \<Rightarrow> Inl UnwrapNone
      | this # nxt \<Rightarrow>
          rbind (rmap (\<lambda>(s, e). rbind (usub e 1) (\<lambda>e'. Inr (inherit_direction (region_new s e') base_region))) this)
            (\<lambda>out. Inr (nxt, out)))"

definition collapse_apply_search :: "('c, 'b, 'd, 's) xi \<Rightarrow> finder \<Rightarrow> pattern \<Rightarrow> 'd handler" where
  "collapse_apply_search X Y ps b =
     (if ps = [] then Inr (Some (NewMode normal_new), b)
      else rbind (map_selections_to_matches X Y ps b) (\<lambda>ranges.
        rbind (matched_len ranges) (\<lambda>n.
        if n = 0 then Inr (Some (NewMode normal_new), b)
        else rbind (buf_map_selections X collapse_closure ranges b) (\<lambda>(_, dy, b').
          Inr (Some (ModeAndDirtyBytes normal_new dy), b')))))"

definition apply_search :: "('c, 'b, 'd, 's) xi \<Rightarrow> finder \<Rightarrow> acceptor \<Rightarrow> pattern \<Rightarrow> 'd handler" where
  "apply_search X Y a = (case a of SplitAcc _ \<Rightarrow> split_apply_search X Y | CollapseAcc \<Rightarrow> collapse_apply_search X Y)"

subsection \<open>Split mode\<close>

datatype split_action = Width nat | SplitNull | SplitSearch bool

definition split_maps :: "split_action key_map" where
  "split_maps = [
     on_char (CHR ''b'') (Width 1), on_char (CHR ''w'') (Width 2), on_char (CHR ''d'') (Width 4),
     on_char (CHR ''q'') (Width 8), on_char (CHR ''o'') (Width 16), on_char (CHR ''n'') SplitNull,
     on_char (CHR ''/'') (SplitSearch False), on_char (CHR ''?'') (SplitSearch True)]"

definition split_name :: "count_state \<Rightarrow> string" where
  "split_name cs = ''SPLIT'' @ count_display cs"

text \<open>\<open>(min..=max).step_by(width * count)\<close>, each position starting a region of that width.\<close>

definition split_width :: "nat \<Rightarrow> nat \<Rightarrow> selregion \<Rightarrow> selregion list res" where
  "split_width width n r =
     rbind (umul width n) (\<lambda>step.
     if step = 0 then Inl AssertionFailed
     else rmap (\<lambda>pos.
         rbind (umul width n) (\<lambda>w. rbind (uadd pos w) (\<lambda>e. rbind (usub e 1) (\<lambda>e'.
         Inr (with_direction (region_new pos (min (max_r r) e')) (backward r))))))
       (map (\<lambda>i. min_r r + i * step) [0 ..< Suc ((max_r r - min_r r) div step)]))"

definition split_transition :: "('c, 'b, 'd, 's) xi \<Rightarrow> finder \<Rightarrow> count_state \<Rightarrow> event \<Rightarrow> 'd handler" where
  "split_transition X Y cs evt b =
     rbind (count_transition cs evt) (\<lambda>t.
     case t of
       Update new_state \<Rightarrow> Inr (Some (NewMode (Split new_state)), b)
     | NotHandled \<Rightarrow>
         (case event_to_action split_maps evt of
            Some (Width width) \<Rightarrow>
              rbind (buf_map_selections X (\<lambda>_ r. rbind (split_width width (to_count cs) r) (\<lambda>rs. Inr ((), rs))) () b)
                (\<lambda>(_, dy, b'). Inr (Some (ModeAndDirtyBytes normal_new dy), b'))
          | Some SplitNull \<Rightarrow> split_apply_search X Y (replicate (to_count cs) (Literal 0)) b
          | Some (SplitSearch h) \<Rightarrow> Inr (Some (NewMode (search_new (SplitAcc cs) h)), b)
          | None \<Rightarrow> (case evt of Key _ \<Rightarrow> Inr (Some (NewMode normal_new), b) | _ \<Rightarrow> Inr (None, b))))"

subsection \<open>Search mode\<close>

datatype search_action =
    SInsertNull | SInsertWildcard | SRemoveLast | SRemoveThis | SCursorLeft | SCursorRight
  | SSwitchInputMode | SFinish | SCancel

definition search_maps :: "search_action key_map" where
  "search_maps = [
     on_key Backspace SRemoveLast, on_key DeleteKey SRemoveThis, on_key Enter SFinish, on_key Esc SCancel,
     on_key LeftKey SCursorLeft, on_key RightKey SCursorRight, on_ctrl (CHR ''o'') SSwitchInputMode,
     on_ctrl (CHR ''n'') SInsertNull, on_ctrl (CHR ''w'') SInsertWildcard]"

fun search_act :: "('c, 'b, 'd, 's) xi \<Rightarrow> finder \<Rightarrow> search_state \<Rightarrow> nat \<Rightarrow> search_action \<Rightarrow> 'd handler" where
  "search_act X Y s curs SInsertNull b =
     rbind (insert_literal (pattern s) curs 0) (\<lambda>(ps, c).
     Inr (Some (NewMode (SearchMode (s\<lparr>pattern := ps, pat_cursor := c, pat_half := None\<rparr>))), b))"
| "search_act X Y s curs SInsertWildcard b =
     rbind (insert_wildcard (pattern s) curs) (\<lambda>(ps, c).
     Inr (Some (NewMode (SearchMode (s\<lparr>pattern := ps, pat_cursor := c, pat_half := None\<rparr>))), b))"
| "search_act X Y s curs SRemoveLast b =
     (if curs \<noteq> 0 then
        rbind (pattern_remove (pattern s) (curs - 1)) (\<lambda>(ps, _).
        Inr (Some (NewMode (SearchMode (s\<lparr>pattern := ps, pat_cursor := curs - 1, pat_half := None\<rparr>))), b))
      else Inr (Some NoTransition, b))"
| "search_act X Y s curs SRemoveThis b =
     rbind (pattern_remove (pattern s) curs) (\<lambda>(ps, _).
     Inr (Some (NewMode (SearchMode (s\<lparr>pattern := ps, pat_cursor := curs, pat_half := None\<rparr>))), b))"
| "search_act X Y s curs SCursorLeft b =
     Inr (Some (NewMode (SearchMode (s\<lparr>pat_cursor := curs - 1, pat_half := None\<rparr>))), b)"
| "search_act X Y s curs SCursorRight b =
     Inr (Some (NewMode (SearchMode (s\<lparr>pat_cursor := (if curs < length (pattern s) then curs + 1 else curs),
       pat_half := None\<rparr>))), b)"
| "search_act X Y s curs SSwitchInputMode b =
     Inr (Some (NewMode (SearchMode (s\<lparr>pat_hex := \<not> pat_hex s, pat_cursor := curs, pat_half := None\<rparr>))), b)"
| "search_act X Y s curs SCancel b = Inr (Some (NewMode normal_new), b)"
| "search_act X Y s curs SFinish b = apply_search X Y (acc s) (pattern s) b"

definition search_transition :: "('c, 'b, 'd, 's) xi \<Rightarrow> finder \<Rightarrow> search_state \<Rightarrow> event \<Rightarrow> 'd handler" where
  "search_transition X Y s evt b =
     (case event_to_action search_maps evt of
        Some act \<Rightarrow>
          rbind (if pat_half s \<noteq> None then uadd (pat_cursor s) 1 else Inr (pat_cursor s)) (\<lambda>curs.
          search_act X Y s curs act b)
      | None \<Rightarrow>
          (case evt of
             Key (KeyEvent (Char c) mods) \<Rightarrow>
               if \<not> no_modifiers mods then Inr (None, b)
               else if \<not> pat_hex s then
                 rbind (insert_literal (pattern s) (pat_cursor s) (word_of_nat c)) (\<lambda>(ps, cur).
                 Inr (Some (NewMode (SearchMode (s\<lparr>pattern := ps, pat_cursor := cur\<rparr>))), b))
               else if \<not> is_ascii_hexdigit c then Inr (None, b)
               else rbind (unwrap (to_digit16 c)) (\<lambda>dg.
                 case pat_half s of
                   Some half \<Rightarrow>
                     rbind (insert_half_literal (pattern s) (pat_cursor s) (half OR word_of_nat dg)) (\<lambda>(ps, cur).
                     Inr (Some (NewMode (SearchMode (s\<lparr>pattern := ps, pat_cursor := cur, pat_half := None\<rparr>))), b))
                 | None \<Rightarrow>
                     rbind (insert_literal (pattern s) (pat_cursor s) (push_bit 4 (word_of_nat dg))) (\<lambda>(ps, _).
                     Inr (Some (NewMode (SearchMode (s\<lparr>pattern := ps,
                       pat_half := Some (push_bit 4 (word_of_nat dg))\<rparr>))), b)))
           | _ \<Rightarrow> Inr (None, b)))"

section \<open>The command line\<close>

text \<open>
  A \<open>String\<close> is indexed by bytes: \<open>insert\<close> and \<open>remove\<close> panic at an index that is no boundary of a
  character, \<open>remove\<close> also at the end.
\<close>

definition len_utf8 :: "rchar \<Rightarrow> nat" where
  "len_utf8 c = (if c < 0x80 then 1 else if c < 0x800 then 2 else if c < 0x10000 then 3 else 4)"

definition string_len :: "rstring \<Rightarrow> nat" where
  "string_len s = sum_list (map len_utf8 s)"

fun char_index :: "rstring \<Rightarrow> nat \<Rightarrow> nat option" where
  "char_index s 0 = Some 0"
| "char_index [] (Suc i) = None"
| "char_index (c # s) (Suc i) =
     (if len_utf8 c \<le> Suc i then map_option Suc (char_index s (Suc i - len_utf8 c)) else None)"

definition string_insert :: "rstring \<Rightarrow> nat \<Rightarrow> rchar \<Rightarrow> rstring res" where
  "string_insert s i c =
     (case char_index s i of None \<Rightarrow> Inl AssertionFailed | Some k \<Rightarrow> vec_insert s k c)"

definition string_remove :: "rstring \<Rightarrow> nat \<Rightarrow> rstring res" where
  "string_remove s i =
     (case char_index s i of None \<Rightarrow> Inl AssertionFailed | Some k \<Rightarrow> vec_remove s k)"

datatype command_action = CRemoveLast | CRemoveThis | CCursorLeft | CCursorRight | CFinish | CCancel

definition command_maps :: "command_action key_map" where
  "command_maps = [
     on_key Backspace CRemoveLast, on_key DeleteKey CRemoveThis, on_key Enter CFinish, on_key Esc CCancel,
     on_key LeftKey CCursorLeft, on_key RightKey CCursorRight]"

type_synonym 'd world = "'d buffr_collection \<times> fs"

definition cmd_quit :: "'d world \<Rightarrow> (transition \<times> 'd world) res" where
  "cmd_quit w =
     (if list_ex (\<lambda>b. dirty b \<and> path b \<noteq> None) (buf_list (fst w))
      then Inr (ModeAndInfo normal_new (str ''unsaved changes! Run :wq or :q! instead.''), w)
      else Inr (NewMode Quitting, w))"

definition cmd_force_quit :: "'d world \<Rightarrow> (transition \<times> 'd world) res" where
  "cmd_force_quit w = Inr (NewMode Quitting, w)"

definition write_failed :: "io_error \<Rightarrow> transition" where
  "write_failed err = (case err of IoError e \<Rightarrow> ModeAndInfo normal_new (str ''write failed: '' @ e))"

definition cmd_write :: "('c, 'b, 'd, 's) xi \<Rightarrow> rstring \<Rightarrow> 'd world \<Rightarrow> (transition \<times> 'd world) res" where
  "cmd_write X filename w =
     (case w of (c, F) \<Rightarrow>
     rbind (if filename = [] then rbind (current c) (\<lambda>b. Inr (path b)) else Inr (Some filename)) (\<lambda>p.
     case p of
       Some p \<Rightarrow>
         rbind (current c) (\<lambda>b.
         rbind (slice_to_cow X (data b) (full_range (data b))) (\<lambda>bs.
         case fs_write F p bs of
           (Inl err, F') \<Rightarrow> Inr (write_failed err, (c, F'))
         | (Inr _, F') \<Rightarrow>
             Inr (NewMode normal_new, (set_current c (update_path_if_missing (b\<lparr>dirty := False\<rparr>) p), F'))))
     | None \<Rightarrow> Inr (ModeAndInfo normal_new (str ''current_buffer has no path''), w)))"

text \<open>The loop of \<open>write_all\<close> and \<open>write_quit\<close>: it stops at the first failing write.\<close>

fun write_bufs :: "('c, 'b, 'd, 's) xi \<Rightarrow> fs \<Rightarrow> 'd buffer list \<Rightarrow> (io_error option \<times> 'd buffer list \<times> fs) res" where
  "write_bufs X F [] = Inr (None, [], F)"
| "write_bufs X F (b # bs) =
     (case path b of
        None \<Rightarrow> rbind (write_bufs X F bs) (\<lambda>(err, bs', F'). Inr (err, b # bs', F'))
      | Some p \<Rightarrow>
          rbind (slice_to_cow X (data b) (full_range (data b))) (\<lambda>xs.
          case fs_write F p xs of
            (Inl err, F1) \<Rightarrow> Inr (Some err, b # bs, F1)
          | (Inr _, F1) \<Rightarrow>
              rbind (write_bufs X F1 bs) (\<lambda>(err, bs', F'). Inr (err, b\<lparr>dirty := False\<rparr> # bs', F'))))"

definition cmd_write_then :: "('c, 'b, 'd, 's) xi \<Rightarrow> transition \<Rightarrow> 'd world \<Rightarrow> (transition \<times> 'd world) res" where
  "cmd_write_then X t w =
     (case w of (c, F) \<Rightarrow>
     rbind (write_bufs X F (buf_list c)) (\<lambda>(err, bs, F').
     Inr ((case err of Some e \<Rightarrow> write_failed e | None \<Rightarrow> t), (c\<lparr>buf_list := bs\<rparr>, F'))))"

definition cmd_write_all :: "('c, 'b, 'd, 's) xi \<Rightarrow> 'd world \<Rightarrow> (transition \<times> 'd world) res" where
  "cmd_write_all X w = cmd_write_then X (NewMode normal_new) w"

definition cmd_write_quit :: "('c, 'b, 'd, 's) xi \<Rightarrow> 'd world \<Rightarrow> (transition \<times> 'd world) res" where
  "cmd_write_quit X w = cmd_write_then X (NewMode Quitting) w"

definition cmd_edit :: "('c, 'b, 'd, 's) xi \<Rightarrow> rstring \<Rightarrow> 'd world \<Rightarrow> (transition \<times> 'd world) res" where
  "cmd_edit X filename w =
     (case switch_current_buffer X (snd w) (fst w) filename of
        (Inl (IoError e), c') \<Rightarrow> Inr (ModeAndInfo normal_new e, (c', snd w))
      | (Inr _, c') \<Rightarrow> Inr (ModeAndDirtyBytes normal_new ChangeLength, (c', snd w)))"

definition cmd_force_delete_current_buffer :: "'d world \<Rightarrow> (transition \<times> 'd world) res" where
  "cmd_force_delete_current_buffer w =
     rbind (delete_current (fst w)) (\<lambda>c. Inr (ModeAndDirtyBytes normal_new ChangeLength, (c, snd w)))"

definition cmd_delete_current_buffer :: "'d world \<Rightarrow> (transition \<times> 'd world) res" where
  "cmd_delete_current_buffer w =
     rbind (current (fst w)) (\<lambda>b.
     if dirty b \<and> path b \<noteq> None
     then Inr (ModeAndInfo normal_new (str ''current_buffer is dirty, use :db! if you're sure''), w)
     else cmd_force_delete_current_buffer w)"

definition run_command :: "('c, 'b, 'd, 's) xi \<Rightarrow> rstring \<Rightarrow> rstring \<Rightarrow> 'd world \<Rightarrow> (transition \<times> 'd world) res" where
  "run_command X name arg w =
     (if name = str ''q'' \<or> name = str ''quit'' then cmd_quit w
      else if name = str ''q!'' \<or> name = str ''quit!'' then cmd_force_quit w
      else if name = str ''w'' \<or> name = str ''write'' then cmd_write X arg w
      else if name = str ''wq'' then cmd_write_quit X w
      else if name = str ''wa'' \<or> name = str ''write-all'' then cmd_write_all X w
      else if name = str ''e'' \<or> name = str ''edit'' then cmd_edit X arg w
      else if name = str ''db'' \<or> name = str ''delete-current_buffer'' then cmd_delete_current_buffer w
      else if name = str ''db!'' \<or> name = str ''delete-current_buffer!'' then cmd_force_delete_current_buffer w
      else Inr (ModeAndInfo normal_new (str ''Unknown command '' @ name), w))"

definition command_finish :: "('c, 'b, 'd, 's) xi \<Rightarrow> rstring \<Rightarrow> 'd world \<Rightarrow> (transition \<times> 'd world) res" where
  "command_finish X cmd w =
     (let name = takeWhile (\<lambda>c. c \<noteq> chr (CHR '' '')) cmd;
          rest = dropWhile (\<lambda>c. c \<noteq> chr (CHR '' '')) cmd
      in run_command X name (if rest = [] then rest else tl rest) w)"

fun command_act :: "('c, 'b, 'd, 's) xi \<Rightarrow> rstring \<Rightarrow> nat \<Rightarrow> command_action \<Rightarrow> 'd world \<Rightarrow> (transition option \<times> 'd world) res" where
  "command_act X cmd curs CRemoveLast w =
     (if curs \<noteq> 0 then
        rbind (string_remove cmd (curs - 1)) (\<lambda>cmd'. Inr (Some (NewMode (Command cmd' (curs - 1))), w))
      else Inr (Some NoTransition, w))"
| "command_act X cmd curs CRemoveThis w =
     rbind (string_remove cmd curs) (\<lambda>cmd'. Inr (Some (NewMode (Command cmd' curs)), w))"
| "command_act X cmd curs CCursorLeft w = Inr (Some (NewMode (Command cmd (curs - 1))), w)"
| "command_act X cmd curs CCursorRight w =
     Inr (Some (NewMode (Command cmd (if curs < string_len cmd then curs + 1 else curs))), w)"
| "command_act X cmd curs CCancel w = Inr (Some (NewMode normal_new), w)"
| "command_act X cmd curs CFinish w = rbind (command_finish X cmd w) (\<lambda>(t, w'). Inr (Some t, w'))"

definition command_transition ::
  "('c, 'b, 'd, 's) xi \<Rightarrow> rstring \<Rightarrow> nat \<Rightarrow> event \<Rightarrow> 'd world \<Rightarrow> (transition option \<times> 'd world) res" where
  "command_transition X cmd curs evt w =
     (case event_to_action command_maps evt of
        Some act \<Rightarrow> command_act X cmd curs act w
      | None \<Rightarrow>
          (case evt of
             Key (KeyEvent (Char c) mods) \<Rightarrow>
               if \<not> no_modifiers (without_shift mods) then Inr (None, w)
               else rbind (string_insert cmd curs c) (\<lambda>cmd'.
                    rbind (uadd curs 1) (\<lambda>curs'. Inr (Some (NewMode (Command cmd' curs')), w)))
           | _ \<Rightarrow> Inr (None, w)))"

section \<open>Dispatch\<close>

definition with_current :: "'d handler \<Rightarrow> 'd world \<Rightarrow> (transition option \<times> 'd world) res" where
  "with_current h w =
     rbind (current (fst w)) (\<lambda>b. rbind (h b) (\<lambda>(t, b'). Inr (t, (set_current (fst w) b', snd w))))"

fun mode_transition ::
  "('c, 'b, 'd, 's) xi \<Rightarrow> finder \<Rightarrow> mode \<Rightarrow> event \<Rightarrow> nat \<Rightarrow> 'd world \<Rightarrow> (transition option \<times> 'd world) res" where
  "mode_transition X Y (Normal cs) evt bpl w = with_current (normal_transition X cs evt bpl) w"
| "mode_transition X Y (JumpTo ext) evt bpl w = with_current (jump_transition X ext evt bpl) w"
| "mode_transition X Y (Split cs) evt bpl w = with_current (split_transition X Y cs evt) w"
| "mode_transition X Y Collapse evt bpl w = Inr (None, w)"
| "mode_transition X Y (Replace h half) evt bpl w = with_current (replace_transition X h half evt) w"
| "mode_transition X Y (Insert m h half) evt bpl w = with_current (insert_transition X m h half evt bpl) w"
| "mode_transition X Y (Command cmd curs) evt bpl w = command_transition X cmd curs evt w"
| "mode_transition X Y (SearchMode s) evt bpl w = with_current (search_transition X Y s evt) w"
| "mode_transition X Y Quitting evt bpl w = Inl Unreachable"

definition takes_input :: "mode \<Rightarrow> bool" where
  "takes_input m = (case m of Quitting \<Rightarrow> False | _ \<Rightarrow> True)"

definition has_half_cursor :: "mode \<Rightarrow> bool" where
  "has_half_cursor m = (case m of Insert _ _ half \<Rightarrow> half \<noteq> None | _ \<Rightarrow> False)"

definition acceptor_name :: "acceptor \<Rightarrow> string" where
  "acceptor_name a = (case a of SplitAcc cs \<Rightarrow> split_name cs | CollapseAcc \<Rightarrow> ''COLLAPSE'')"

definition mode_name :: "mode \<Rightarrow> string" where
  "mode_name m =
     (case m of
        Normal cs \<Rightarrow> normal_name cs
      | JumpTo ext \<Rightarrow> if ext then ''EXTEND'' else ''JUMP''
      | Split cs \<Rightarrow> split_name cs
      | Collapse \<Rightarrow> ''COLLAPSE''
      | Replace h half \<Rightarrow> replace_name h half
      | Insert im h _ \<Rightarrow> insert_name im h
      | Command _ _ \<Rightarrow> ''COMMAND''
      | SearchMode s \<Rightarrow> acceptor_name (acc s)
      | Quitting \<Rightarrow> ''QUITTING'')"

end
