(* ===== verification/Styling.thy ===== *)
theory Styling
  imports Mode_Machine
begin

text \<open>
  \<open>src/hex_view/mod.rs\<close>: styles, the colour of a byte, and the drawing of single bytes.

  The terminal is the \<open>crossterm\<close> crate's: what the program sends to it is a list of commands, one
  constructor of \<open>out\<close> per command the code queues; \<open>stdout\<close> is a writer that accepts all of them.
  \<open>printed\<close> is the text a command list writes, and \<open>painted\<close> the characters with the background
  they are written on, given the background at the start: what \<open>SetBackgroundColor\<close> sets holds for
  the text that follows.
\<close>

section \<open>The terminal\<close>

datatype color =
    Reset | Black | DarkGrey | White | Red | DarkRed | Green | Yellow | DarkYellow | Blue | Cyan | DarkMagenta
  | AnsiValue nat
  | Rgb nat nat nat

record content_style =
  foreground_color :: "color option"
  background_color :: "color option"
  attributes :: "nat list"

datatype clear_type = ClearAll | CurrentLine | UntilNewLine

datatype out =
    MoveTo nat nat
  | Clear clear_type
  | ScrollUp nat
  | ScrollDown nat
  | SetForegroundColor color
  | SetBackgroundColor color
  | SetAttributes "nat list"
  | Print rstring
  | PrintStyled content_style rstring
  | EnterAlternateScreen
  | LeaveAlternateScreen
  | HideCursor
  | ShowCursor

definition plain :: content_style where
  "plain = \<lparr>foreground_color = None, background_color = None, attributes = []\<rparr>"

text \<open>\<open>.with(fg).on(bg)\<close>\<close>

definition fg_bg :: "color \<Rightarrow> color \<Rightarrow> content_style" where
  "fg_bg f b = \<lparr>foreground_color = Some f, background_color = Some b, attributes = []\<rparr>"

fun printed :: "out list \<Rightarrow> rstring" where
  "printed [] = []"
| "printed (Print s # os) = s @ printed os"
| "printed (PrintStyled _ s # os) = s @ printed os"
| "printed (_ # os) = printed os"

fun background :: "out list \<Rightarrow> color option \<Rightarrow> color option" where
  "background [] bg = bg"
| "background (SetBackgroundColor c # os) bg = background os (Some c)"
| "background (_ # os) bg = background os bg"

fun painted :: "out list \<Rightarrow> color option \<Rightarrow> (rchar \<times> color option) list" where
  "painted [] bg = []"
| "painted (SetBackgroundColor c # os) bg = painted os (Some c)"
| "painted (Print s # os) bg = map (\<lambda>c. (c, bg)) s @ painted os bg"
| "painted (_ # os) bg = painted os bg"

section \<open>Styles\<close>

definition COLOR_NULL :: color where "COLOR_NULL = AnsiValue 150"
definition COLOR_ASCII_PRINTABLE :: color where "COLOR_ASCII_PRINTABLE = Cyan"
definition COLOR_ASCII_WHITESPACE :: color where "COLOR_ASCII_WHITESPACE = Green"
definition COLOR_ASCII_OTHER :: color where "COLOR_ASCII_OTHER = Rgb 232 52 210"
definition COLOR_NONASCII :: color where "COLOR_NONASCII = Yellow"

datatype priority = Basic | Mark | PrioSelection | PrioCursor

record prioritized_style =
  style :: content_style
  prio :: priority

record styling_command =
  st_start :: "prioritized_style option"
  st_mid :: "prioritized_style option"
  st_end :: "prioritized_style option"

definition styling_default :: styling_command where
  "styling_default = \<lparr>st_start = None, st_mid = None, st_end = None\<rparr>"

definition start_style :: "styling_command \<Rightarrow> content_style option" where
  "start_style s = map_option style (st_start s)"

definition mid_style :: "styling_command \<Rightarrow> content_style option" where
  "mid_style s = map_option style (st_mid s)"

definition end_style :: "styling_command \<Rightarrow> content_style option" where
  "end_style s = map_option style (st_end s)"

definition with_start_style :: "styling_command \<Rightarrow> prioritized_style \<Rightarrow> styling_command" where
  "with_start_style s p = s\<lparr>st_start := Some p\<rparr>"

definition with_mid_to_end :: "styling_command \<Rightarrow> styling_command" where
  "with_mid_to_end s = \<lparr>st_start = st_start s, st_mid = None, st_end = st_mid s\<rparr>"

definition take_end_only :: "styling_command \<Rightarrow> styling_command" where
  "take_end_only s = \<lparr>st_start = None, st_mid = None, st_end = st_end s\<rparr>"

definition with_mid_style :: "styling_command \<Rightarrow> prioritized_style \<Rightarrow> styling_command" where
  "with_mid_style s p = s\<lparr>st_mid := Some p\<rparr>"

definition with_end_style :: "styling_command \<Rightarrow> prioritized_style \<Rightarrow> styling_command" where
  "with_end_style s p = s\<lparr>st_end := Some p\<rparr>"

definition queue_style :: "content_style \<Rightarrow> out list" where
  "queue_style s =
     (case foreground_color s of Some fg \<Rightarrow> [SetForegroundColor fg] | None \<Rightarrow> []) @
     (case background_color s of Some bg \<Rightarrow> [SetBackgroundColor bg] | None \<Rightarrow> []) @
     (if attributes s = [] then [] else [SetAttributes (attributes s)])"

text \<open>\<open>u8::is_ascii_graphic\<close>, \<open>is_ascii_whitespace\<close> (no vertical tab) and \<open>is_ascii\<close>.\<close>

definition is_ascii_graphic :: "nat \<Rightarrow> bool" where
  "is_ascii_graphic c \<longleftrightarrow> 0x21 \<le> c \<and> c \<le> 0x7E"

definition is_ascii_whitespace :: "nat \<Rightarrow> bool" where
  "is_ascii_whitespace c \<longleftrightarrow> c = 0x20 \<or> c = 0x09 \<or> c = 0x0A \<or> c = 0x0C \<or> c = 0x0D"

definition is_ascii :: "nat \<Rightarrow> bool" where
  "is_ascii c \<longleftrightarrow> c < 0x80"

definition get_byte_color :: "u8 \<Rightarrow> color" where
  "get_byte_color byte =
     (if byte = 0 then COLOR_NULL
      else if is_ascii_graphic (unat byte) then COLOR_ASCII_PRINTABLE
      else if is_ascii_whitespace (unat byte) then COLOR_ASCII_WHITESPACE
      else if is_ascii (unat byte) then COLOR_ASCII_OTHER
      else COLOR_NONASCII)"

definition colorize_byte :: "u8 \<Rightarrow> styling_command \<Rightarrow> styling_command" where
  "colorize_byte byte style_cmd =
     (let s = (case start_style style_cmd of Some s \<Rightarrow> s | None \<Rightarrow> plain)
      in with_start_style style_cmd
           \<lparr>style = \<lparr>foreground_color = Some (get_byte_color byte), background_color = background_color s,
             attributes = attributes s\<rparr>, prio = Basic\<rparr>)"

text \<open>The constant has 64 blanks; a debug build asserts \<open>len < 0x40\<close>, the slice needs \<open>len <= 64\<close>.\<close>

definition make_padding :: "nat \<Rightarrow> rstring res" where
  "make_padding len = (if len < 0x40 then Inr (replicate len 0x20) else Inl AssertionFailed)"

definition byte_ascii_repr :: "u8 \<Rightarrow> rstring" where
  "byte_ascii_repr byte =
     (if is_ascii_graphic (unat byte) \<or> byte = 0x20 then [unat byte] else str ''.'')"

section \<open>Drawing\<close>

definition queue_opt :: "content_style option \<Rightarrow> out list" where
  "queue_opt s = (case s of Some s \<Rightarrow> queue_style s | None \<Rightarrow> [])"

definition hex_char :: "nat \<Rightarrow> rchar" where
  "hex_char n = chr (hex_digit n)"

definition draw_hex_byte :: "u8 \<Rightarrow> styling_command \<Rightarrow> out list" where
  "draw_hex_byte byte s =
     (let style_cmd = colorize_byte byte s
      in queue_opt (start_style style_cmd) @
         [Print [hex_char (unat (drop_bit 4 byte))]] @
         queue_opt (mid_style style_cmd) @
         [Print [hex_char (unat (byte AND 0xF))]] @
         queue_opt (end_style style_cmd) @
         [Print (str '' '')])"

definition draw_ascii_byte :: "u8 \<Rightarrow> styling_command \<Rightarrow> out list" where
  "draw_ascii_byte byte s =
     (let style_cmd = colorize_byte byte s
      in queue_opt (start_style style_cmd) @ [Print (byte_ascii_repr byte)] @ queue_opt (end_style style_cmd))"

definition draw_text :: "rstring \<Rightarrow> styling_command \<Rightarrow> out list" where
  "draw_text c s = queue_opt (start_style s) @ [Print c] @ queue_opt (end_style s)"

section \<open>What is drawn\<close>

lemma printed_append [simp]: "printed (xs @ ys) = printed xs @ printed ys"
  by (induction xs rule: printed.induct) auto

lemma printed_concat [simp]: "printed (concat xss) = concat (map printed xss)"
  by (induction xss) auto

lemma background_append [simp]: "background (xs @ ys) bg = background ys (background xs bg)"
  by (induction xs bg rule: background.induct) auto

lemma painted_append [simp]: "painted (xs @ ys) bg = painted xs bg @ painted ys (background xs bg)"
  by (induction xs bg rule: painted.induct) auto

text \<open>The background a style leaves behind: its own, or the one before.\<close>

definition over :: "content_style option \<Rightarrow> color option \<Rightarrow> color option" where
  "over s bg = (case s of Some s \<Rightarrow> (case background_color s of Some c \<Rightarrow> Some c | None \<Rightarrow> bg) | None \<Rightarrow> bg)"

lemma queue_opt_effect [simp]:
  "printed (queue_opt s) = []" "painted (queue_opt s) bg = []" "background (queue_opt s) bg = over s bg"
  by (auto simp: queue_opt_def queue_style_def over_def split: option.splits)

lemma styles_colorize [simp]:
  "mid_style (colorize_byte byte s) = mid_style s" "end_style (colorize_byte byte s) = end_style s"
  "over (start_style (colorize_byte byte s)) bg = over (start_style s) bg"
  by (auto simp: colorize_byte_def with_start_style_def mid_style_def end_style_def start_style_def over_def
      plain_def Let_def split: option.splits)

lemma hex_digits_02x: "[hex_char (unat (drop_bit 4 b)), hex_char (unat (b AND 0xF))] = str (fmt_02x b)"
proof -
  have "unat (drop_bit 4 b) = unat b div 16" by (simp add: drop_bit_eq_div unat_div_distrib)
  moreover have "b AND 0xF = take_bit 4 b" by (simp add: take_bit_eq_mask mask_eq_exp_minus_1)
  then have "unat (b AND 0xF) = unat b mod 16" by (simp add: take_bit_eq_mod unat_mod_distrib)
  ultimately show ?thesis by (simp add: hex_char_def fmt_02x_def str_def)
qed

lemma printed_hex_byte [simp]: "printed (draw_hex_byte b s) = str (fmt_02x b) @ [0x20]"
  by (simp add: draw_hex_byte_def Let_def hex_digits_02x [symmetric]) (simp add: str_def chr_def)

lemma length_str [simp]: "length (str s) = length s"
  by (simp add: str_def)

lemma length_byte_ascii_repr [simp]: "length (byte_ascii_repr b) = 1"
  by (simp add: byte_ascii_repr_def)

lemma printed_ascii_byte [simp]: "printed (draw_ascii_byte b s) = byte_ascii_repr b"
  by (simp add: draw_ascii_byte_def Let_def)

lemma printed_draw_text [simp]: "printed (draw_text c s) = c"
  by (simp add: draw_text_def)

lemma background_hex_byte [simp]:
  "background (draw_hex_byte b s) bg = over (end_style s) (over (mid_style s) (over (start_style s) bg))"
  by (simp add: draw_hex_byte_def Let_def)

lemma make_padding_Inr [simp]: "n < 64 \<Longrightarrow> make_padding n = Inr (replicate n 0x20)"
  by (simp add: make_padding_def)

end
