(* ===== verification/Byte_Properties.thy ===== *)
theory Byte_Properties
  imports Styling
begin

text \<open>
  \<open>src/hex_view/byte_properties.rs\<close>: the five lines that show the bytes under the main caret as
  hexadecimal, binary, decimal and text. Of the standard library this needs the decoding of UTF-8
  and UTF-16 and the debug format of a character; the two tables of the Unicode database that the
  latter consults are the record \<open>unicode\<close>.
\<close>

section \<open>Decoding and formatting\<close>

definition within :: "nat \<Rightarrow> nat \<Rightarrow> nat \<Rightarrow> bool" where
  "within lo hi x \<longleftrightarrow> lo \<le> x \<and> x \<le> hi"

text \<open>The first character of a byte string in UTF-8, and the bytes behind it.\<close>

fun utf8_first :: "nat list \<Rightarrow> (rchar \<times> nat list) option" where
  "utf8_first [] = None"
| "utf8_first (a # r) =
     (if a < 0x80 then Some (a, r)
      else if within 0xC2 0xDF a then
        (case r of
           b # r' \<Rightarrow> if within 0x80 0xBF b then Some ((a - 0xC0) * 0x40 + (b - 0x80), r') else None
         | _ \<Rightarrow> None)
      else if within 0xE0 0xEF a then
        (case r of
           b # c # r' \<Rightarrow>
             if within (if a = 0xE0 then 0xA0 else 0x80) (if a = 0xED then 0x9F else 0xBF) b \<and> within 0x80 0xBF c
             then Some ((a - 0xE0) * 0x1000 + (b - 0x80) * 0x40 + (c - 0x80), r') else None
         | _ \<Rightarrow> None)
      else if within 0xF0 0xF4 a then
        (case r of
           b # c # d # r' \<Rightarrow>
             if within (if a = 0xF0 then 0x90 else 0x80) (if a = 0xF4 then 0x8F else 0xBF) b \<and>
                within 0x80 0xBF c \<and> within 0x80 0xBF d
             then Some ((a - 0xF0) * 0x40000 + (b - 0x80) * 0x1000 + (c - 0x80) * 0x40 + (d - 0x80), r') else None
         | _ \<Rightarrow> None)
      else None)"

lemma utf8_first_shorter: "utf8_first bs = Some (c, r) \<Longrightarrow> length r < length bs"
  by (cases bs) (auto split: if_splits list.splits)

text \<open>\<open>String::from_utf8\<close> and \<open>String::from_utf16\<close>\<close>

function from_utf8 :: "nat list \<Rightarrow> rstring option" where
  "from_utf8 [] = Some []"
| "from_utf8 (a # r) =
     (case utf8_first (a # r) of
        None \<Rightarrow> None
      | Some (c, r') \<Rightarrow> map_option (Cons c) (from_utf8 r'))"
  by pat_completeness auto
termination
  by (relation "measure length") (auto dest: utf8_first_shorter simp del: utf8_first.simps)

fun from_utf16 :: "nat list \<Rightarrow> rstring option" where
  "from_utf16 [] = Some []"
| "from_utf16 (u # us) =
     (if u < 0xD800 \<or> 0xDFFF < u then map_option (Cons u) (from_utf16 us)
      else if 0xDC00 \<le> u then None
      else case us of
        [] \<Rightarrow> None
      | v # vs \<Rightarrow>
          if within 0xDC00 0xDFFF v
          then map_option (Cons (0x10000 + (u - 0xD800) * 0x400 + (v - 0xDC00))) (from_utf16 vs)
          else None)"

record unicode =
  grapheme_extended :: "rchar \<Rightarrow> bool"
  printable :: "rchar \<Rightarrow> bool"

text \<open>\<open>{:?}\<close> of a character.\<close>

definition escape_debug :: "unicode \<Rightarrow> rchar \<Rightarrow> rstring" where
  "escape_debug U c =
     (if c = 0 then [0x5C] @ str ''0''
      else if c = 0x09 then [0x5C] @ str ''t''
      else if c = 0x0D then [0x5C] @ str ''r''
      else if c = 0x0A then [0x5C] @ str ''n''
      else if c = 0x27 \<or> c = 0x5C then [0x5C, c]
      else if grapheme_extended U c \<or> \<not> printable U c then [0x5C] @ str ''u{'' @ str (fmt_hex c) @ str ''}''
      else [c])"

definition char_debug :: "unicode \<Rightarrow> rchar \<Rightarrow> rstring" where
  "char_debug U c = [0x27] @ escape_debug U c @ [0x27]"

text \<open>\<open>{:08b}\<close>, \<open>{}\<close> of a signed integer, \<open>u32::from_be_bytes\<close> and \<open>i32::from_be_bytes\<close>.\<close>

definition fmt_08b :: "u8 \<Rightarrow> rstring" where
  "fmt_08b b = map (\<lambda>k. if bit b k then chr (CHR ''1'') else chr (CHR ''0'')) (rev [0 ..< 8])"

definition fmt_int :: "int \<Rightarrow> string" where
  "fmt_int i = (if i < 0 then ''-'' @ fmt_dec (nat (- i)) else fmt_dec (nat i))"

definition from_be_bytes :: "bytes \<Rightarrow> nat" where
  "from_be_bytes bs = foldl (\<lambda>n b. n * 256 + unat b) 0 bs"

definition u32_from_be_bytes :: "bytes \<Rightarrow> 32 word res" where
  "u32_from_be_bytes bs = (if length bs = 4 then Inr (word_of_nat (from_be_bytes bs)) else Inl UnwrapNone)"

section \<open>The characters under the caret\<close>

definition fg_style :: "color \<Rightarrow> styling_command" where
  "fg_style c = with_start_style styling_default \<lparr>style = fg_bg c Reset, prio = Basic\<rparr>"

definition BIN_ZERO_STYLE :: styling_command where "BIN_ZERO_STYLE = fg_style (AnsiValue 150)"
definition BIN_ONE_STYLE :: styling_command where "BIN_ONE_STYLE = fg_style Blue"
definition INVALID_DATA_STYLE :: styling_command where "INVALID_DATA_STYLE = fg_style Red"
definition DEFAULT_STYLE :: styling_command where "DEFAULT_STYLE = fg_style DarkMagenta"
definition DEFAULT_VALUE_STYLE :: styling_command where "DEFAULT_VALUE_STYLE = fg_style (AnsiValue 150)"

definition format_binary_byte :: "u8 \<Rightarrow> out list" where
  "format_binary_byte byte =
     concat (map (\<lambda>c. if c = chr (CHR ''0'') then draw_text [c] BIN_ZERO_STYLE
                      else if c = chr (CHR ''1'') then draw_text [c] BIN_ONE_STYLE else []) (fmt_08b byte))"

definition format_char :: "unicode \<Rightarrow> rchar \<Rightarrow> rstring" where
  "format_char U c = (if is_ascii_graphic c then [c] else char_debug U c)"

definition next_char :: "rstring \<Rightarrow> rchar res" where
  "next_char s = unwrap (case s of [] \<Rightarrow> None | c # _ \<Rightarrow> Some c)"

fun utf8_try :: "bytes \<Rightarrow> nat list \<Rightarrow> (rchar + rchar) res" where
  "utf8_try dat [] = Inr (Inl 0xFFFD)"
| "utf8_try dat (i # is) =
     rbind (slice dat 0 i) (\<lambda>bs.
     case from_utf8 (map unat bs) of
       Some s \<Rightarrow> rbind (next_char s) (\<lambda>c. Inr (Inr c))
     | None \<Rightarrow> utf8_try dat is)"

definition utf8_into_char :: "bytes \<Rightarrow> (rchar + rchar) res" where
  "utf8_into_char dat =
     (let max_char_len = (if length dat < 4 then length dat else 4)
      in utf8_try dat [1 ..< Suc max_char_len])"

definition bytes_to_4_byte_vec :: "bytes \<Rightarrow> bytes" where
  "bytes_to_4_byte_vec dat = (if length dat \<ge> 4 then take 4 dat else replicate (4 - length dat) 0 @ dat)"

definition utf16_into_char :: "bytes \<Rightarrow> (rchar + rchar) res" where
  "utf16_into_char dat =
     (case if length dat \<ge> 2 then from_utf16 [from_be_bytes [dat ! 0, dat ! 1]] else None of
        Some s \<Rightarrow> rbind (next_char s) (\<lambda>c. Inr (Inr c))
      | None \<Rightarrow>
          (case if length dat \<ge> 4
                then from_utf16 [from_be_bytes [dat ! 0, dat ! 1], from_be_bytes [dat ! 2, dat ! 3]] else None of
             Some s \<Rightarrow> rbind (next_char s) (\<lambda>c. Inr (Inr c))
           | None \<Rightarrow> Inr (Inl 0xFFFD)))"

section \<open>The formatter\<close>

record byte_properties =
  bp_data :: bytes
  bp_line :: nat

definition bp_new :: "bytes \<Rightarrow> byte_properties res" where
  "bp_new dat = (if length dat \<le> 4 then Inr \<lparr>bp_data = dat, bp_line = 0\<rparr> else Inl AssertionFailed)"

definition bp_height :: nat where
  "bp_height = 5"

definition are_all_printed :: "byte_properties \<Rightarrow> bool" where
  "are_all_printed p \<longleftrightarrow> bp_line p > bp_height - 1"

definition draw_char :: "unicode \<Rightarrow> rchar + rchar \<Rightarrow> out list" where
  "draw_char U r =
     (case r of
        Inr c \<Rightarrow> draw_text (format_char U c) DEFAULT_VALUE_STYLE
      | Inl c \<Rightarrow> draw_text [c] INVALID_DATA_STYLE)"

text \<open>A value with its label, padded to the twelfth column, and the wide value.\<close>

definition draw_values :: "string \<Rightarrow> rstring \<Rightarrow> string \<Rightarrow> rstring \<Rightarrow> out list res" where
  "draw_values label1 v1 label2 v2 =
     rbind (usub 12 (string_len v1)) (\<lambda>k.
     rbind (make_padding k) (\<lambda>padding.
     Inr (draw_text (str label1) DEFAULT_STYLE @ draw_text v1 DEFAULT_VALUE_STYLE @
          draw_text padding DEFAULT_STYLE @ draw_text (str label2) DEFAULT_STYLE @
          draw_text v2 DEFAULT_VALUE_STYLE)))"

definition line_out :: "unicode \<Rightarrow> bytes \<Rightarrow> nat \<Rightarrow> out list res" where
  "line_out U dat line =
     (let first_byte = (if dat \<noteq> [] then dat ! 0 else 0)
      in if line = 0 then
           Inr (draw_text (str ''hex u8: '') DEFAULT_STYLE @
                draw_hex_byte first_byte (colorize_byte first_byte DEFAULT_VALUE_STYLE) @
                draw_text (str ''          hex u32: '') DEFAULT_STYLE @
                concat (map (\<lambda>b. draw_hex_byte b (colorize_byte b DEFAULT_VALUE_STYLE)) dat))
         else if line = 1 then
           Inr (draw_text (str ''bin u8: '') DEFAULT_STYLE @ format_binary_byte first_byte @
                draw_text (str ''     bin u32: '') DEFAULT_STYLE @
                concat (map (\<lambda>b. format_binary_byte b @ draw_text (str '' '') DEFAULT_STYLE) dat))
         else if line = 2 then
           rbind (u32_from_be_bytes (bytes_to_4_byte_vec dat)) (\<lambda>w.
           draw_values ''dec u8: '' (str (fmt_dec (unat first_byte))) '' dec u32: '' (str (fmt_dec (unat w))))
         else if line = 3 then
           rbind (u32_from_be_bytes (bytes_to_4_byte_vec dat)) (\<lambda>w.
           draw_values ''dec i8: '' (str (fmt_int (sint first_byte))) '' dec i32: '' (str (fmt_int (sint w))))
         else if line = 4 then
           rbind (utf8_into_char dat) (\<lambda>r.
           rbind (usub 12 (case r of Inr c \<Rightarrow> string_len (format_char U c) | Inl _ \<Rightarrow> 1)) (\<lambda>k.
           rbind (make_padding k) (\<lambda>padding.
           rbind (utf16_into_char dat) (\<lambda>q.
           Inr (draw_text (str '' utf-8: '') DEFAULT_STYLE @ draw_char U r @
                draw_text padding DEFAULT_STYLE @ draw_text (str ''  utf-16: '') DEFAULT_STYLE @ draw_char U q)))))
         else Inr [])"

definition draw_line :: "unicode \<Rightarrow> byte_properties \<Rightarrow> (out list \<times> byte_properties) res" where
  "draw_line U p = rbind (line_out U (bp_data p) (bp_line p)) (\<lambda>os. Inr (os, p\<lparr>bp_line := bp_line p + 1\<rparr>))"

section \<open>Decoding undoes encoding\<close>

text \<open>A Unicode scalar value, the values a \<open>char\<close> can have.\<close>

definition scalar :: "rchar \<Rightarrow> bool" where
  "scalar c \<longleftrightarrow> c < 0xD800 \<or> 0xDFFF < c \<and> c < 0x110000"

lemma unat_byte: "n < 256 \<Longrightarrow> unat (word_of_nat n :: u8) = n"
  by (simp add: unat_of_nat take_bit_eq_mod)

lemma unat_bytes: "(\<And>n. n \<in> set ns \<Longrightarrow> n < 256) \<Longrightarrow> map unat (map word_of_nat ns :: bytes) = ns"
  by (simp add: map_idI unat_byte)

lemma unat_utf8: "c < 0x110000 \<Longrightarrow> map unat (utf8 c) =
     (if c < 0x80 then [c]
      else if c < 0x800 then [0xC0 + c div 0x40, 0x80 + c mod 0x40]
      else if c < 0x10000 then [0xE0 + c div 0x1000, 0x80 + c div 0x40 mod 0x40, 0x80 + c mod 0x40]
      else [0xF0 + c div 0x40000, 0x80 + c div 0x1000 mod 0x40, 0x80 + c div 0x40 mod 0x40, 0x80 + c mod 0x40])"
  unfolding utf8_def by (rule unat_bytes) (auto split: if_splits)

text \<open>The digits of a code point in base 64.\<close>

lemma digits64: "c div 0x1000 * 0x1000 + c div 0x40 mod 0x40 * 0x40 + c mod 0x40 = (c::nat)"
proof -
  have "c div 0x1000 * 0x40 + c div 0x40 mod 0x40 = c div 0x40"
    using div_mult_mod_eq [of "c div 0x40" "0x40"] by (simp flip: div_mult2_eq)
  then have "(c div 0x1000 * 0x40 + c div 0x40 mod 0x40) * 0x40 + c mod 0x40 = c" by simp
  then show ?thesis by (simp add: distrib_right mult.assoc)
qed

lemma digits64_4: "c div 0x40000 * 0x40000 + c div 0x1000 mod 0x40 * 0x1000 + c div 0x40 mod 0x40 * 0x40 + c mod 0x40 = (c::nat)"
proof -
  have "c div 0x40000 * 0x40 + c div 0x1000 mod 0x40 = c div 0x1000"
    using div_mult_mod_eq [of "c div 0x1000" "0x40"] by (simp flip: div_mult2_eq)
  then have "(c div 0x40000 * 0x40 + c div 0x1000 mod 0x40) * 0x1000 + c div 0x40 mod 0x40 * 0x40 + c mod 0x40 = c"
    using digits64 [of c] by simp
  then show ?thesis by (simp add: distrib_right mult.assoc)
qed

lemma utf8_first_2:
  assumes "c = x * 0x40 + z" "z < 0x40" "0x80 \<le> c" "c < 0x800"
  shows "utf8_first ([0xC0 + x, 0x80 + z] @ r) = Some (c, r)"
proof -
  have "2 \<le> x" "x < 0x20" using assms by linarith+
  with assms show ?thesis by (simp add: within_def)
qed

lemma utf8_first_3:
  assumes "c = x * 0x1000 + y * 0x40 + z" "y < 0x40" "z < 0x40" "0x800 \<le> c" "c < 0x10000" "scalar c"
  shows "utf8_first ([0xE0 + x, 0x80 + y, 0x80 + z] @ r) = Some (c, r)"
proof -
  have "x < 0x10" "x = 0 \<Longrightarrow> 0x20 \<le> y" "x = 0xD \<Longrightarrow> y < 0x20" using assms unfolding scalar_def by linarith+
  with assms show ?thesis by (cases "x = 0xD") (simp_all add: within_def)
qed

lemma utf8_first_4:
  assumes "c = w * 0x40000 + x * 0x1000 + y * 0x40 + z" "x < 0x40" "y < 0x40" "z < 0x40" "0x10000 \<le> c" "c < 0x110000"
  shows "utf8_first ([0xF0 + w, 0x80 + x, 0x80 + y, 0x80 + z] @ r) = Some (c, r)"
proof -
  have "w < 5" "w = 0 \<Longrightarrow> 0x10 \<le> x" "w = 4 \<Longrightarrow> x < 0x10" using assms by linarith+
  with assms show ?thesis by (simp add: within_def)
qed

lemma utf8_first_utf8:
  assumes "scalar c"
  shows "utf8_first (map unat (utf8 c) @ r) = Some (c, r)"
proof -
  have c: "c < 0x110000" using assms by (auto simp: scalar_def)
  consider "c < 0x80" | "0x80 \<le> c" "c < 0x800" | "0x800 \<le> c" "c < 0x10000" | "0x10000 \<le> c" by fastforce
  then show ?thesis
  proof cases
    case 2
    then show ?thesis
      using utf8_first_2 [of c "c div 0x40" "c mod 0x40" r] by (simp add: unat_utf8 [OF c] del: utf8_first.simps)
  next
    case 3
    then show ?thesis
      using utf8_first_3 [OF digits64 [symmetric], of c r] assms
      by (simp add: unat_utf8 [OF c] del: utf8_first.simps)
  next
    case 4
    then show ?thesis
      using utf8_first_4 [OF digits64_4 [symmetric], of c r] c
      by (simp add: unat_utf8 [OF c] del: utf8_first.simps)
  qed (simp add: unat_utf8 [OF c])
qed

lemma length_utf8: "0 < length (utf8 c) \<and> length (utf8 c) \<le> 4"
  by (simp add: utf8_def)

text \<open>No proper part of the encoding of a character is valid, so the loop finds the whole character.\<close>

lemma utf8_first_None: "r \<noteq> [] \<Longrightarrow> utf8_first r = None \<Longrightarrow> from_utf8 r = None"
  by (cases r) (auto simp del: utf8_first.simps)

lemma from_utf8_prefix:
  assumes "scalar c" "0 < i" "i < length (utf8 c)"
  shows "from_utf8 (take i (map unat (utf8 c))) = None"
proof (rule utf8_first_None)
  have c: "c < 0x110000" using assms(1) by (auto simp: scalar_def)
  have i: "i = 1 \<or> i = 2 \<or> i = 3" using assms(2,3) length_utf8 [of c] by linarith
  consider "c < 0x80" | "0x80 \<le> c" "c < 0x800" | "0x800 \<le> c" "c < 0x10000" | "0x10000 \<le> c" by fastforce
  then show "utf8_first (take i (map unat (utf8 c))) = None"
  proof cases
    case 1
    with assms show ?thesis by (simp add: utf8_def)
  next
    case 2
    then have "i = 1" using assms by (simp add: utf8_def)
    with 2 c show ?thesis by (simp add: unat_utf8)
  next
    case 3
    then have "i = 1 \<or> i = 2" using assms by (auto simp: utf8_def)
    moreover have "\<not> within 0xC2 0xDF (0xE0 + n)" for n by (simp add: within_def)
    ultimately show ?thesis using 3 c by (auto simp: unat_utf8 numeral_2_eq_2)
  next
    case 4
    have "\<not> within 0xC2 0xDF (0xF0 + n)" "\<not> within 0xE0 0xEF (0xF0 + n)" for n by (simp_all add: within_def)
    with i 4 c show ?thesis by (auto simp: unat_utf8 numeral_2_eq_2 numeral_3_eq_3)
  qed
qed (use assms length_utf8 [of c] in auto)

lemma from_utf8_utf8: "scalar c \<Longrightarrow> from_utf8 (map unat (utf8 c)) = Some [c]"
  using utf8_first_utf8 [of c "[]"] length_utf8 [of c]
  by (cases "map unat (utf8 c)") (auto simp del: utf8_first.simps)

lemma utf8_try_skip:
  assumes "\<And>i. i \<in> set is \<Longrightarrow> i \<le> length dat \<and> from_utf8 (map unat (take i dat)) = None"
  shows "utf8_try dat (is @ js) = utf8_try dat js"
  using assms by (induction "is") auto

lemma utf8_into_char_utf8:
  assumes "scalar c"
  shows "utf8_into_char (utf8 c @ rest) = Inr (Inr c)"
proof -
  let ?d = "utf8 c @ rest" and ?n = "length (utf8 c)"
  define m where "m = (if length ?d < 4 then length ?d else 4)"
  have n: "1 \<le> ?n" "?n \<le> m" using length_utf8 [of c] by (simp_all add: m_def Suc_le_eq)
  have "[1 ..< Suc m] = [1 ..< ?n] @ ?n # [Suc ?n ..< Suc m]"
    using n upt_add_eq_append [of 1 ?n "Suc m - ?n"] by (simp add: upt_conv_Cons)
  moreover have "utf8_try ?d ([1 ..< ?n] @ ?n # [Suc ?n ..< Suc m]) = utf8_try ?d (?n # [Suc ?n ..< Suc m])"
    using from_utf8_prefix [OF assms] by (intro utf8_try_skip) (auto simp: take_map)
  moreover have "utf8_try ?d (?n # [Suc ?n ..< Suc m]) = Inr (Inr c)"
    using from_utf8_utf8 [OF assms] by (simp add: next_char_def)
  ultimately show ?thesis by (simp add: utf8_into_char_def m_def Let_def)
qed

text \<open>The same for UTF-16, big endian.\<close>

definition utf16 :: "rchar \<Rightarrow> nat list" where
  "utf16 c = (if c < 0x10000 then [c]
    else [0xD800 + (c - 0x10000) div 0x400, 0xDC00 + (c - 0x10000) mod 0x400])"

definition be_units :: "nat list \<Rightarrow> bytes" where
  "be_units us = concat (map (\<lambda>u. [word_of_nat (u div 256), word_of_nat (u mod 256)]) us)"

lemma be_unit: "u < 0x10000 \<Longrightarrow> from_be_bytes [word_of_nat (u div 256), word_of_nat (u mod 256)] = u"
  by (simp add: from_be_bytes_def unat_byte)

lemma from_utf16_pair:
  assumes "x < 0x400" "y < 0x400"
  shows "from_utf16 [0xD800 + x, 0xDC00 + y] = Some [0x10000 + (x * 0x400 + y)]" "from_utf16 [0xD800 + x] = None"
  using assms by (simp_all add: within_def)

lemma utf16_into_char_utf16:
  assumes "scalar c"
  shows "utf16_into_char (be_units (utf16 c) @ rest) = Inr (Inr c)"
proof (cases "c < 0x10000")
  case True
  with assms show ?thesis
    using be_unit [of c] by (auto simp: utf16_into_char_def utf16_def be_units_def next_char_def scalar_def)
next
  case False
  define x where "x = (c - 0x10000) div 0x400"
  define y where "y = (c - 0x10000) mod 0x400"
  have xy: "x < 0x400" "y < 0x400"
    using assms False by (auto simp: x_def y_def scalar_def div_less_iff_less_mult)
  have "x * 0x400 + y = c - 0x10000" by (simp add: x_def y_def)
  with False have c: "0x10000 + (x * 0x400 + y) = c" by simp
  have "utf16 c = [0xD800 + x, 0xDC00 + y]" using False by (simp add: utf16_def x_def y_def)
  with from_utf16_pair [OF xy] c xy be_unit [of "0xD800 + x"] be_unit [of "0xDC00 + y"] show ?thesis
    by (simp add: utf16_into_char_def be_units_def next_char_def del: from_utf16.simps)
qed

section \<open>The formatter does not panic\<close>

text \<open>What is decoded is a Unicode scalar value.\<close>

lemma utf8_first_scalar:
  assumes "utf8_first bs = Some (c, r)"
  shows "scalar c"
proof -
  have four: "scalar ((a - 0xF0) * 0x40000 + (b - 0x80) * 0x1000 + (d - 0x80) * 0x40 + (e - 0x80))"
    if "within 0xF0 0xF4 a" "within (if a = 0xF0 then 0x90 else 0x80) (if a = 0xF4 then 0x8F else 0xBF) b"
      "within 0x80 0xBF d" "within 0x80 0xBF e" for a b d e :: nat
  proof -
    have "a = 0xF0 \<or> a = 0xF1 \<or> a = 0xF2 \<or> a = 0xF3 \<or> a = 0xF4" using that(1) unfolding within_def by linarith
    with that(2-4) show ?thesis by (auto simp: within_def scalar_def)
  qed
  obtain a bs' where bs: "bs = a # bs'" using assms by (cases bs) auto
  show ?thesis
  proof (cases "within 0xF0 0xF4 a")
    case True
    then have "\<not> a < 0x80" "\<not> within 0xC2 0xDF a" "\<not> within 0xE0 0xEF a" by (auto simp: within_def)
    with True assms bs four [OF True] show ?thesis by (auto split: if_splits list.splits)
  next
    case False
    with assms bs show ?thesis by (auto simp: within_def scalar_def split: if_splits list.splits)
  qed
qed

lemma from_utf8_scalar: "from_utf8 bs = Some s \<Longrightarrow> c \<in> set s \<Longrightarrow> scalar c"
proof (induction bs arbitrary: s rule: from_utf8.induct)
  case (2 a r)
  then obtain c' r' s' where "utf8_first (a # r) = Some (c', r')" "from_utf8 r' = Some s'" "s = c' # s'"
    by (auto simp del: utf8_first.simps split: option.splits)
  with 2 show ?case using utf8_first_scalar [of "a # r" c' r'] by (auto simp del: utf8_first.simps)
qed simp

lemma from_utf8_nonempty: "bs \<noteq> [] \<Longrightarrow> from_utf8 bs \<noteq> Some []"
  by (cases bs) (auto simp del: utf8_first.simps split: option.splits)

lemma utf8_try_total:
  assumes "\<And>i. i \<in> set is \<Longrightarrow> 0 < i \<and> i \<le> length dat"
  shows "utf8_try dat is = Inr (Inl 0xFFFD) \<or> (\<exists>c. utf8_try dat is = Inr (Inr c) \<and> scalar c)"
  using assms
proof (induction "is")
  case (Cons i "is")
  have i: "0 < i" "i \<le> length dat" using Cons.prems by auto
  show ?case
  proof (cases "from_utf8 (map unat (take i dat))")
    case None
    with Cons i show ?thesis by simp
  next
    case (Some s)
    have "take i dat \<noteq> []" using i by auto
    with Some from_utf8_nonempty [of "map unat (take i dat)"] obtain c s' where "s = c # s'" by (cases s) auto
    with Some i from_utf8_scalar [OF Some, of c] show ?thesis by (simp add: next_char_def)
  qed
qed simp

lemma utf8_into_char_total:
  "utf8_into_char dat = Inr (Inl 0xFFFD) \<or> (\<exists>c. utf8_into_char dat = Inr (Inr c) \<and> scalar c)"
  unfolding utf8_into_char_def Let_def by (rule utf8_try_total) (auto split: if_splits)

lemma from_utf16_nonempty: "us \<noteq> [] \<Longrightarrow> from_utf16 us \<noteq> Some []"
  by (cases us) (auto split: if_splits list.splits)

lemma utf16_into_char_total: "\<exists>q. utf16_into_char dat = Inr q"
  using from_utf16_nonempty
  by (auto simp: utf16_into_char_def next_char_def split: option.splits list.splits)

text \<open>Widths: the digits of a number, and the debug format of a character.\<close>

lemma length_fmt_radix: "1 < b \<Longrightarrow> 0 < k \<Longrightarrow> n < b ^ k \<Longrightarrow> length (fmt_radix b n) \<le> k"
proof (induction k arbitrary: n)
  case (Suc k)
  show ?case
  proof (cases "n < b")
    case False
    with Suc.prems have "0 < k" by (cases k) auto
    moreover have "n div b < b ^ k"
      using Suc.prems by (simp add: div_less_iff_less_mult mult.commute)
    ultimately show ?thesis using Suc.IH [of "n div b"] Suc.prems by (subst fmt_radix.simps) auto
  qed (subst fmt_radix.simps, simp)
qed simp

lemma hex_digit_ascii: "n < 16 \<Longrightarrow> chr (hex_digit n) < 0x80"
proof -
  assume "n < 16"
  then have "hex_digit n \<in> set ''0123456789abcdef''" unfolding hex_digit_def by (intro nth_mem) simp
  then show ?thesis by (auto simp: chr_def)
qed

lemma fmt_radix_ascii: "1 < b \<Longrightarrow> b \<le> 16 \<Longrightarrow> c \<in> set (fmt_radix b n) \<Longrightarrow> chr c < 0x80"
proof (induction b n rule: fmt_radix.induct)
  case (1 b n)
  show ?case
  proof (cases "n < b")
    case True
    with 1 show ?thesis by (simp add: fmt_radix.simps [of b n] hex_digit_ascii)
  next
    case False
    then have "c \<in> set (fmt_radix b (n div b)) \<or> c = hex_digit (n mod b)"
      using 1 by (auto simp: fmt_radix.simps [of b n])
    moreover have "n mod b < 16" using 1 by (meson mod_less_divisor less_le_trans zero_less_one less_trans)
    ultimately show ?thesis using 1 False hex_digit_ascii by auto
  qed
qed

lemma string_len_append [simp]: "string_len (xs @ ys) = string_len xs + string_len ys"
  by (simp add: string_len_def)

lemma string_len_ascii: "(\<And>c. c \<in> set s \<Longrightarrow> chr c < 0x80) \<Longrightarrow> string_len (str s) = length s"
  by (induction s) (auto simp: string_len_def str_def len_utf8_def)

lemma string_len_dec: "0 < k \<Longrightarrow> n < 10 ^ k \<Longrightarrow> string_len (str (fmt_dec n)) \<le> k"
  using string_len_ascii [of "fmt_dec n"] fmt_radix_ascii [of 10] length_fmt_radix [of 10 k n]
  by (simp add: fmt_dec_def)

lemma string_len_hex: "0 < k \<Longrightarrow> n < 16 ^ k \<Longrightarrow> string_len (str (fmt_hex n)) \<le> k"
  using string_len_ascii [of "fmt_hex n"] fmt_radix_ascii [of 16] length_fmt_radix [of 16 k n]
  by (simp add: fmt_hex_def)

lemma string_len_chars [simp]: "string_len [c] = len_utf8 c" "string_len [] = 0"
    "string_len (c # s) = len_utf8 c + string_len s"
  by (simp_all add: string_len_def)

lemma string_len_format_char: "scalar c \<Longrightarrow> string_len (format_char U c) \<le> 12"
  using string_len_hex [of 6 c]
  by (auto simp: format_char_def char_debug_def escape_debug_def is_ascii_graphic_def scalar_def
      len_utf8_def str_def chr_def)

lemma string_len_byte:
  "string_len (str (fmt_dec (unat (b :: u8)))) \<le> 3" "string_len (str (fmt_int (sint (b :: u8)))) \<le> 4"
proof -
  show "string_len (str (fmt_dec (unat b))) \<le> 3"
    using unsigned_less [of b, where ?'a = nat] by (intro string_len_dec) auto
  have "- 128 \<le> sint b" "sint b < 128" using sint_ge [of b] sint_lt [of b] by auto
  then have "string_len (str (fmt_dec (nat (sint b)))) \<le> 3" "string_len (str (fmt_dec (nat (- sint b)))) \<le> 3"
    by (intro string_len_dec; simp)+
  then show "string_len (str (fmt_int (sint b))) \<le> 4"
    by (auto simp: fmt_int_def str_def len_utf8_def chr_def)
qed

lemma draw_values_total: "string_len v1 \<le> 12 \<Longrightarrow> \<exists>os. draw_values l1 v1 l2 v2 = Inr os"
  by (simp add: draw_values_def)

lemma line_out_total:
  assumes "length dat \<le> 4"
  shows "\<exists>os. line_out U dat k = Inr os"
proof -
  have l: "length (bytes_to_4_byte_vec dat) = 4" using assms by (simp add: bytes_to_4_byte_vec_def)
  obtain q where q: "utf16_into_char dat = Inr q" using utf16_into_char_total by blast
  have v: "\<exists>os. draw_values l1 (str (fmt_dec (unat b))) l2 v2 = Inr os"
      "\<exists>os. draw_values l1 (str (fmt_int (sint b))) l2 v2 = Inr os" for l1 l2 v2 and b :: u8
    using string_len_byte [of b] by (auto intro!: draw_values_total)
  show ?thesis
    using l q v utf8_into_char_total [of dat] string_len_format_char [of _ U]
    by (auto simp: line_out_def u32_from_be_bytes_def Let_def)
qed

lemma draw_line_total: "length (bp_data p) \<le> 4 \<Longrightarrow> \<exists>os. draw_line U p = Inr (os, p\<lparr>bp_line := bp_line p + 1\<rparr>)"
  using line_out_total [of "bp_data p" U "bp_line p"] by (auto simp: draw_line_def)

section \<open>Correctness of the properties\<close>

text \<open>
  C39: the text lines show the character at the caret: whatever follows it, the UTF-8 encoding of a
  character, which is what typing it inserts, is shown as that character, and so is its UTF-16 encoding; the
  replacement character is never shown for them.
\<close>

theorem typed_char_shown:
  assumes "scalar c"
  shows "utf8_into_char (utf8 c @ rest) = Inr (Inr c) \<and> utf16_into_char (be_units (utf16 c) @ rest) = Inr (Inr c)"
  using utf8_into_char_utf8 [OF assms] utf16_into_char_utf16 [OF assms] by blast

theorem typed_char_shown_witness:
  "utf8_into_char (utf8 0x20AC @ [0x41]) = Inr (Inr 0x20AC) \<and>
   utf16_into_char (be_units (utf16 0x10437) @ []) = Inr (Inr 0x10437)"
  using typed_char_shown [of "0x20AC" "[0x41]"] typed_char_shown [of "0x10437" "[]"] by (simp add: scalar_def)

fun draw_lines :: "unicode \<Rightarrow> nat \<Rightarrow> byte_properties \<Rightarrow> (out list \<times> byte_properties) res" where
  "draw_lines U 0 p = Inr ([], p)"
| "draw_lines U (Suc n) p =
     rbind (draw_line U p) (\<lambda>(os, p'). rbind (draw_lines U n p') (\<lambda>(os', p''). Inr (os @ os', p'')))"

lemma draw_lines_total: "length (bp_data p) \<le> 4 \<Longrightarrow> \<exists>os. draw_lines U n p = Inr (os, p\<lparr>bp_line := bp_line p + n\<rparr>)"
proof (induction n arbitrary: p)
  case (Suc n)
  let ?p = "p\<lparr>bp_line := bp_line p + 1\<rparr>"
  obtain os where "draw_line U p = Inr (os, ?p)" using draw_line_total [OF Suc.prems] by blast
  moreover obtain os' where "draw_lines U n ?p = Inr (os', ?p\<lparr>bp_line := bp_line ?p + n\<rparr>)"
    using Suc.IH [of ?p] Suc.prems by auto
  ultimately show ?case by simp
qed simp

text \<open>
  C40: the formatter draws its five lines for every four bytes: no width underflows, whatever character is
  decoded and however it is escaped; after the fifth line it is finished, and not before.
\<close>

theorem properties_drawn:
  assumes "length dat \<le> 4"
  shows "\<exists>p os p'. bp_new dat = Inr p \<and> draw_lines U n p = Inr (os, p') \<and> (are_all_printed p' \<longleftrightarrow> 5 \<le> n)"
  using assms draw_lines_total [of "\<lparr>bp_data = dat, bp_line = 0\<rparr>" U n]
  by (auto simp: bp_new_def are_all_printed_def bp_height_def)

theorem properties_drawn_witness:
  "\<exists>p os p'. bp_new [0xF4, 0x8F, 0xBF, 0xBF] = Inr p \<and>
    draw_lines \<lparr>grapheme_extended = (\<lambda>_. True), printable = (\<lambda>_. False)\<rparr> 5 p = Inr (os, p') \<and> are_all_printed p'"
  using properties_drawn [of "[0xF4, 0x8F, 0xBF, 0xBF]" "\<lparr>grapheme_extended = (\<lambda>_. True), printable = (\<lambda>_. False)\<rparr>" 5] by auto

end
