(* ===== verification/Prompt.thy ===== *)
theory Prompt
  imports Byte_Properties
begin

text \<open>
  The two prompts of the status line, \<open>StatusLinePrompter\<close> in \<open>src/hex_view/view.rs\<close>: the pattern
  of a search and the command line, scrolled so that their cursor is in view. Each returns what it
  draws and the column it starts at, which the view hands back to it at the next drawing.
\<close>

section \<open>The first column\<close>

definition clamp_column :: "nat \<Rightarrow> nat \<Rightarrow> nat \<Rightarrow> nat" where
  "clamp_column len curs start_column =
     (if len \<le> start_column then max 1 len - 1
      else if curs < start_column then curs else start_column)"

definition with_fg :: "color \<Rightarrow> content_style" where
  "with_fg c = \<lparr>foreground_color = Some c, background_color = None, attributes = []\<rparr>"

section \<open>The search prompt\<close>

definition hex_piece :: "piece \<Rightarrow> bool \<Rightarrow> u8 option \<Rightarrow> out list" where
  "hex_piece p at_cursor half =
     (case p of
        Literal b \<Rightarrow>
          if \<not> at_cursor then [Print (str (fmt_02x b) @ str '' '')]
          else if half \<noteq> None then
            [Print [hex_char (unat (drop_bit 4 b))],
             PrintStyled (fg_bg Black White) [hex_char (unat (b AND 0xF))], Print (str '' '')]
          else [PrintStyled (fg_bg Black White) (str (fmt_02x b)), Print (str '' '')]
      | Wildcard \<Rightarrow>
          if \<not> at_cursor then [PrintStyled (with_fg DarkRed) (str ''** '')]
          else [PrintStyled (fg_bg DarkRed White) (str ''**''), Print (str '' '')])"

definition search_render_hex :: "search_state \<Rightarrow> nat \<Rightarrow> nat \<Rightarrow> (out list \<times> nat) res" where
  "search_render_hex s max_width start0 =
     (let curs = pat_cursor s; ps = pattern s; w = max_width div 3
      in rbind (uadd start0 w) (\<lambda>lim.
         rbind (if curs \<ge> lim then rbind (usub curs w) (\<lambda>a. uadd a 1) else Inr start0) (\<lambda>start_column.
         rbind (uadd start_column w) (\<lambda>lim'.
         rbind (usub curs start_column) (\<lambda>normalized_cursor.
         rbind (slice ps start_column (min (length ps) lim')) (\<lambda>shown.
         Inr (concat (map2 (\<lambda>i p. hex_piece p (normalized_cursor = i) (pat_half s)) [0 ..< length shown] shown) @
              (if curs = length ps then [PrintStyled (fg_bg Black White) (str ''  ''), Print (str '' '')] else []),
              start_column)))))))"

definition piece_width :: "piece \<Rightarrow> nat" where
  "piece_width p =
     (case p of Wildcard \<Rightarrow> 1
      | Literal b \<Rightarrow> if b = 0x20 \<or> is_ascii_graphic (unat b) then 1 else 4)"

definition text_piece :: "piece \<Rightarrow> bool \<Rightarrow> out list" where
  "text_piece p at_cursor =
     (case p of
        Literal b \<Rightarrow>
          if is_ascii_graphic (unat b) \<or> b = 0x20 then
            (if \<not> at_cursor then [Print [unat b]] else [PrintStyled (fg_bg Black White) [unat b]])
          else if \<not> at_cursor then [PrintStyled (fg_bg Black DarkGrey) (str ''<'' @ str (fmt_02x b) @ str ''>'')]
          else [PrintStyled (fg_bg Black White) (str ''<'' @ str (fmt_02x b) @ str ''>'')]
      | Wildcard \<Rightarrow>
          if \<not> at_cursor then [PrintStyled (with_fg DarkRed) (str ''*'')]
          else [PrintStyled (fg_bg DarkRed White) (str ''*'')])"

text \<open>How many pieces to drop at the front until the rest up to the cursor fits: \<open>position\<close>.\<close>

fun dropped_pieces :: "int \<Rightarrow> nat list \<Rightarrow> nat option" where
  "dropped_pieces remaining_delta [] = None"
| "dropped_pieces remaining_delta (x # xs) =
     (if remaining_delta \<le> 0 then Some 0 else map_option Suc (dropped_pieces (remaining_delta - int x) xs))"

fun text_pieces :: "nat \<Rightarrow> nat \<Rightarrow> (piece \<times> nat) list \<Rightarrow> nat \<Rightarrow> out list" where
  "text_pieces normalized_cursor i [] max_width = []"
| "text_pieces normalized_cursor i ((p, len) # rest) max_width =
     (if max_width < len then []
      else text_piece p (normalized_cursor = i) @ text_pieces normalized_cursor (Suc i) rest (max_width - len))"

definition search_render_text :: "search_state \<Rightarrow> nat \<Rightarrow> nat \<Rightarrow> (out list \<times> nat) res" where
  "search_render_text s max_width0 start0 =
     (let curs = pat_cursor s; ps = pattern s
      in rbind (usub max_width0 (if curs = length ps then 1 else 0)) (\<lambda>max_width.
         rbind (slice ps start0 (length ps)) (\<lambda>rest.
         let lengths = map piece_width rest
         in rbind (usub curs start0) (\<lambda>k.
            rbind (slice lengths 0 k) (\<lambda>before_cursor.
            let required_length = sum_list before_cursor
            in rbind (if required_length > max_width
                      then unwrap (dropped_pieces (as_isize (required_length - max_width)) lengths) else Inr 0)
                 (\<lambda>dropped.
               rbind (uadd start0 dropped) (\<lambda>start_column.
               rbind (usub curs start_column) (\<lambda>normalized_cursor.
               rbind (slice ps start_column (length ps)) (\<lambda>shown.
               Inr (text_pieces normalized_cursor 0 (zip shown (drop dropped lengths)) max_width @
                    (if curs = length ps then [PrintStyled (fg_bg Black White) (str '' '')] else []),
                    start_column))))))))))"

definition search_render :: "search_state \<Rightarrow> nat \<Rightarrow> nat \<Rightarrow> (out list \<times> nat) res" where
  "search_render s max_width last_start_col =
     rbind (usub max_width 7) (\<lambda>w.
     let start0 = clamp_column (length (pattern s)) (pat_cursor s) last_start_col
     in rbind (if pat_hex s then search_render_hex s w start0 else search_render_text s w start0) (\<lambda>(os, col).
        Inr (PrintStyled (fg_bg White Blue) (str ''search:'') # os, col)))"

section \<open>The command prompt\<close>

text \<open>\<open>&s[a..b]\<close> of a string: both ends must be boundaries of characters.\<close>

definition string_slice :: "rstring \<Rightarrow> nat \<Rightarrow> nat \<Rightarrow> rstring res" where
  "string_slice s a b =
     (case (char_index s a, char_index s b) of
        (Some i, Some j) \<Rightarrow> slice s i j
      | _ \<Rightarrow> Inl IndexOutOfBounds)"

definition command_render :: "rstring \<Rightarrow> nat \<Rightarrow> nat \<Rightarrow> nat \<Rightarrow> (out list \<times> nat) res" where
  "command_render cmd curs max_width0 last_start_col =
     rbind (usub max_width0 1) (\<lambda>w.
     let start0 = clamp_column (string_len cmd) curs last_start_col
     in rbind (usub w (if curs = string_len cmd then 1 else 0)) (\<lambda>max_width.
        rbind (usub curs start0) (\<lambda>required_length.
        rbind (if required_length > max_width then uadd start0 (required_length - max_width) else Inr start0)
          (\<lambda>start_column.
        rbind (uadd start_column max_width) (\<lambda>lim.
        rbind (string_slice cmd start_column (min (string_len cmd) lim)) (\<lambda>shown.
        Inr (PrintStyled (fg_bg White Blue) (str '':'') # Print shown #
             (if curs = string_len cmd then [PrintStyled (fg_bg Black White) (str '' '')] else []),
             start_column)))))))"

end
