(* ===== verification/Hex_View.thy ===== *)
theory Hex_View
  imports Prompt
begin

text \<open>
  \<open>src/hex_view/view.rs\<close>: the view of the current buffer. \<open>hex_view\<close> is the struct \<open>HexView\<close>
  (without the time of the last drawing, which nothing reads, and the colorizer, which has no
  state). Every function that draws returns the commands it sends to the terminal.

  A function that returns a \<open>Result\<close> is an \<open>io res\<close>: a panic, an error, or the result. An error is
  passed on to \<open>main\<close>, which ends the program, so the state after an error is not kept. The size the
  terminal reports (\<open>terminal::size()\<close>) is the argument \<open>T\<close>, \<open>None\<close> when it cannot be read.
  \<open>debug_log\<close> does nothing, because the constant \<open>DEBUG_LOG\<close> is false.
\<close>

section \<open>Results\<close>

fun iobind :: "'a io res \<Rightarrow> ('a \<Rightarrow> 'b io res) \<Rightarrow> 'b io res" where
  "iobind (Inl e) f = Inl e"
| "iobind (Inr (Inl err)) f = Inr (Inl err)"
| "iobind (Inr (Inr x)) f = f x"

definition ok :: "'a \<Rightarrow> 'a io res" where
  "ok x = Inr (Inr x)"

definition checked :: "'a res \<Rightarrow> 'a io res" where
  "checked r = rbind r ok"

lemma iobind_simps [simp]: "iobind (ok x) f = f x" "checked (Inr x) = ok x" "checked (Inl e) = Inl e"
  by (simp_all add: ok_def checked_def)

lemma iobind_eq_ok [res_simps]: "iobind m f = ok y \<longleftrightarrow> (\<exists>x. m = ok x \<and> f x = ok y)"
  by (cases "(m, f)" rule: iobind.cases) (auto simp: ok_def)

lemma checked_eq_ok [res_simps]: "checked r = ok y \<longleftrightarrow> r = Inr y"
  by (cases r) (auto simp: ok_def)

lemma ok_eq [simp]: "ok x = ok y \<longleftrightarrow> x = y"
  by (simp add: ok_def)

section \<open>The view\<close>

record 'd hex_view =
  buffers :: "'d buffr_collection"
  term_size :: "nat \<times> nat"
  bytes_per_line :: nat
  start_offset :: nat
  last_visible_rows :: nat
  last_visible_prompt_col :: nat
  view_mode :: mode
  info :: "rstring option"

type_synonym terminal = "(nat \<times> nat) option"
type_synonym 'd drawing = "(out list \<times> 'd hex_view) io res"

definition cur :: "'d hex_view \<Rightarrow> 'd buffer res" where
  "cur v = current (buffers v)"

definition set_cur :: "'d hex_view \<Rightarrow> 'd buffer \<Rightarrow> 'd hex_view" where
  "set_cur v b = v\<lparr>buffers := set_current (buffers v) b\<rparr>"

definition VERTICAL :: rstring where "VERTICAL = [0x2502]"
definition LEFTARROW :: rstring where "LEFTARROW = [0xE0B2]"

definition mixed_repr :: "u8 \<Rightarrow> rstring" where
  "mixed_repr byte =
     (if is_ascii_graphic (unat byte) \<or> byte = 0x20 then [unat byte]
      else str ''<'' @ str (fmt_02x byte) @ str ''>'')"

text \<open>\<open>let (_, height) = terminal::size().unwrap_or((80, 23)); (height as usize - 1) * 16\<close>\<close>

definition term_chunk_size :: "terminal \<Rightarrow> nat res" where
  "term_chunk_size T =
     rbind (usub (snd (case T of Some s \<Rightarrow> s | None \<Rightarrow> (80, 23))) 1) (\<lambda>h. umul h 16)"

definition with_buffr_collection :: "'d buffr_collection \<Rightarrow> terminal \<Rightarrow> 'd hex_view res" where
  "with_buffr_collection c T =
     rbind (unwrap T) (\<lambda>s.
     Inr \<lparr>buffers = c, term_size = s, bytes_per_line = 0x10, start_offset = 0, last_visible_rows = 0,
       last_visible_prompt_col = 0, view_mode = normal_new, info = None\<rparr>)"

definition set_bytes_per_line :: "'d hex_view \<Rightarrow> nat \<Rightarrow> 'd hex_view" where
  "set_bytes_per_line v bpl = v\<lparr>bytes_per_line := bpl\<rparr>"

section \<open>The window on the file\<close>

definition should_trim_buffer :: "terminal \<Rightarrow> 'd hex_view \<Rightarrow> bool res" where
  "should_trim_buffer T v =
     rbind (term_chunk_size T) (\<lambda>chunk_size.
     rbind (umul chunk_size 3) (\<lambda>buffer_threshold.
     rbind (cur v) (\<lambda>b. Inr (rope_len (data b) > buffer_threshold))))"

definition is_near_bottom :: "'d hex_view \<Rightarrow> bool res" where
  "is_near_bottom v =
     rbind (cur v) (\<lambda>b.
     rbind (usub (snd (term_size v)) 2) (\<lambda>visible_rows.
     rbind (umul visible_rows (bytes_per_line v)) (\<lambda>n.
     rbind (uadd (start_offset v) n) (\<lambda>current_view_end.
     rbind (usub (rope_len (data b)) current_view_end) (\<lambda>left.
     Inr (left < rope_len (data b) div 10))))))"

definition is_near_top :: "'d hex_view \<Rightarrow> bool res" where
  "is_near_top v = rbind (cur v) (\<lambda>b. Inr (start_offset v < rope_len (data b) div 10))"

definition add_chunk_to_bottom :: "('c, 'b, 'd, 's) xi \<Rightarrow> fs \<Rightarrow> nat \<Rightarrow> 'd hex_view \<Rightarrow> 'd hex_view io res" where
  "add_chunk_to_bottom X F chunk_size v =
     iobind (checked (cur v)) (\<lambda>b.
     case path b of
       None \<Rightarrow> ok v
     | Some p \<Rightarrow>
         iobind (Inr (fs_open F p)) (\<lambda>content.
         iobind (Inr (fs_ops F p [Seek, Read])) (\<lambda>_.
         let n = rope_len (data b); next_chunk = fs_read F content n chunk_size
         in if 0 < length next_chunk
            then checked (rbind (interval_new X n n) (\<lambda>iv.
                 rbind (rope_apply_delta X (data b) (simple_edit X iv (tree_build X [next_chunk]) n)) (\<lambda>r.
                 Inr (set_cur v (b\<lparr>data := r\<rparr>)))))
            else ok v)))"

definition add_chunk_to_top :: "('c, 'b, 'd, 's) xi \<Rightarrow> fs \<Rightarrow> nat \<Rightarrow> 'd hex_view \<Rightarrow> 'd hex_view io res" where
  "add_chunk_to_top X F chunk_size v =
     iobind (checked (cur v)) (\<lambda>b.
     case path b of
       None \<Rightarrow> ok v
     | Some p \<Rightarrow>
         iobind (Inr (fs_open F p)) (\<lambda>content.
         iobind (Inr (fs_ops F p [Seek, Read])) (\<lambda>_.
         let start_pos = start_offset v - chunk_size; prev_chunk = fs_read F content start_pos chunk_size
         in if 0 < length prev_chunk
            then checked (rbind (interval_new X 0 0) (\<lambda>iv.
                 rbind (rope_apply_delta X (data b)
                   (simple_edit X iv (tree_build X [prev_chunk]) (rope_len (data b)))) (\<lambda>r.
                 Inr ((set_cur v (b\<lparr>data := r\<rparr>))\<lparr>start_offset := start_pos\<rparr>))))
            else ok v)))"

text \<open>The bytes of a range of the rope, as a rope of one leaf.\<close>

definition copied_range :: "('c, 'b, 'd, 's) xi \<Rightarrow> rope \<Rightarrow> nat \<Rightarrow> nat \<Rightarrow> rope res" where
  "copied_range X r a b =
     rbind (chunk_collect X (Suc (length r)) (iter_chunks X r (Interval a b)) []) (\<lambda>chunks.
     Inr (tree_build X (if chunks \<noteq> [] then [chunks] else [])))"

definition trim_buffer_bottom :: "('c, 'b, 'd, 's) xi \<Rightarrow> nat \<Rightarrow> 'd hex_view \<Rightarrow> 'd hex_view res" where
  "trim_buffer_bottom X chunk_size v =
     rbind (cur v) (\<lambda>b.
     rbind (umul chunk_size 2) (\<lambda>c2.
     if chunk_size = 0 \<or> rope_len (data b) \<le> c2 then Inr v
     else rbind (usub (rope_len (data b)) chunk_size) (\<lambda>keep_len.
       if keep_len > 0
       then rbind (copied_range X (data b) 0 keep_len) (\<lambda>r.
            rbind (uadd (start_offset v) chunk_size) (\<lambda>o'.
            Inr ((set_cur v (b\<lparr>data := r\<rparr>))\<lparr>start_offset := o'\<rparr>)))
       else Inr v)))"

definition trim_buffer_top :: "('c, 'b, 'd, 's) xi \<Rightarrow> nat \<Rightarrow> 'd hex_view \<Rightarrow> 'd hex_view res" where
  "trim_buffer_top X chunk_size v =
     rbind (cur v) (\<lambda>b.
     rbind (umul chunk_size 2) (\<lambda>c2.
     if chunk_size = 0 \<or> rope_len (data b) \<le> c2 then Inr v
     else if chunk_size < rope_len (data b)
     then rbind (copied_range X (data b) chunk_size (rope_len (data b))) (\<lambda>r.
          Inr ((set_cur v (b\<lparr>data := r\<rparr>))\<lparr>start_offset := start_offset v - chunk_size\<rparr>))
     else Inr v))"

definition manage_buffer :: "('c, 'b, 'd, 's) xi \<Rightarrow> fs \<Rightarrow> 'd hex_view \<Rightarrow> 'd hex_view io res" where
  "manage_buffer X F v =
     iobind (checked (is_near_bottom v)) (\<lambda>nb.
     iobind (if nb then iobind (add_chunk_to_bottom X F 368 v) (\<lambda>v. checked (trim_buffer_top X 368 v)) else ok v) (\<lambda>v.
     iobind (checked (is_near_top v)) (\<lambda>nt.
     if nt then iobind (add_chunk_to_top X F 368 v) (\<lambda>v. checked (trim_buffer_bottom X 368 v)) else ok v)))"

section \<open>Rows\<close>

definition draw_hex_row :: "(u8 \<times> styling_command) list \<Rightarrow> out list" where
  "draw_hex_row sb = concat (map (\<lambda>(byte, style_cmd). draw_hex_byte byte style_cmd) sb)"

definition draw_ascii_row :: "(u8 \<times> styling_command) list \<Rightarrow> out list" where
  "draw_ascii_row sb = concat (map (\<lambda>(byte, style_cmd). draw_ascii_byte byte style_cmd) sb)"

definition draw_separator :: "out list" where
  "draw_separator = [SetForegroundColor White, Print (VERTICAL @ str '' '')]"

definition is_valid_offset :: "'d hex_view \<Rightarrow> nat \<Rightarrow> bool res" where
  "is_valid_offset v offset = rbind (cur v) (\<lambda>b. Inr (offset < rope_len (data b)))"

definition offset_to_row :: "'d hex_view \<Rightarrow> nat \<Rightarrow> nat io res" where
  "offset_to_row v offset =
     (if offset < start_offset v then Inr (Inl (IoError (str ''Offset before visible area'')))
      else rbind (udiv (offset - start_offset v) (bytes_per_line v)) (\<lambda>row.
        if row \<ge> snd (term_size v) then Inr (Inl (IoError (str ''Row outside visible area'')))
        else ok row))"

text \<open>\<open>(bytes_per_line - bytes.len()) % bytes_per_line\<close>, or a whole line without bytes.\<close>

definition missing_cells :: "nat \<Rightarrow> nat \<Rightarrow> nat res" where
  "missing_cells bpl n = (if n = 0 then Inr bpl else rbind (usub bpl n) (\<lambda>k. umod k bpl))"

definition draw_row ::
  "unicode \<Rightarrow> 'd hex_view \<Rightarrow> bytes \<Rightarrow> nat \<Rightarrow> styling_command list \<Rightarrow> styling_command option \<Rightarrow> byte_properties \<Rightarrow>
    (out list \<times> byte_properties) res" where
  "draw_row U v bs offset marks end_cmd props =
     rbind (offset_to_row v offset) (\<lambda>r.
     case r of
       Inl err \<Rightarrow> Inr ([], props)
     | Inr row_num \<Rightarrow>
         rbind (missing_cells (bytes_per_line v) (length bs)) (\<lambda>missing.
         rbind (umul missing 3) (\<lambda>padding_length.
         rbind (case end_cmd of Some _ \<Rightarrow> usub padding_length 2 | None \<Rightarrow> Inr padding_length) (\<lambda>pad1.
         rbind (make_padding pad1) (\<lambda>padding1.
         rbind (uadd missing 1) (\<lambda>padding_length.
         rbind (case end_cmd of Some _ \<Rightarrow> usub padding_length 1 | None \<Rightarrow> Inr padding_length) (\<lambda>pad2.
         rbind (make_padding pad2) (\<lambda>padding2.
         rbind (draw_line U props) (\<lambda>(line, props').
         Inr ([MoveTo 0 row_num, Print (str '' '')] @
              draw_hex_row (zip bs marks) @
              (case end_cmd of
                 Some s \<Rightarrow> draw_text (str '' '') (with_mid_to_end s) @ draw_text (str '' '') (take_end_only s)
               | None \<Rightarrow> []) @
              [Print padding1] @ draw_separator @
              draw_ascii_row (zip bs marks) @
              (case end_cmd of Some s \<Rightarrow> draw_text (str '' '') (take_end_only s) | None \<Rightarrow> []) @
              [Print padding2] @ draw_separator @ line @ [Clear UntilNewLine], props'))))))))))"

definition visible_bytes :: "'d hex_view \<Rightarrow> (nat \<times> nat) res" where
  "visible_bytes v =
     rbind (cur v) (\<lambda>b.
     rbind (uadd (rope_len (data b)) 1) (\<lambda>e1.
     rbind (usub (snd (term_size v)) 1) (\<lambda>h.
     rbind (umul h (bytes_per_line v)) (\<lambda>n.
     rbind (uadd (start_offset v) n) (\<lambda>e2.
     Inr (start_offset v, min e1 e2))))))"

section \<open>Styles\<close>

definition default_style :: prioritized_style where
  "default_style = \<lparr>style = fg_bg White Reset, prio = Basic\<rparr>"

definition active_selection_style :: prioritized_style where
  "active_selection_style = \<lparr>style = fg_bg Black (Rgb 110 97 16), prio = PrioSelection\<rparr>"

definition inactive_selection_style :: prioritized_style where
  "inactive_selection_style = \<lparr>style = fg_bg Black DarkGrey, prio = PrioSelection\<rparr>"

definition active_caret_style :: prioritized_style where
  "active_caret_style = \<lparr>style = fg_bg (AnsiValue 16) (Rgb 107 108 128), prio = PrioCursor\<rparr>"

definition inactive_caret_style :: prioritized_style where
  "inactive_caret_style = \<lparr>style = fg_bg Black DarkGrey, prio = PrioCursor\<rparr>"

definition empty_caret_style :: prioritized_style where
  "empty_caret_style = \<lparr>style = plain\<lparr>background_color := Some Green\<rparr>, prio = PrioCursor\<rparr>"

definition selection_style :: "selregion \<Rightarrow> prioritized_style" where
  "selection_style r = (if is_main r then active_selection_style else inactive_selection_style)"

text \<open>
  The loop of \<open>mark_commands\<close>: one styling command per visible byte. The stack of styles is the list
  \<open>stack\<close>, its top in front; \<open>regs\<close> are the regions not yet left behind.
\<close>

definition mark_caret :: "bool \<Rightarrow> selregion \<Rightarrow> nat \<Rightarrow> prioritized_style \<Rightarrow> styling_command \<Rightarrow> styling_command" where
  "mark_caret half r i base_style cmd =
     (let caret_style = (if is_main r then active_caret_style else inactive_caret_style)
      in if half then
           (if i = min_r r then with_end_style (with_mid_style cmd caret_style) base_style
            else with_mid_style (with_start_style cmd base_style) caret_style)
         else with_end_style (with_start_style cmd caret_style) base_style)"

definition mark_region ::
  "bool \<Rightarrow> selregion \<Rightarrow> nat \<Rightarrow> prioritized_style list \<Rightarrow> (styling_command \<times> prioritized_style list) res" where
  "mark_region half r i stack =
     (let stack1 = (if min_r r = i then selection_style r # stack else stack);
          cmd1 = (if min_r r = i then with_start_style styling_default (selection_style r) else styling_default)
      in rbind (if caret r = i then rbind (index stack1 0) (\<lambda>base_style. Inr (mark_caret half r i base_style cmd1))
                else Inr cmd1) (\<lambda>cmd2.
         rbind (if max_r r = i then
                  (if length stack1 < 2 then Inl ArithmeticOverflow else Inr (with_end_style cmd2 (stack1 ! 1)))
                else Inr cmd2) (\<lambda>cmd3.
         Inr (cmd3, stack1))))"

definition mark_line :: "nat \<Rightarrow> nat \<Rightarrow> prioritized_style list \<Rightarrow> styling_command \<Rightarrow> styling_command res" where
  "mark_line bpl i stack cmd =
     rbind (umod i bpl) (\<lambda>col.
     if col = 0 \<and> start_style cmd = None then rbind (index stack 0) (\<lambda>s. Inr (with_start_style cmd s))
     else rbind (uadd i 1) (\<lambda>j. rbind (umod j bpl) (\<lambda>col'.
       Inr (if col' = 0 then with_end_style cmd default_style else cmd))))"

definition mark_step ::
  "bool \<Rightarrow> nat \<Rightarrow> styling_command list \<times> prioritized_style list \<times> selregion list \<Rightarrow> nat \<Rightarrow>
    (styling_command list \<times> prioritized_style list \<times> selregion list) res" where
  "mark_step half bpl st i =
     (case st of (cmds, stack, regs) \<Rightarrow>
     rbind (case regs of [] \<Rightarrow> Inr (styling_default, stack) | r # _ \<Rightarrow> mark_region half r i stack) (\<lambda>(cmd, stack1).
     rbind (mark_line bpl i stack1 cmd) (\<lambda>cmd'.
     Inr (case regs of
            [] \<Rightarrow> (cmds @ [cmd'], stack1, [])
          | r # rest \<Rightarrow> if max_r r = i then (cmds @ [cmd'], tl stack1, rest) else (cmds @ [cmd'], stack1, regs)))))"

definition mark_commands :: "'d hex_view \<Rightarrow> nat \<times> nat \<Rightarrow> styling_command list res" where
  "mark_commands v visible =
     rbind (cur v) (\<lambda>b.
     rbind (regions_in_range (selection b) (fst visible) (snd visible)) (\<lambda>regs.
     let stack = (case regs of
                    r # _ \<Rightarrow> if min_r r < fst visible then [selection_style r, default_style] else [default_style]
                  | [] \<Rightarrow> [default_style])
     in rbind (rfold (mark_step (has_half_cursor (view_mode v)) (bytes_per_line v)) ([], stack, regs)
                [fst visible ..< snd visible]) (\<lambda>(cmds, _). Inr cmds)))"

end
