(* ===== verification/View_Loop.thy ===== *)
theory View_Loop
  imports Hex_View
begin

text \<open>
  \<open>src/hex_view/view.rs\<close>, continued: the status line, drawing, scrolling, the reaction to what a
  mode reports, and the event loop; and \<open>src/bin/tofu.rs\<close>, which opens the file and starts it.

  The event loop runs on the list of events the terminal delivers, each with the size the terminal
  has when it is handled; at the end of the list the program waits for the next event.
\<close>

section \<open>The status line\<close>

definition sels_text :: "selection \<Rightarrow> rstring" where
  "sels_text sel = str ('' '' @ fmt_dec (sel_len sel) @ '' sels ('' @ fmt_dec (main_selection sel + 1) @ '') '')"

definition position_text :: "'d buffer \<Rightarrow> rstring res" where
  "position_text b =
     (if rope_is_empty (data b) then Inr (str '' empty '')
      else rbind (main_cursor_offset (selection b)) (\<lambda>o'.
        Inr (str ('' '' @ fmt_hex o' @ ''/'' @ fmt_hex (rope_len (data b) - 1) @ '' ''))))"

definition calculate_powerline_length :: "'d hex_view \<Rightarrow> nat res" where
  "calculate_powerline_length v =
     rbind (cur v) (\<lambda>b.
     rbind (position_text b) (\<lambda>pt.
     Inr (1 + (2 + string_len (buffer_name b)) + (if dirty b then 3 else 0) + 1 +
          (2 + string_len (str (mode_name (view_mode v)))) + 1 + string_len (sels_text (selection b)) + 1 +
          string_len pt)))"

definition draw_statusline_here :: "'d hex_view \<Rightarrow> out list res" where
  "draw_statusline_here v =
     rbind (cur v) (\<lambda>b.
     rbind (position_text b) (\<lambda>pt.
     Inr [PrintStyled (with_fg Red) LEFTARROW,
          PrintStyled (fg_bg White Red)
            (str '' '' @ buffer_name b @ (if dirty b then str ''[+]'' else []) @ str '' ''),
          PrintStyled (fg_bg DarkYellow Red) LEFTARROW,
          PrintStyled (fg_bg (AnsiValue 16) DarkYellow) (str '' '' @ str (mode_name (view_mode v)) @ str '' ''),
          PrintStyled (fg_bg White DarkYellow) LEFTARROW,
          PrintStyled (fg_bg (AnsiValue 16) White) (sels_text (selection b)),
          PrintStyled (fg_bg Blue White) LEFTARROW,
          PrintStyled (fg_bg White Blue) pt]))"

definition draw_prompt :: "'d hex_view \<Rightarrow> (out list \<times> 'd hex_view) res" where
  "draw_prompt v =
     (let width = fst (term_size v); prev_col = last_visible_prompt_col v;
          place = (\<lambda>r. rbind r (\<lambda>(os, new_col).
            Inr (MoveTo 0 (snd (term_size v)) # os, v\<lparr>last_visible_prompt_col := new_col\<rparr>)))
      in case view_mode v of
           SearchMode s \<Rightarrow> place (search_render s width prev_col)
         | Command cmd curs \<Rightarrow> place (command_render cmd curs width prev_col)
         | _ \<Rightarrow> Inr ([], v))"

definition draw_statusline :: "'d hex_view \<Rightarrow> (out list \<times> 'd hex_view) res" where
  "draw_statusline v =
     rbind (calculate_powerline_length v) (\<lambda>line_length.
     rbind (case info v of
              Some i \<Rightarrow>
                rbind (usub (snd (term_size v)) 1) (\<lambda>h.
                rbind (usub (fst (term_size v)) (line_length mod 0x10000)) (\<lambda>x.
                Inr [MoveTo 0 h, Clear CurrentLine, PrintStyled (fg_bg White Blue) i,
                     MoveTo x (snd (term_size v))]))
            | None \<Rightarrow>
                rbind (usub (fst (term_size v)) (line_length mod 0x10000)) (\<lambda>x.
                Inr [MoveTo x (snd (term_size v)), Clear CurrentLine])) (\<lambda>os1.
     rbind (draw_statusline_here v) (\<lambda>os2.
     rbind (draw_prompt v) (\<lambda>(os3, v').
     Inr (os1 @ os2 @ os3, v')))))"

section \<open>Drawing\<close>

definition overflow_cursor_style :: "'d hex_view \<Rightarrow> styling_command option res" where
  "overflow_cursor_style v =
     rbind (cur v) (\<lambda>b.
     rbind (overflow_sel_style b) (\<lambda>s.
     Inr (map_option (\<lambda>st. with_end_style
       (case st of
          Tail \<Rightarrow> styling_default
        | _ \<Rightarrow> if has_half_cursor (view_mode v) then with_mid_style styling_default empty_caret_style
               else with_start_style styling_default empty_caret_style) default_style) s)))"

definition ensure_visible_data :: "('c, 'b, 'd, 's) xi \<Rightarrow> fs \<Rightarrow> 'd hex_view \<Rightarrow> 'd hex_view io res" where
  "ensure_visible_data X F v =
     iobind (checked (visible_bytes v)) (\<lambda>visible.
     iobind (checked (cur v)) (\<lambda>b.
     if snd visible > rope_len (data b)
     then iobind (checked (load_next_chunk X F b 64)) (\<lambda>(r, b'). iobind (Inr r) (\<lambda>_. ok (set_cur v b')))
     else ok v))"

text \<open>The bytes at the main caret that the properties are shown of.\<close>

definition current_bytes :: "selection \<Rightarrow> nat \<times> nat \<Rightarrow> bytes \<Rightarrow> bytes res" where
  "current_bytes sel visible cow =
     rbind (regions_in_range sel (fst visible) (snd visible)) (\<lambda>rs.
     case List.find is_main rs of
       None \<Rightarrow> Inr []
     | Some r \<Rightarrow>
         rbind (usub (caret r) (fst visible)) (\<lambda>start.
         rbind (uadd start 4) (\<lambda>e.
         slice cow start (if e > length cow then length cow else e))))"

definition row_at ::
  "unicode \<Rightarrow> 'd hex_view \<Rightarrow> nat \<Rightarrow> bytes \<Rightarrow> styling_command list \<Rightarrow> nat \<Rightarrow> byte_properties \<Rightarrow>
    (out list \<times> byte_properties) res" where
  "row_at U v start_index cow marks i props =
     rbind (usub i start_index) (\<lambda>ni.
     rbind (uadd ni (bytes_per_line v)) (\<lambda>lim.
     let ne = min (length cow) lim
     in rbind (slice cow ni ne) (\<lambda>bs.
        rbind (slice marks ni ne) (\<lambda>ms.
        rbind (uadd i (bytes_per_line v)) (\<lambda>nxt.
        rbind (cur v) (\<lambda>b.
        rbind (if nxt > rope_len (data b) then overflow_cursor_style v else Inr None) (\<lambda>e.
        draw_row U v bs i ms e props)))))))"

text \<open>\<open>(start..end).step_by(step)\<close>\<close>

definition step_range :: "nat \<times> nat \<Rightarrow> nat \<Rightarrow> nat list res" where
  "step_range r step =
     (if step = 0 then Inl AssertionFailed
      else Inr (map (\<lambda>k. fst r + k * step) [0 ..< (snd r - fst r + step - 1) div step]))"

text \<open>
  The loop that finishes the properties below the last byte. A row outside the screen prints nothing,
  so the loop need not end. The rows above the screen, at most \<open>start_offset\<close> of them, are skipped;
  after that every round prints a line, five at most, or none ever will again: \<open>start_offset + 6\<close> rounds
  are enough for every run that ends.
\<close>

fun rest_rows :: "unicode \<Rightarrow> 'd hex_view \<Rightarrow> nat \<Rightarrow> nat \<Rightarrow> byte_properties \<Rightarrow> out list res" where
  "rest_rows U v fuel offset props =
     (if are_all_printed props then Inr []
      else case fuel of
        0 \<Rightarrow> Inl OutOfFuel
      | Suc fuel' \<Rightarrow>
          rbind (draw_row U v [] offset [] None props) (\<lambda>(os, props').
          rbind (uadd offset (bytes_per_line v)) (\<lambda>offset'.
          rbind (rest_rows U v fuel' offset' props') (\<lambda>os'. Inr (os @ os')))))"

declare rest_rows.simps [simp del]

definition rest_offset :: "nat \<Rightarrow> nat \<Rightarrow> nat res" where
  "rest_offset end_index bpl =
     rbind (udiv end_index bpl) (\<lambda>a.
     rbind (umod end_index bpl) (\<lambda>m.
     rbind (if m = 0 then Inr a else uadd a 1) (\<lambda>k. umul k bpl)))"

text \<open>The rows of the visible bytes for which \<open>wanted\<close> holds, and the rest of the properties.\<close>

definition draw_body ::
  "('c, 'b, 'd, 's) xi \<Rightarrow> unicode \<Rightarrow> (nat \<Rightarrow> bool res) \<Rightarrow> 'd hex_view \<Rightarrow> (out list \<times> (nat \<times> nat)) res" where
  "draw_body X U wanted v =
     rbind (visible_bytes v) (\<lambda>visible.
     rbind (cur v) (\<lambda>b.
     rbind (slice_to_cow X (data b) (Interval (fst visible) (snd visible))) (\<lambda>cow.
     rbind (mark_commands v visible) (\<lambda>marks.
     rbind (current_bytes (selection b) visible cow) (\<lambda>cb.
     rbind (bp_new cb) (\<lambda>props.
     rbind (step_range visible (bytes_per_line v)) (\<lambda>offsets.
     rbind (rfold (\<lambda>(os, props) i.
              rbind (wanted i) (\<lambda>w.
              if w then rbind (row_at U v (fst visible) cow marks i props) (\<lambda>(os', props'). Inr (os @ os', props'))
              else Inr (os, props))) ([], props) offsets) (\<lambda>(os, props').
     rbind (rest_offset (snd visible) (bytes_per_line v)) (\<lambda>offset.
     rbind (rest_rows U v (start_offset v + 6) offset props') (\<lambda>os'.
     Inr (os @ os', visible)))))))))))"

text \<open>\<open>self.offset_to_row(i).unwrap()\<close>\<close>

definition row_invalid :: "'d hex_view \<Rightarrow> nat list \<Rightarrow> nat \<Rightarrow> bool res" where
  "row_invalid v invalidated_rows i =
     rbind (offset_to_row v i) (\<lambda>r.
     case r of Inl _ \<Rightarrow> Inl UnwrapNone | Inr row \<Rightarrow> Inr (row \<in> set invalidated_rows))"

definition draw_rows :: "('c, 'b, 'd, 's) xi \<Rightarrow> unicode \<Rightarrow> fs \<Rightarrow> nat list \<Rightarrow> 'd hex_view \<Rightarrow> 'd drawing" where
  "draw_rows X U F invalidated_rows v =
     iobind (ensure_visible_data X F v) (\<lambda>v.
     iobind (checked (draw_body X U (row_invalid v invalidated_rows) v)) (\<lambda>(os, _). ok (os, v)))"

definition draw :: "('c, 'b, 'd, 's) xi \<Rightarrow> unicode \<Rightarrow> fs \<Rightarrow> 'd hex_view \<Rightarrow> 'd drawing" where
  "draw X U F v =
     iobind (ensure_visible_data X F v) (\<lambda>v.
     iobind (checked (draw_body X U (\<lambda>_. Inr True) v)) (\<lambda>(os, visible).
     iobind (checked (rbind (usub (snd visible) (fst visible)) (\<lambda>n.
       rbind (uadd n (bytes_per_line v)) (\<lambda>m. rbind (usub m 1) (\<lambda>m. udiv m (bytes_per_line v)))))) (\<lambda>new_full_rows.
     iobind (checked (draw_statusline (v\<lparr>last_visible_rows := new_full_rows\<rparr>))) (\<lambda>(os', v').
     ok ([MoveTo 0 0, Clear ClearAll] @ os @ os', v')))))"

section \<open>Scrolling\<close>

text \<open>What is drawn before the next step.\<close>

definition then_draw :: "'d drawing \<Rightarrow> ('d hex_view \<Rightarrow> 'd drawing) \<Rightarrow> 'd drawing" where
  "then_draw d f = iobind d (\<lambda>(os, v). iobind (f v) (\<lambda>(os', v'). ok (os @ os', v')))"

text \<open>Loading and trimming in \<open>scroll_down\<close>; \<open>None\<close> when there is nowhere to scroll to.\<close>

definition scroll_load ::
  "('c, 'b, 'd, 's) xi \<Rightarrow> fs \<Rightarrow> terminal \<Rightarrow> nat \<Rightarrow> 'd hex_view \<Rightarrow> 'd hex_view option io res" where
  "scroll_load X F T next_position v =
     iobind (checked (cur v)) (\<lambda>b.
     iobind (checked (load_next_chunk X F b 64)) (\<lambda>(r, b').
     iobind (Inr r) (\<lambda>loaded.
     if loaded then
       checked (rbind (should_trim_buffer T (set_cur v b')) (\<lambda>trim.
         if trim then
           rbind (term_chunk_size T) (\<lambda>chunk_size.
           rbind (if chunk_size > 0 then trim_buffer_top X chunk_size (set_cur v b') else Inr (set_cur v b')) (\<lambda>v'.
           Inr (Some v')))
         else Inr (Some (set_cur v b'))))
     else ok (if next_position \<ge> rope_len (data b) then None else Some (set_cur v b')))))"

definition scroll_down ::
  "('c, 'b, 'd, 's) xi \<Rightarrow> unicode \<Rightarrow> fs \<Rightarrow> terminal \<Rightarrow> nat \<Rightarrow> 'd hex_view \<Rightarrow> 'd drawing" where
  "scroll_down X U F T line_count v =
     iobind (checked (term_chunk_size T)) (\<lambda>_.
     iobind (checked (cur v)) (\<lambda>b.
     iobind (checked (rbind (umul line_count 16) (uadd (start_offset v)))) (\<lambda>next_position.
     iobind (checked (usub (snd (term_size v)) 1)) (\<lambda>visible_rows.
     iobind (checked (rbind (umul visible_rows 16) (uadd next_position))) (\<lambda>_.
     iobind (checked (rbind (umul (snd (term_size v)) (bytes_per_line v)) (uadd next_position))) (\<lambda>next_visible_end.
     iobind (if next_visible_end > rope_len (data b) then scroll_load X F T next_position v else ok (Some v)) (\<lambda>w.
     case w of
       None \<Rightarrow> ok ([], v)
     | Some v1 \<Rightarrow>
         iobind (checked (cur v1)) (\<lambda>b1.
         if next_position \<ge> rope_len (data b1) then ok ([], v1)
         else let v2 = v1\<lparr>start_offset := next_position\<rparr>
              in if line_count > visible_rows then draw X U F v2
                 else iobind (checked (usub (snd (term_size v)) 2)) (\<lambda>bottom.
                      iobind (checked (usub visible_rows line_count)) (\<lambda>first.
                      iobind (draw_rows X U F ([first ..< Suc bottom] @ [0 ..< bp_height]) v2) (\<lambda>(os, v3).
                      ok ([ScrollUp line_count, MoveTo 0 bottom, Clear CurrentLine] @ os, v3))))))))))))"

definition scroll_up :: "('c, 'b, 'd, 's) xi \<Rightarrow> unicode \<Rightarrow> fs \<Rightarrow> nat \<Rightarrow> 'd hex_view \<Rightarrow> 'd drawing" where
  "scroll_up X U F line_count v =
     iobind (checked (umul 0x10 line_count)) (\<lambda>n.
     if start_offset v < n then ok ([], v)
     else let v1 = v\<lparr>start_offset := start_offset v - n\<rparr>
          in iobind (checked (usub (snd (term_size v)) 1)) (\<lambda>visible_rows.
             if line_count > visible_rows then draw X U F v1
             else iobind (draw_rows X U F [0 ..< (line_count + bp_height) mod 0x10000] v1) (\<lambda>(os, v2).
               ok ([ScrollDown line_count, MoveTo 0 visible_rows, Clear CurrentLine] @ os, v2))))"

text \<open>Division of an \<open>isize\<close> truncates towards zero.\<close>

definition idiv :: "int \<Rightarrow> int \<Rightarrow> int res" where
  "idiv a b = (if b = 0 then Inl ArithmeticOverflow else Inr (sgn a * sgn b * (\<bar>a\<bar> div \<bar>b\<bar>)))"

text \<open>How far the main caret is outside the visible bytes, in lines.\<close>

definition lines_off :: "'d hex_view \<Rightarrow> int option res" where
  "lines_off v =
     rbind (cur v) (\<lambda>b.
     rbind (main_cursor_offset (selection b)) (\<lambda>c.
     rbind (visible_bytes v) (\<lambda>visible.
     let bpl = as_isize (bytes_per_line v)
     in if c < fst visible then
          rbind (ichecked (as_isize c - as_isize (fst visible))) (\<lambda>delta.
          rbind (ichecked (delta - bpl)) (\<lambda>x. rbind (idiv (x + 1) bpl) (\<lambda>l. Inr (Some l))))
        else if c \<ge> snd visible then
          rbind (ichecked (as_isize (snd visible) - 1)) (\<lambda>e.
          rbind (ichecked (as_isize c - e)) (\<lambda>delta.
          rbind (ichecked (delta + bpl)) (\<lambda>x. rbind (idiv (x - 1) bpl) (\<lambda>l. Inr (Some l)))))
        else Inr None)))"

definition maybe_update_offset ::
  "('c, 'b, 'd, 's) xi \<Rightarrow> unicode \<Rightarrow> fs \<Rightarrow> terminal \<Rightarrow> 'd hex_view \<Rightarrow> 'd drawing" where
  "maybe_update_offset X U F T v =
     iobind (checked (cur v)) (\<lambda>b.
     if rope_is_empty (data b) then ok ([], v\<lparr>start_offset := 0\<rparr>)
     else iobind (checked (main_cursor_offset (selection b))) (\<lambda>c.
       iobind (checked (visible_bytes v)) (\<lambda>visible.
       iobind (checked (lines_off v)) (\<lambda>l.
       case l of
         None \<Rightarrow> ok ([], v)
       | Some line_delta \<Rightarrow>
           if c < fst visible then scroll_up X U F (nat \<bar>line_delta\<bar>) v
           else scroll_down X U F T (as_usize line_delta) v))))"

definition maybe_update_offset_and_draw ::
  "('c, 'b, 'd, 's) xi \<Rightarrow> unicode \<Rightarrow> fs \<Rightarrow> 'd hex_view \<Rightarrow> 'd drawing" where
  "maybe_update_offset_and_draw X U F v =
     iobind (checked (rbind (cur v) (\<lambda>b. main_cursor_offset (selection b)))) (\<lambda>c.
     iobind (checked (visible_bytes v)) (\<lambda>visible.
     iobind (if c < fst visible
             then checked (rbind (umod c (bytes_per_line v)) (\<lambda>m. Inr (c - m)))
             else if c \<ge> snd visible
             then checked (rbind (usub (snd (term_size v)) 1) (\<lambda>h.
               rbind (umul h (bytes_per_line v)) (\<lambda>bytes_per_screen.
               rbind (umod c (bytes_per_line v)) (\<lambda>m.
               rbind (uadd (c - m) (bytes_per_line v)) (\<lambda>e. Inr (e - bytes_per_screen))))))
             else ok (start_offset v)) (\<lambda>o'.
     draw X U F (v\<lparr>start_offset := o'\<rparr>))))"

section \<open>Transitions\<close>

definition invalid_rows :: "('c, 'b, 'd, 's) xi \<Rightarrow> 'd hex_view \<Rightarrow> nat \<times> nat \<Rightarrow> interval list \<Rightarrow> nat list res" where
  "invalid_rows X v visible ivs =
     rmap (\<lambda>byte. rbind (usub byte (start_offset v)) (\<lambda>d.
         rbind (udiv d (bytes_per_line v)) (\<lambda>row. Inr (row mod 0x10000))))
       (concat (map (\<lambda>x. let s = interval_intersect X (Interval (fst visible) (snd visible)) x
         in if interval_is_empty X s then [] else [iv_start s ..< iv_end s]) ivs))"

definition transition_dirty_bytes ::
  "('c, 'b, 'd, 's) xi \<Rightarrow> unicode \<Rightarrow> fs \<Rightarrow> terminal \<Rightarrow> dirty_bytes \<Rightarrow> 'd hex_view \<Rightarrow> 'd drawing" where
  "transition_dirty_bytes X U F T db v =
     (case db of
        ChangeInPlace ivs \<Rightarrow>
          then_draw (maybe_update_offset X U F T v) (\<lambda>v.
          iobind (checked (visible_bytes v)) (\<lambda>visible.
          iobind (checked (invalid_rows X v visible ivs)) (\<lambda>rows.
          draw_rows X U F (rows @ [0 ..< bp_height]) v)))
      | ChangeLength \<Rightarrow> maybe_update_offset_and_draw X U F v)"

definition view_transition ::
  "('c, 'b, 'd, 's) xi \<Rightarrow> unicode \<Rightarrow> fs \<Rightarrow> terminal \<Rightarrow> transition \<Rightarrow> 'd hex_view \<Rightarrow> 'd drawing" where
  "view_transition X U F T t v =
     (let v = v\<lparr>info := None\<rparr>
      in case t of
           NoTransition \<Rightarrow> ok ([], v)
         | Dirty db \<Rightarrow> transition_dirty_bytes X U F T db v
         | NewMode m \<Rightarrow> ok ([], v\<lparr>view_mode := m\<rparr>)
         | ModeAndDirtyBytes m db \<Rightarrow> transition_dirty_bytes X U F T db (v\<lparr>view_mode := m\<rparr>)
         | ModeAndInfo m i \<Rightarrow> ok ([], v\<lparr>view_mode := m, info := Some i\<rparr>))"

text \<open>The scrolling keys: move every caret by one line and scroll by one.\<close>

definition move_all ::
  "('c, 'b, 'd, 's) xi \<Rightarrow> direction \<Rightarrow> 'd hex_view \<Rightarrow> 'd hex_view res" where
  "move_all X dir v =
     rbind (cur v) (\<lambda>b.
     rbind (buf_map_selections X
       (single (\<lambda>r. simple_move r dir (bytes_per_line v) (rope_len (data b)) 1) stateless) () b) (\<lambda>(_, _, b').
     Inr (set_cur v b')))"

definition handle_event_default ::
  "('c, 'b, 'd, 's) xi \<Rightarrow> unicode \<Rightarrow> fs \<Rightarrow> terminal \<Rightarrow> event \<Rightarrow> 'd hex_view \<Rightarrow> 'd drawing" where
  "handle_event_default X U F T evt v =
     (case evt of
        Resize x y \<Rightarrow> draw X U F (v\<lparr>term_size := (x, y)\<rparr>)
      | Key (KeyEvent k m) \<Rightarrow>
          if k = Char (chr (CHR ''e'')) \<and> m = NONE\<lparr>control := True\<rparr> then
            iobind (checked (term_chunk_size T)) (\<lambda>chunk_size.
            iobind (checked (cur v)) (\<lambda>b.
            iobind (checked (load_next_chunk X F b chunk_size)) (\<lambda>(r, b').
            iobind (Inr r) (\<lambda>_.
            iobind (checked (move_all X Down (set_cur v b'))) (\<lambda>v.
            then_draw (scroll_down X U F T 1 v) (draw X U F))))))
          else if k = Char (chr (CHR ''y'')) \<and> m = NONE\<lparr>control := True\<rparr> then
            iobind (checked (move_all X Up v)) (\<lambda>v.
            then_draw (scroll_up X U F 1 v) (draw X U F))
          else ok ([], v)
      | OtherEvent _ \<Rightarrow> ok ([], v))"

section \<open>The event loop\<close>

definition handle_event ::
  "('c, 'b, 'd, 's) xi \<Rightarrow> finder \<Rightarrow> unicode \<Rightarrow> event \<times> terminal \<Rightarrow> 'd hex_view \<times> fs \<Rightarrow>
    (out list \<times> 'd hex_view \<times> fs) io res" where
  "handle_event X Y U et vf =
     (case (et, vf) of ((evt, T), (v, F)) \<Rightarrow>
     iobind (checked (mode_transition X Y (view_mode v) evt (bytes_per_line v) (buffers v, F))) (\<lambda>(t, (c, F')).
     let v1 = v\<lparr>buffers := c\<rparr>
     in iobind (case t of
                  Some t \<Rightarrow> view_transition X U F' T t v1
                | None \<Rightarrow> handle_event_default X U F' T evt v1) (\<lambda>(os, v2).
        iobind (checked (draw_statusline v2)) (\<lambda>(os', v3). ok (os @ os', v3, F')))))"

fun event_loop ::
  "('c, 'b, 'd, 's) xi \<Rightarrow> finder \<Rightarrow> unicode \<Rightarrow> (event \<times> terminal) list \<Rightarrow> 'd hex_view \<times> fs \<Rightarrow>
    (out list \<times> 'd hex_view \<times> fs) io res" where
  "event_loop X Y U [] (v, F) = ok ([], v, F)"
| "event_loop X Y U (et # rest) (v, F) =
     (if \<not> takes_input (view_mode v) then ok ([], v, F)
      else iobind (handle_event X Y U et (v, F)) (\<lambda>(os, vf).
        iobind (event_loop X Y U rest vf) (\<lambda>(os', vf'). ok (os @ os', vf'))))"

definition run_event_loop ::
  "('c, 'b, 'd, 's) xi \<Rightarrow> finder \<Rightarrow> unicode \<Rightarrow> (event \<times> terminal) list \<Rightarrow> 'd hex_view \<times> fs \<Rightarrow>
    (out list \<times> 'd hex_view \<times> fs) io res" where
  "run_event_loop X Y U evts vf =
     iobind (draw X U (snd vf) (fst vf)) (\<lambda>(os, v).
     iobind (event_loop X Y U evts (v, snd vf)) (\<lambda>(os', v', F').
     ok ([EnterAlternateScreen, HideCursor] @ os @ os' @
         (if takes_input (view_mode v') then [] else [ShowCursor, LeaveAlternateScreen]), v', F')))"

section \<open>The program\<close>

text \<open>The buffers at the start: the first chunk of the file named on the command line, or none.\<close>

definition open_first :: "('c, 'b, 'd, 's) xi \<Rightarrow> fs \<Rightarrow> terminal \<Rightarrow> path option \<Rightarrow> 'd buffr_collection res" where
  "open_first X F T filename =
     (case filename of
        None \<Rightarrow> Inr collection_new
      | Some p \<Rightarrow>
          (case fs_open F p of
             Inl _ \<Rightarrow> Inl ExplicitPanic
           | Inr content \<Rightarrow>
               rbind (term_chunk_size T) (\<lambda>chunk_size.
               case fs_ops F p [Read] of
                 Inl _ \<Rightarrow> Inl ExplicitPanic
               | Inr _ \<Rightarrow> Inr (with_current_buffer (from_data_and_path X (fs_read F content 0 chunk_size) (Some p))))))"

definition tofu_main ::
  "('c, 'b, 'd, 's) xi \<Rightarrow> finder \<Rightarrow> unicode \<Rightarrow> fs \<Rightarrow> terminal \<Rightarrow> path option \<Rightarrow> (event \<times> terminal) list \<Rightarrow>
    (out list \<times> 'd hex_view \<times> fs) res" where
  "tofu_main X Y U F T filename evts =
     rbind (open_first X F T filename) (\<lambda>c.
     rbind (with_buffr_collection c T) (\<lambda>v.
     rbind (run_event_loop X Y U evts (v, F)) (\<lambda>r.
     case r of Inl _ \<Rightarrow> Inl ExplicitPanic | Inr x \<Rightarrow> Inr x)))"

end
