(* ===== verification/Highlight.thy ===== *)
theory Highlight
  imports View_Loop
begin

text \<open>
  The highlighting of the selections: \<open>mark_commands\<close> gives one styling command per visible byte, and
  drawing a line with these commands paints every digit on the background its byte should have.
\<close>

section \<open>What should be seen\<close>

definition sel_color :: "selregion \<Rightarrow> color" where
  "sel_color r = (if is_main r then Rgb 110 97 16 else DarkGrey)"

definition caret_color :: "selregion \<Rightarrow> color" where
  "caret_color r = (if is_main r then Rgb 107 108 128 else DarkGrey)"

text \<open>The region that covers a byte.\<close>

definition covering :: "selregion list \<Rightarrow> nat \<Rightarrow> selregion option" where
  "covering rs i = List.find (\<lambda>r. min_r r \<le> i \<and> i \<le> max_r r) rs"

text \<open>
  The backgrounds of the two digits of byte \<open>i\<close> and of the blank behind them. While half a byte is
  entered the caret is on the second digit only.
\<close>

definition high_bg :: "bool \<Rightarrow> selregion option \<Rightarrow> nat \<Rightarrow> color" where
  "high_bg half c i =
     (case c of None \<Rightarrow> Reset | Some r \<Rightarrow> if caret r = i \<and> \<not> half then caret_color r else sel_color r)"

definition low_bg :: "selregion option \<Rightarrow> nat \<Rightarrow> color" where
  "low_bg c i = (case c of None \<Rightarrow> Reset | Some r \<Rightarrow> if caret r = i then caret_color r else sel_color r)"

definition gap_bg :: "nat \<Rightarrow> selregion option \<Rightarrow> nat \<Rightarrow> color" where
  "gap_bg bpl c i =
     (if Suc i mod bpl = 0 then Reset
      else case c of None \<Rightarrow> Reset | Some r \<Rightarrow> if i < max_r r then sel_color r else Reset)"

section \<open>The loop\<close>

definition stack_at :: "nat \<Rightarrow> selregion list \<Rightarrow> prioritized_style list" where
  "stack_at i rs =
     (case rs of
        r # _ \<Rightarrow> if min_r r < i then [selection_style r, default_style] else [default_style]
      | [] \<Rightarrow> [default_style])"

definition left_behind :: "nat \<Rightarrow> selregion list \<Rightarrow> selregion list" where
  "left_behind i rs = dropWhile (\<lambda>r. max_r r < i) rs"

text \<open>
  A styling command paints byte \<open>i\<close>, covered by \<open>c\<close>, right: from the background \<open>prev\<close> left by the byte
  before it, or from any background at the start of a line.
\<close>

definition paints :: "bool \<Rightarrow> nat \<Rightarrow> selregion option \<Rightarrow> color \<Rightarrow> nat \<Rightarrow> styling_command \<Rightarrow> bool" where
  "paints half bpl c prev i m \<longleftrightarrow>
     (\<forall>bg. i mod bpl = 0 \<or> bg = Some prev \<longrightarrow> over (start_style m) bg = Some (high_bg half c i)) \<and>
     over (mid_style m) (Some (high_bg half c i)) = Some (low_bg c i) \<and>
     over (end_style m) (Some (low_bg c i)) = Some (gap_bg bpl c i)"

definition top_color :: "nat \<Rightarrow> selregion list \<Rightarrow> color" where
  "top_color i rs = (case rs of r # _ \<Rightarrow> if min_r r < i then sel_color r else Reset | [] \<Rightarrow> Reset)"

lemma style_colors [simp]:
  "background_color (style default_style) = Some Reset"
  "background_color (style (selection_style r)) = Some (sel_color r)"
  "background_color (style active_caret_style) = Some (Rgb 107 108 128)"
  "background_color (style inactive_caret_style) = Some DarkGrey"
  by (simp_all add: default_style_def selection_style_def active_selection_style_def inactive_selection_style_def
      active_caret_style_def inactive_caret_style_def sel_color_def fg_bg_def)

lemmas styling_defs = start_style_def mid_style_def end_style_def with_start_style_def with_mid_style_def
  with_end_style_def styling_default_def over_def

lemma caret_ends: "caret r = min_r r \<or> caret r = max_r r"
  by (auto simp: min_r_def max_r_def)

lemma mod_neighbours: "1 < bpl \<Longrightarrow> i mod bpl = 0 \<Longrightarrow> Suc i mod bpl \<noteq> 0"
  by (simp add: mod_Suc)

text \<open>One round of the loop: behind all regions, in front of the next one, and inside it.\<close>

lemma mark_step_none:
  assumes "1 < bpl" "i + 1 \<le> usize_max"
  shows "\<exists>m. mark_step half bpl (cmds, [default_style], []) i = Inr (cmds @ [m], [default_style], []) \<and>
    paints half bpl None Reset i m"
  using assms mod_neighbours [of bpl i]
  by (auto simp: mark_step_def mark_line_def paints_def styling_defs high_bg_def low_bg_def gap_bg_def)

lemma mark_step_before:
  assumes "1 < bpl" "i + 1 \<le> usize_max" "i < min_r r"
  shows "\<exists>m. mark_step half bpl (cmds, [default_style], r # rs) i = Inr (cmds @ [m], [default_style], r # rs) \<and>
    paints half bpl None Reset i m"
proof -
  have "caret r \<noteq> i" "max_r r \<noteq> i" "min_r r \<noteq> i" using assms(3) min_le_max_r [of r] caret_ends [of r] by auto
  with assms mod_neighbours [of bpl i] show ?thesis
    by (auto simp: mark_step_def mark_region_def mark_line_def paints_def styling_defs high_bg_def low_bg_def
        gap_bg_def)
qed

lemma mark_step_inside:
  assumes "1 < bpl" "i + 1 \<le> usize_max" "min_r r \<le> i" "i \<le> max_r r"
  shows "\<exists>m. mark_step half bpl (cmds, stack_at i (r # rs), r # rs) i =
      Inr (cmds @ [m], (if max_r r = i then [default_style] else [selection_style r, default_style]),
        if max_r r = i then rs else r # rs) \<and>
    paints half bpl (Some r) (top_color i (r # rs)) i m"
proof -
  note defs = mark_step_def mark_region_def mark_line_def mark_caret_def paints_def styling_defs high_bg_def
    low_bg_def gap_bg_def stack_at_def top_color_def caret_color_def
  have c: "caret r = i \<Longrightarrow> min_r r = i \<or> max_r r = i" using caret_ends [of r] by auto
  show ?thesis
  proof (cases "min_r r = i")
    case True
    with assms mod_neighbours [of bpl i] show ?thesis by (auto simp: defs Let_def)
  next
    case False
    with assms c mod_neighbours [of bpl i] show ?thesis by (auto simp: defs Let_def)
  qed
qed

text \<open>A list of commands paints the bytes from \<open>i\<close> on.\<close>

fun painting :: "bool \<Rightarrow> nat \<Rightarrow> selregion list \<Rightarrow> color \<Rightarrow> nat \<Rightarrow> styling_command list \<Rightarrow> bool" where
  "painting half bpl rs prev i [] \<longleftrightarrow> True"
| "painting half bpl rs prev i (m # ms) \<longleftrightarrow>
     paints half bpl (covering rs i) prev i m \<and> painting half bpl rs (gap_bg bpl (covering rs i) i) (Suc i) ms"

lemma painting_cong:
  "(\<And>k. i \<le> k \<Longrightarrow> k < i + length ms \<Longrightarrow> covering rs k = covering rs' k) \<Longrightarrow>
    painting half bpl rs prev i ms = painting half bpl rs' prev i ms"
  by (induction ms arbitrary: prev i) auto

lemma painting_line_start:
  "i mod bpl = 0 \<Longrightarrow> painting half bpl rs prev i ms = painting half bpl rs prev' i ms"
  by (cases ms) (auto simp: paints_def)

lemma covering_sorted:
  assumes "sorted_wrt before (r # rs)" "i \<le> max_r r"
  shows "covering (r # rs) i = (if min_r r \<le> i then Some r else None)"
proof -
  have "\<not> min_r q \<le> i" if "q \<in> set rs" for q using that assms by (auto simp: before_def)
  then have "covering rs i = None" by (auto simp: covering_def find_None_iff)
  with assms(2) show ?thesis by (simp add: covering_def)
qed

lemma covering_tl: "max_r r < i \<Longrightarrow> covering (r # rs) i = covering rs i"
  by (simp add: covering_def)

lemma mark_step_round:
  assumes rs: "sorted_wrt before rs" "\<And>r. r \<in> set rs \<Longrightarrow> i \<le> max_r r" and b: "1 < bpl" "i + 1 \<le> usize_max"
  shows "\<exists>m rs'. mark_step half bpl (cmds, stack_at i rs, rs) i = Inr (cmds @ [m], stack_at (Suc i) rs', rs') \<and>
    paints half bpl (covering rs i) (top_color i rs) i m \<and>
    sorted_wrt before rs' \<and> (\<forall>r \<in> set rs'. Suc i \<le> max_r r) \<and> (\<forall>k \<ge> Suc i. covering rs' k = covering rs k) \<and>
    (Suc i mod bpl \<noteq> 0 \<longrightarrow> top_color (Suc i) rs' = gap_bg bpl (covering rs i) i)"
proof (cases rs)
  case Nil
  with mark_step_none [OF b, of half cmds] show ?thesis
    by (auto simp: stack_at_def covering_def top_color_def gap_bg_def)
next
  case (Cons r rest)
  have later: "i < min_r q" if "q \<in> set rest" "max_r r \<ge> i" for q using rs(1) Cons that by (auto simp: before_def)
  have mx: "i \<le> max_r r" using rs(2) Cons by auto
  have far: "Suc i \<le> max_r q" if "i < min_r q" for q using that min_le_max_r [of q] by simp
  note cov = covering_sorted [OF rs(1) [unfolded Cons] mx]
  consider "i < min_r r" | "min_r r \<le> i" "max_r r = i" | "min_r r \<le> i" "i < max_r r" using mx by linarith
  then show ?thesis
  proof cases
    case 1
    then have "\<forall>q \<in> set rs. Suc i \<le> max_r q" using Cons later mx far by auto
    with 1 Cons rs mark_step_before [OF b 1, of half cmds rest] cov show ?thesis
      by (auto simp: stack_at_def top_color_def gap_bg_def)
  next
    case 2
    have nl: "\<not> min_r q < Suc i" if "q \<in> set rest" for q using later [OF that mx] by simp
    have st: "stack_at (Suc i) rest = [default_style]" "top_color (Suc i) rest = Reset"
      using nl by (cases rest; simp add: stack_at_def top_color_def)+
    have "\<forall>q \<in> set rest. Suc i \<le> max_r q" using later mx far by auto
    moreover have "\<forall>k \<ge> Suc i. covering rest k = covering rs k"
      using 2 Cons by (auto simp: covering_tl)
    ultimately show ?thesis
      using 2 Cons rs(1) st cov mark_step_inside [OF b 2(1) mx, of half cmds rest]
      by (auto simp: gap_bg_def)
  next
    case 3
    then have "\<forall>q \<in> set rs. Suc i \<le> max_r q" using Cons later mx far by auto
    with 3 Cons rs(1) cov mark_step_inside [OF b 3(1) mx, of half cmds rest] show ?thesis
      by (auto simp: stack_at_def top_color_def gap_bg_def)
  qed
qed

lemma mark_loop:
  assumes "sorted_wrt before rs" "\<And>r. r \<in> set rs \<Longrightarrow> i \<le> max_r r" "1 < bpl" "i + n \<le> usize_max"
  shows "\<exists>ms st. rfold (mark_step half bpl) (cmds, stack_at i rs, rs) [i ..< i + n] = Inr (cmds @ ms, st) \<and>
    length ms = n \<and> painting half bpl rs (top_color i rs) i ms"
  using assms
proof (induction n arbitrary: i rs cmds)
  case 0
  then show ?case by (auto intro!: exI [of _ "[]"])
next
  case (Suc n)
  obtain m rs' where step: "mark_step half bpl (cmds, stack_at i rs, rs) i = Inr (cmds @ [m], stack_at (Suc i) rs', rs')"
    and m: "paints half bpl (covering rs i) (top_color i rs) i m" and rs': "sorted_wrt before rs'"
      "\<forall>r \<in> set rs'. Suc i \<le> max_r r" "\<forall>k \<ge> Suc i. covering rs' k = covering rs k"
    and top: "Suc i mod bpl \<noteq> 0 \<longrightarrow> top_color (Suc i) rs' = gap_bg bpl (covering rs i) i"
    using mark_step_round [OF Suc.prems(1,2,3), of half cmds] Suc.prems(4) by auto
  obtain ms st where ms: "rfold (mark_step half bpl) (cmds @ [m], stack_at (Suc i) rs', rs') [Suc i ..< Suc i + n] =
      Inr ((cmds @ [m]) @ ms, st)" "length ms = n" "painting half bpl rs' (top_color (Suc i) rs') (Suc i) ms"
    using Suc.IH [OF rs'(1), of "Suc i" "cmds @ [m]"] rs'(2) Suc.prems(3,4) by auto
  have "painting half bpl rs (top_color (Suc i) rs') (Suc i) ms"
    using ms(3) painting_cong [of "Suc i" ms rs rs'] rs'(3) by simp
  then have "painting half bpl rs (gap_bg bpl (covering rs i) i) (Suc i) ms"
    using top painting_line_start [of "Suc i" bpl half rs "top_color (Suc i) rs'" ms "gap_bg bpl (covering rs i) i"]
    by (cases "Suc i mod bpl = 0") auto
  moreover have "[i ..< i + Suc n] = i # [Suc i ..< Suc i + n]" by (simp add: upt_conv_Cons del: upt_Suc)
  ultimately show ?case
    using step m ms(1,2) by (intro exI [of _ "m # ms"] exI [of _ st]) (simp del: upt_Suc)
qed

section \<open>The visible bytes\<close>

lemma covering_filter:
  assumes "a \<le> i" "i \<le> b"
  shows "covering (filter (\<lambda>r. a \<le> max_r r \<and> min_r r \<le> b) rs) i = covering rs i"
  using assms by (induction rs) (auto simp: covering_def)

text \<open>Drawing a row with commands that paint it.\<close>

definition row_cells :: "bool \<Rightarrow> nat \<Rightarrow> selregion list \<Rightarrow> nat \<Rightarrow> bytes \<Rightarrow> (rchar \<times> color option) list" where
  "row_cells half bpl rs i bs = concat (map2 (\<lambda>k b.
     [(hex_char (unat (drop_bit 4 b)), Some (high_bg half (covering rs k) k)),
      (hex_char (unat (b AND 0xF)), Some (low_bg (covering rs k) k)),
      (0x20, Some (gap_bg bpl (covering rs k) k))]) [i ..< i + length bs] bs)"

lemma painted_hex_byte:
  "painted (draw_hex_byte b m) bg =
    [(hex_char (unat (drop_bit 4 b)), over (start_style m) bg),
     (hex_char (unat (b AND 0xF)), over (mid_style m) (over (start_style m) bg)),
     (0x20, over (end_style m) (over (mid_style m) (over (start_style m) bg)))]"
  by (simp add: draw_hex_byte_def Let_def str_def chr_def)

lemma painted_row:
  assumes "painting half bpl rs prev i ms" "length ms = length bs" "i mod bpl = 0 \<or> bg = Some prev"
  shows "painted (draw_hex_row (zip bs ms)) bg = row_cells half bpl rs i bs"
  using assms
proof (induction bs arbitrary: ms prev i bg)
  case Nil
  then show ?case by (simp add: draw_hex_row_def row_cells_def)
next
  case (Cons b bs)
  then obtain m ms' where ms: "ms = m # ms'" by (cases ms) auto
  with Cons.prems have p: "paints half bpl (covering rs i) prev i m" by simp
  let ?g = "gap_bg bpl (covering rs i) i"
  have bg': "background (draw_hex_byte b m) bg = Some ?g"
    and cells: "painted (draw_hex_byte b m) bg =
      [(hex_char (unat (drop_bit 4 b)), Some (high_bg half (covering rs i) i)),
       (hex_char (unat (b AND 0xF)), Some (low_bg (covering rs i) i)), (0x20, Some ?g)]"
    using p Cons.prems(3) by (auto simp: paints_def painted_hex_byte)
  have "painted (draw_hex_row (zip bs ms')) (Some ?g) = row_cells half bpl rs (Suc i) bs"
    using Cons.IH [of ?g "Suc i" ms' "Some ?g"] Cons.prems ms by simp
  moreover have "[i ..< i + length (b # bs)] = i # [Suc i ..< Suc i + length bs]"
    by (simp add: upt_conv_Cons del: upt_Suc)
  ultimately show ?case
    using bg' cells by (simp add: ms draw_hex_row_def row_cells_def del: upt_Suc)
qed

lemma painting_drop:
  assumes "painting half bpl rs prev i ms" "(i + k) mod bpl = 0"
  shows "painting half bpl rs prev' (i + k) (drop k ms)"
  using assms
proof (induction k arbitrary: ms prev i)
  case 0
  then show ?case using painting_line_start [of i bpl half rs prev ms prev'] by simp
next
  case (Suc k)
  then show ?case using Suc.IH [of _ "Suc i"] by (cases ms) auto
qed

lemma painting_take: "painting half bpl rs prev i ms \<Longrightarrow> painting half bpl rs prev i (take k ms)"
  by (induction ms arbitrary: prev i k) (auto simp: take_Cons')

lemma mark_commands_painting:
  assumes b: "cur v = Inr b" and sel: "sel_wf (selection b)" and r: "s \<le> e" "e \<le> usize_max" and l: "1 < bytes_per_line v"
  shows "\<exists>ms prev. mark_commands v (s, e) = Inr ms \<and> length ms = e - s \<and>
    painting (has_half_cursor (view_mode v)) (bytes_per_line v) (regions (selection b)) prev s ms"
proof -
  define rs where "rs = filter (\<lambda>r. s \<le> max_r r \<and> min_r r \<le> e) (regions (selection b))"
  have rs: "sorted_wrt before rs" "r \<in> set rs \<Longrightarrow> s \<le> max_r r" for r
    using sel by (auto simp: rs_def sel_wf_def sorted_wrt_filter)
  have reg: "regions_in_range (selection b) s e = Inr rs"
    unfolding rs_def by (rule regions_in_range_filter [OF sel r(1)])
  let ?h = "has_half_cursor (view_mode v)" and ?bpl = "bytes_per_line v"
  obtain ms st where ms: "rfold (mark_step ?h ?bpl) ([], stack_at s rs, rs) [s ..< e] = Inr (ms, st)"
      "length ms = e - s" "painting ?h ?bpl rs (top_color s rs) s ms"
    using mark_loop [OF rs, of ?bpl "e - s" ?h "[]"] l r by auto
  have "painting ?h ?bpl (regions (selection b)) (top_color s rs) s ms"
    using ms(2,3) r painting_cong [of s ms rs "regions (selection b)"] by (simp add: rs_def covering_filter)
  moreover have "mark_commands v (s, e) = Inr ms"
    using ms(1) by (cases rs; cases st) (auto simp: mark_commands_def b reg stack_at_def Let_def)
  ultimately show ?thesis using ms(2) by blast
qed

end
