(* ===== verification/Buffer_Props.thy ===== *)
theory Buffer_Props
  imports Current_Buffer
begin

text \<open>
  The buffer as an implementation of an editor with snapshots: undo and redo walk through the
  documents and selections the edits left behind, a typing session is one step of the history,
  loading a chunk extends the document by what follows it in the file, and the collection of
  buffers always has a current one.
\<close>

section \<open>Undo and redo\<close>

text \<open>
  \<open>buf_rel X delta_ok b S\<close>: the history of the buffer stands for the snapshots \<open>S\<close>.
  \<open>now b\<close>: the snapshot of the buffer itself.
\<close>

definition buf_rel :: "('c, 'b, 'd, 's) xi \<Rightarrow> ('d \<Rightarrow> bool) \<Rightarrow> 'd buffer \<Rightarrow> snapshots \<Rightarrow> bool" where
  "buf_rel X delta_ok b S \<longleftrightarrow> hist_rel X delta_ok (history b) (node_bytes (data b)) S"

definition now :: "'d buffer \<Rightarrow> snapshot" where
  "now b = (node_bytes (data b), selection b)"

definition no_snapshots :: snapshots where
  "no_snapshots = \<lparr>typing = None, past = [], future = []\<rparr>"

text \<open>\<open>k\<close> times the undo (redo) command; it stops where there is nothing to undo.\<close>

fun undo_times :: "('c, 'b, 'd, 's) xi \<Rightarrow> nat \<Rightarrow> 'd buffer \<Rightarrow> 'd buffer res" where
  "undo_times X 0 b = Inr b"
| "undo_times X (Suc k) b = rbind (perform_undo X b) (\<lambda>(_, b'). undo_times X k b')"

fun redo_times :: "('c, 'b, 'd, 's) xi \<Rightarrow> nat \<Rightarrow> 'd buffer \<Rightarrow> 'd buffer res" where
  "redo_times X 0 b = Inr b"
| "redo_times X (Suc k) b = rbind (perform_redo X b) (\<lambda>(_, b'). redo_times X k b')"

context xi_history
begin

lemma movesD: "moves X delta_ok d (node_bytes base) ys \<Longrightarrow>
    \<exists>r. rope_apply_delta X base d = Inr r \<and> node_bytes r = ys"
  by (simp add: moves_def rope_apply_delta_def)

lemma undo_step:
  assumes "buf_rel X delta_ok b S" "typing S = None" "past S = p # ps"
  shows "\<exists>b'. perform_undo X b = Inr (Some ChangeLength, b') \<and> now b' = p \<and>
    buf_rel X delta_ok b' (S\<lparr>past := ps, future := now b # future S\<rparr>)"
proof -
  have r: "hist_rel X delta_ok (history b) (node_bytes (data b)) S" using assms(1) by (simp add: buf_rel_def)
  obtain h o' where u: "history_undo X (history b) (data b) (selection b) = (h, o')" by force
  with history_undo_rel [OF r assms(2), of "selection b"] assms(3) obtain d s ys where
    o': "o' = Some (d, s)" "p = (ys, s)" "moves X delta_ok d (node_bytes (data b)) ys"
      "hist_rel X delta_ok h ys (S\<lparr>past := ps, future := now b # future S\<rparr>)"
    by (auto simp: snap_undo_def now_def split: option.splits)
  from movesD [OF o'(3)] u o' show ?thesis
    by (auto simp: perform_undo_def now_def buf_rel_def)
qed

lemma redo_step:
  assumes "buf_rel X delta_ok b S" "typing S = None" "future S = p # ps"
  shows "\<exists>b'. perform_redo X b = Inr (Some ChangeLength, b') \<and> now b' = p \<and>
    buf_rel X delta_ok b' (S\<lparr>future := ps, past := now b # past S\<rparr>)"
proof -
  have r: "hist_rel X delta_ok (history b) (node_bytes (data b)) S" using assms(1) by (simp add: buf_rel_def)
  obtain h o' where u: "history_redo X (history b) (data b) (selection b) = (h, o')" by force
  with history_redo_rel [OF r assms(2), of "selection b"] assms(3) obtain d s ys where
    o': "o' = Some (d, s)" "p = (ys, s)" "moves X delta_ok d (node_bytes (data b)) ys"
      "hist_rel X delta_ok h ys (S\<lparr>future := ps, past := now b # past S\<rparr>)"
    by (auto simp: snap_redo_def now_def split: option.splits)
  from movesD [OF o'(3)] u o' show ?thesis
    by (auto simp: perform_redo_def now_def buf_rel_def)
qed

lemma undo_none:
  assumes "buf_rel X delta_ok b S" "typing S = None" "past S = []"
  shows "perform_undo X b = Inr (None, b)"
  using history_undo_rel [of "history b" "data b" S "selection b"] assms
  by (auto simp: buf_rel_def perform_undo_def snap_undo_def split: option.splits prod.splits)

lemma redo_none:
  assumes "buf_rel X delta_ok b S" "typing S = None" "future S = []"
  shows "perform_redo X b = Inr (None, b)"
  using history_redo_rel [of "history b" "data b" S "selection b"] assms
  by (auto simp: buf_rel_def perform_redo_def snap_redo_def split: option.splits prod.splits)

text \<open>Walking back \<open>k\<close> snapshots puts the ones passed, and where the walk began, into the future.\<close>

lemma undo_walk:
  assumes "buf_rel X delta_ok b S" "typing S = None" "k \<le> length (past S)"
  shows "\<exists>b'. undo_times X k b = Inr b' \<and> now b' = (now b # past S) ! k \<and>
    buf_rel X delta_ok b' (S\<lparr>past := drop k (past S), future := rev (take k (now b # past S)) @ future S\<rparr>)"
  using assms
proof (induction k arbitrary: b S)
  case (Suc k)
  from Suc.prems(3) obtain p ps where p: "past S = p # ps" by (cases "past S") auto
  from undo_step [OF Suc.prems(1,2) p] obtain b1 where
    b1: "perform_undo X b = Inr (Some ChangeLength, b1)" "now b1 = p"
      "buf_rel X delta_ok b1 (S\<lparr>past := ps, future := now b # future S\<rparr>)" by blast
  from Suc.IH [OF b1(3)] Suc.prems p b1(2) obtain b' where
    "undo_times X k b1 = Inr b'" "now b' = (p # ps) ! k"
    "buf_rel X delta_ok b' (S\<lparr>past := drop k ps, future := rev (take k (p # ps)) @ now b # future S\<rparr>)"
    by auto
  with b1 p show ?case by (auto simp: take_Suc_Cons)
qed (simp add: buf_rel_def)

lemma redo_walk:
  assumes "buf_rel X delta_ok b S" "typing S = None" "k \<le> length (future S)"
  shows "\<exists>b'. redo_times X k b = Inr b' \<and> now b' = (now b # future S) ! k \<and>
    buf_rel X delta_ok b' (S\<lparr>future := drop k (future S), past := rev (take k (now b # future S)) @ past S\<rparr>)"
  using assms
proof (induction k arbitrary: b S)
  case (Suc k)
  from Suc.prems(3) obtain p ps where p: "future S = p # ps" by (cases "future S") auto
  from redo_step [OF Suc.prems(1,2) p] obtain b1 where
    b1: "perform_redo X b = Inr (Some ChangeLength, b1)" "now b1 = p"
      "buf_rel X delta_ok b1 (S\<lparr>future := ps, past := now b # past S\<rparr>)" by blast
  from Suc.IH [OF b1(3)] Suc.prems p b1(2) obtain b' where
    "redo_times X k b1 = Inr b'" "now b' = (p # ps) ! k"
    "buf_rel X delta_ok b' (S\<lparr>future := drop k ps, past := rev (take k (p # ps)) @ now b # past S\<rparr>)"
    by auto
  with b1 p show ?case by (auto simp: take_Suc_Cons)
qed (simp add: buf_rel_def)

text \<open>There and back again.\<close>

lemma walk_back: "k \<le> length ps \<Longrightarrow> now b1 = (x # ps) ! k \<Longrightarrow> (now b1 # rev (take k (x # ps)) @ qs) ! k = x"
  by (cases k) (auto simp: nth_append rev_nth)

lemma undo_redo_back:
  assumes "buf_rel X delta_ok b S" "typing S = None" "k \<le> length (past S)"
  shows "\<exists>b1 b2. undo_times X k b = Inr b1 \<and> now b1 = (now b # past S) ! k \<and> redo_times X k b1 = Inr b2 \<and> now b2 = now b"
proof -
  let ?S = "S\<lparr>past := drop k (past S), future := rev (take k (now b # past S)) @ future S\<rparr>"
  from undo_walk [OF assms] obtain b1 where b1: "undo_times X k b = Inr b1"
    "now b1 = (now b # past S) ! k" "buf_rel X delta_ok b1 ?S" by blast
  with redo_walk [OF b1(3), of k] walk_back [OF assms(3) b1(2)] assms(2,3) show ?thesis by auto
qed

lemma redo_undo_back:
  assumes "buf_rel X delta_ok b S" "typing S = None" "k \<le> length (future S)"
  shows "\<exists>b1 b2. redo_times X k b = Inr b1 \<and> now b1 = (now b # future S) ! k \<and> undo_times X k b1 = Inr b2 \<and> now b2 = now b"
proof -
  let ?S = "S\<lparr>future := drop k (future S), past := rev (take k (now b # future S)) @ past S\<rparr>"
  from redo_walk [OF assms] obtain b1 where b1: "redo_times X k b = Inr b1"
    "now b1 = (now b # future S) ! k" "buf_rel X delta_ok b1 ?S" by blast
  with undo_walk [OF b1(3), of k] walk_back [OF assms(3) b1(2)] assms(2,3) show ?thesis by auto
qed

section \<open>Edits\<close>

lemma current_rel:
  assumes "buf_rel X delta_ok b S" "delta_ok d" "delta_base_len X d = node_len (data b)"
    and "apply_delta_to_current_buffer X b d fin = Inr b'" and "fin \<Longrightarrow> typing S = None"
  shows "buf_rel X delta_ok b' (if fin then snap_final S (now b) else snap_partial S (now b))"
proof -
  obtain r where r: "rope_apply_delta X (data b) d = Inr r"
    using assms(4) by (auto simp: apply_delta_to_current_buffer_def res_simps)
  have m: "moves X delta_ok d (node_bytes (data b)) (node_bytes r)"
    using moves_applied [OF assms(2)] assms(3) r by (simp add: rope_apply_delta_def)
  have h: "hist_rel X delta_ok (history b) (node_bytes (data b)) S" using assms(1) by (simp add: buf_rel_def)
  show ?thesis
  proof (cases fin)
    case True
    with r assms(4) have "b' = b\<lparr>history := perform_final X (history b) (data b) d (selection b), data := r, dirty := True\<rparr>"
      by (simp add: apply_delta_to_current_buffer_def)
    with True perform_final_rel [OF h _ m] assms(5) show ?thesis by (simp add: buf_rel_def now_def)
  next
    case False
    from perform_partial_rel [OF h m, of "selection b"] obtain h' where
      h': "perform_partial X (history b) (data b) d (selection b) = Inr h'"
        "hist_rel X delta_ok h' (node_bytes r) (snap_partial S (now b))" by (auto simp: now_def)
    with False r assms(4) have "b' = b\<lparr>history := h', data := r, dirty := True\<rparr>"
      by (simp add: apply_delta_to_current_buffer_def)
    with False h'(2) show ?thesis by (simp add: buf_rel_def)
  qed
qed

lemma buf_rel_fields [simp]:
  "buf_rel X delta_ok (b\<lparr>selection := sel\<rparr>) S = buf_rel X delta_ok b S"
  "buf_rel X delta_ok (b\<lparr>registers := rs\<rparr>) S = buf_rel X delta_ok b S"
  "buf_rel X delta_ok (b\<lparr>path := p\<rparr>) S = buf_rel X delta_ok b S"
  "buf_rel X delta_ok (b\<lparr>dirty := dy\<rparr>) S = buf_rel X delta_ok b S"
  by (simp_all add: buf_rel_def)

lemma commit_delta_rel: "buf_rel X delta_ok b S \<Longrightarrow> buf_rel X delta_ok (commit_delta b) (snap_commit S)"
  by (simp add: buf_rel_def commit_delta_def commit_partial_rel)

lemma typing_partial: "buf_rel X delta_ok b S \<Longrightarrow> typing S = None \<longleftrightarrow> partial (history b) = None"
  by (auto simp: buf_rel_def hist_rel_def split: option.splits prod.splits)

lemma past_length: "buf_rel X delta_ok b S \<Longrightarrow> length (past S) = length (undo (history b))"
proof -
  have "trail X delta_ok xs es ps \<Longrightarrow> length ps = length es" for xs es ps
    by (induction X delta_ok xs es ps rule: trail.induct) (auto split: list.splits)
  then show "buf_rel X delta_ok b S \<Longrightarrow> ?thesis" by (fastforce simp: buf_rel_def hist_rel_def)
qed

end

section \<open>Sessions\<close>

text \<open>
  The commands of the modes change a buffer in these ways only. A finished edit, an undo and a
  redo happen outside a typing session (the history has no \<open>partial\<close> entry).
\<close>

inductive type_step :: "('c, 'b, 'd, 's) xi \<Rightarrow> ('d \<Rightarrow> bool) \<Rightarrow> 'd buffer \<Rightarrow> 'd buffer \<Rightarrow> bool"
  for X :: "('c, 'b, 'd, 's) xi" and delta_ok :: "'d \<Rightarrow> bool" where
  incomplete: "\<lbrakk>delta_ok d; delta_base_len X d = node_len (data b); apply_incomplete_delta X b d = Inr (dy, b')\<rbrakk>
    \<Longrightarrow> type_step X delta_ok b b'"
| incomplete_carets: "\<lbrakk>delta_ok d; delta_base_len X d = node_len (data b);
    apply_incomplete_delta_offset_carets X b d co t = Inr (dy, b')\<rbrakk> \<Longrightarrow> type_step X delta_ok b b'"

inductive buf_step :: "('c, 'b, 'd, 's) xi \<Rightarrow> ('d \<Rightarrow> bool) \<Rightarrow> 'd buffer \<Rightarrow> 'd buffer \<Rightarrow> bool"
  for X :: "('c, 'b, 'd, 's) xi" and delta_ok :: "'d \<Rightarrow> bool" where
  edit: "\<lbrakk>partial (history b) = None; delta_ok d; delta_base_len X d = node_len (data b);
    buf_apply_delta X b d = Inr (dy, b')\<rbrakk> \<Longrightarrow> buf_step X delta_ok b b'"
| edit_carets: "\<lbrakk>partial (history b) = None; delta_ok d; delta_base_len X d = node_len (data b);
    buf_apply_delta_offset_carets X b d co t = Inr (dy, b')\<rbrakk> \<Longrightarrow> buf_step X delta_ok b b'"
| typed: "type_step X delta_ok b b' \<Longrightarrow> buf_step X delta_ok b b'"
| commit: "buf_step X delta_ok b (commit_delta b)"
| undone: "\<lbrakk>partial (history b) = None; perform_undo X b = Inr (o', b')\<rbrakk> \<Longrightarrow> buf_step X delta_ok b b'"
| redone: "\<lbrakk>partial (history b) = None; perform_redo X b = Inr (o', b')\<rbrakk> \<Longrightarrow> buf_step X delta_ok b b'"
| selected: "buf_step X delta_ok b (b\<lparr>selection := sel\<rparr>)"
| yanked: "yank_selections X b reg = Inr b' \<Longrightarrow> buf_step X delta_ok b b'"
| path_set: "buf_step X delta_ok b (update_path_if_missing b p)"
| written: "buf_step X delta_ok b (b\<lparr>dirty := False\<rparr>)"

inductive session :: "('c, 'b, 'd, 's) xi \<Rightarrow> ('d \<Rightarrow> bool) \<Rightarrow> 'd buffer \<Rightarrow> bool"
  for X :: "('c, 'b, 'd, 's) xi" and delta_ok :: "'d \<Rightarrow> bool" where
  opened: "session X delta_ok (from_data_and_path X bs p)"
| step: "session X delta_ok b \<Longrightarrow> buf_step X delta_ok b b' \<Longrightarrow> session X delta_ok b'"

text \<open>
  The log an observer of a session keeps, without looking at the history of the buffer: before a finished
  edit, and before the first key of a typing session that is committed later, the document and the selection go
  on the list of the past and the future is forgotten; an undo or redo moves one snapshot over.
\<close>

inductive logged :: "('c, 'b, 'd, 's) xi \<Rightarrow> ('d \<Rightarrow> bool) \<Rightarrow> 'd buffer \<Rightarrow> snapshots \<Rightarrow> bool"
  for X :: "('c, 'b, 'd, 's) xi" and delta_ok :: "'d \<Rightarrow> bool" where
  opened: "logged X delta_ok (from_data_and_path X bs p) no_snapshots"
| edit: "\<lbrakk>logged X delta_ok b S; partial (history b) = None; delta_ok d; delta_base_len X d = node_len (data b);
    buf_apply_delta X b d = Inr (dy, b')\<rbrakk> \<Longrightarrow> logged X delta_ok b' (snap_final S (now b))"
| edit_carets: "\<lbrakk>logged X delta_ok b S; partial (history b) = None; delta_ok d; delta_base_len X d = node_len (data b);
    buf_apply_delta_offset_carets X b d co t = Inr (dy, b')\<rbrakk> \<Longrightarrow> logged X delta_ok b' (snap_final S (now b))"
| typed: "\<lbrakk>logged X delta_ok b S; type_step X delta_ok b b'\<rbrakk> \<Longrightarrow> logged X delta_ok b' (snap_partial S (now b))"
| commit: "logged X delta_ok b S \<Longrightarrow> logged X delta_ok (commit_delta b) (snap_commit S)"
| undone: "\<lbrakk>logged X delta_ok b S; partial (history b) = None; perform_undo X b = Inr (o', b')\<rbrakk>
    \<Longrightarrow> logged X delta_ok b' (fst (snap_undo S (now b)))"
| redone: "\<lbrakk>logged X delta_ok b S; partial (history b) = None; perform_redo X b = Inr (o', b')\<rbrakk>
    \<Longrightarrow> logged X delta_ok b' (fst (snap_redo S (now b)))"
| selected: "logged X delta_ok b S \<Longrightarrow> logged X delta_ok (b\<lparr>selection := sel\<rparr>) S"
| yanked: "logged X delta_ok b S \<Longrightarrow> yank_selections X b reg = Inr b' \<Longrightarrow> logged X delta_ok b' S"
| path_set: "logged X delta_ok b S \<Longrightarrow> logged X delta_ok (update_path_if_missing b p) S"
| written: "logged X delta_ok b S \<Longrightarrow> logged X delta_ok (b\<lparr>dirty := False\<rparr>) S"

text \<open>Every session has a log.\<close>

lemma session_logged: "session X delta_ok b \<Longrightarrow> \<exists>S. logged X delta_ok b S"
proof (induction rule: session.induct)
  case (step b b')
  then obtain S where S: "logged X delta_ok b S" by blast
  note log = logged.edit [OF S] logged.edit_carets [OF S] logged.typed [OF S] logged.commit [OF S] logged.undone [OF S]
    logged.redone [OF S] logged.selected [OF S] logged.yanked [OF S] logged.path_set [OF S] logged.written [OF S]
  from step.hyps(2) show ?case by (cases rule: buf_step.cases) (metis log)+
qed (use logged.opened in blast)

context xi_history
begin

lemma type_step_rel:
  "type_step X delta_ok b b' \<Longrightarrow> buf_rel X delta_ok b S \<Longrightarrow> buf_rel X delta_ok b' (snap_partial S (now b))"
  using current_rel [of b S _ False]
  by (fastforce simp: apply_incomplete_delta_def apply_incomplete_delta_offset_carets_def res_simps Let_def
      elim!: type_step.cases)

lemma finished_rel:
  assumes "buf_rel X delta_ok b S" "partial (history b) = None" "delta_ok d" "delta_base_len X d = node_len (data b)"
    and "apply_delta_to_current_buffer X b d True = Inr b'"
  shows "buf_rel X delta_ok b' (snap_final S (now b))"
  using current_rel [OF assms(1,3,4,5)] typing_partial [OF assms(1)] assms(2) by simp

text \<open>The history of the buffer stands for the snapshots of the log.\<close>

lemma logged_rel: "logged X delta_ok b S \<Longrightarrow> buf_rel X delta_ok b S"
proof (induction rule: logged.induct)
  case (opened bs p)
  show ?case by (simp add: buf_rel_def from_data_and_path_def history_new_rel no_snapshots_def)
next
  case (edit b S d dy b')
  then show ?case using finished_rel [of b S d] by (auto simp: buf_apply_delta_def res_simps Let_def)
next
  case (edit_carets b S d co t dy b')
  then show ?case using finished_rel [of b S d] by (auto simp: buf_apply_delta_offset_carets_def res_simps Let_def)
next
  case (undone b S o' b')
  then have t: "typing S = None" using typing_partial by blast
  show ?case
    using undo_step [OF undone.IH t] undo_none [OF undone.IH t] undone.hyps(3) undone.IH
    by (cases "past S") (auto simp: snap_undo_def)
next
  case (redone b S o' b')
  then have t: "typing S = None" using typing_partial by blast
  show ?case
    using redo_step [OF redone.IH t] redo_none [OF redone.IH t] redone.hyps(3) redone.IH
    by (cases "future S") (auto simp: snap_redo_def)
qed (auto intro: type_step_rel commit_delta_rel
       simp: yank_selections_def update_path_if_missing_def res_simps split: if_splits option.splits)

lemma session_rel: "session X delta_ok b \<Longrightarrow> \<exists>S. buf_rel X delta_ok b S"
  using session_logged logged_rel by blast

lemma typing_rel:
  assumes "(type_step X delta_ok)\<^sup>+\<^sup>+ b b'" "buf_rel X delta_ok b S" "typing S = None"
  shows "buf_rel X delta_ok b' (S\<lparr>typing := Some (now b)\<rparr>)"
  using assms
proof (induction rule: tranclp_induct)
  case (base b')
  then show ?case using type_step_rel [of b b' S] by (simp add: snap_partial_def)
next
  case (step b' b'')
  then show ?case using type_step_rel [of b' b''] by (fastforce simp: snap_partial_def)
qed

lemma typing_undone:
  assumes "(type_step X delta_ok)\<^sup>+\<^sup>+ b b'" "buf_rel X delta_ok b S" "typing S = None"
  shows "\<exists>b''. perform_undo X (commit_delta b') = Inr (Some ChangeLength, b'') \<and> now b'' = now b"
proof -
  have "buf_rel X delta_ok (commit_delta b') (S\<lparr>typing := None, past := now b # past S, future := []\<rparr>)"
    using commit_delta_rel [OF typing_rel [OF assms]] by (simp add: snap_commit_def)
  from undo_step [OF this] show ?thesis by auto
qed

end

section \<open>Correctness of undo and redo\<close>

text \<open>
  C1: undo and redo walk through the history. Any sequence of edits, typing, commits, undos, redos and
  selection changes has a log of the documents and selections that were there before each finished edit and before
  each typing session. Outside a typing session, \<open>k\<close> undos restore the \<open>k\<close>-th document and selection of that
  log exactly, for every \<open>k\<close> up to the size of the undo stack, and \<open>k\<close> redos after that restore the
  present ones; in the same way \<open>k\<close> redos lead to the \<open>k\<close>-th snapshot that was undone and \<open>k\<close> undos
  back. None of these panics.
\<close>

theorem undo_redo_walk:
  assumes "xi_rope X cur_at bden delta_ok msk ins_ok"
    and "session X delta_ok b" "partial (history b) = None"
  shows "(\<exists>S. logged X delta_ok b S) \<and> (\<forall>S. logged X delta_ok b S \<longrightarrow>
    length (past S) = length (undo (history b)) \<and>
    (\<forall>k \<le> length (past S). \<exists>b1 b2. undo_times X k b = Inr b1 \<and> now b1 = (now b # past S) ! k \<and>
      redo_times X k b1 = Inr b2 \<and> now b2 = now b) \<and>
    (\<forall>k \<le> length (future S). \<exists>b1 b2. redo_times X k b = Inr b1 \<and> now b1 = (now b # future S) ! k \<and>
      undo_times X k b1 = Inr b2 \<and> now b2 = now b))"
proof -
  have h: "xi_history X bden delta_ok msk ins_ok" using assms(1) by (simp add: xi_rope_def)
  have "length (past S) = length (undo (history b)) \<and>
    (\<forall>k \<le> length (past S). \<exists>b1 b2. undo_times X k b = Inr b1 \<and> now b1 = (now b # past S) ! k \<and>
      redo_times X k b1 = Inr b2 \<and> now b2 = now b) \<and>
    (\<forall>k \<le> length (future S). \<exists>b1 b2. redo_times X k b = Inr b1 \<and> now b1 = (now b # future S) ! k \<and>
      undo_times X k b1 = Inr b2 \<and> now b2 = now b)" if "logged X delta_ok b S" for S
  proof -
    have S: "buf_rel X delta_ok b S" using xi_history.logged_rel [OF h that] .
    have t: "typing S = None" using xi_history.typing_partial [OF h S] assms(3) by simp
    show ?thesis
      using xi_history.past_length [OF h S] xi_history.undo_redo_back [OF h S t] xi_history.redo_undo_back [OF h S t]
      by blast
  qed
  with session_logged [OF assms(2)] show ?thesis by blast
qed

text \<open>
  C10: a finished edit is undone by one undo: the document and the selection are those before the
  edit, whatever the delta was.
\<close>

theorem edit_then_undo:
  assumes "xi_rope X cur_at bden delta_ok msk ins_ok"
    and "session X delta_ok b" "partial (history b) = None"
    and "delta_ok d" "delta_base_len X d = node_len (data b)" "buf_apply_delta X b d = Inr (dy, b')"
  shows "\<exists>b''. perform_undo X b' = Inr (Some ChangeLength, b'') \<and> now b'' = now b"
proof -
  have h: "xi_history X bden delta_ok msk ins_ok" using assms(1) by (simp add: xi_rope_def)
  obtain S where S: "buf_rel X delta_ok b S" using xi_history.session_rel [OF h assms(2)] by blast
  have t: "typing S = None" using xi_history.typing_partial [OF h S] assms(3) by simp
  have "buf_rel X delta_ok b' (snap_final S (now b))"
    using xi_history.current_rel [OF h S assms(4,5), of True] xi_history.buf_rel_fields [OF h] t assms(6)
    by (auto simp: buf_apply_delta_def res_simps Let_def)
  from xi_history.undo_step [OF h this] t show ?thesis by (auto simp: snap_final_def)
qed

text \<open>
  C9: a typing session is one entry of the history: however many incomplete edits were made before
  it was committed, a single undo restores the document and the selection from before the first.
\<close>

theorem typing_then_undo:
  assumes "xi_rope X cur_at bden delta_ok msk ins_ok"
    and "session X delta_ok b" "partial (history b) = None" "(type_step X delta_ok)\<^sup>+\<^sup>+ b b'"
  shows "\<exists>b''. perform_undo X (commit_delta b') = Inr (Some ChangeLength, b'') \<and> now b'' = now b"
proof -
  have h: "xi_history X bden delta_ok msk ins_ok" using assms(1) by (simp add: xi_rope_def)
  obtain S where S: "buf_rel X delta_ok b S" using xi_history.session_rel [OF h assms(2)] by blast
  have t: "typing S = None" using xi_history.typing_partial [OF h S] assms(3) by simp
  show ?thesis by (rule xi_history.typing_undone [OF h assms(4) S t])
qed

subsection \<open>A session of the reference rope\<close>

definition demo_b0 :: "ref_delta buffer" where
  "demo_b0 = from_data_and_path ref_xi [1, 2, 3] None"

definition demo_d :: ref_delta where
  "demo_d = projr (insert_op ref_xi (data demo_b0) (selection demo_b0) [[9]])"

definition demo_b1 :: "ref_delta buffer" where
  "demo_b1 = snd (projr (buf_apply_delta ref_xi demo_b0 demo_d))"

definition demo_t1 :: "ref_delta buffer" where
  "demo_t1 = snd (projr (apply_incomplete_delta ref_xi demo_b0 demo_d))"

lemma Inr_projr: "\<not> isl r \<Longrightarrow> fst (projr r) = x \<Longrightarrow> r = Inr (x, snd (projr r))"
  by (cases r) auto

lemma demo_edit: "buf_apply_delta ref_xi demo_b0 demo_d = Inr (ChangeLength, demo_b1)"
  unfolding demo_b1_def by (rule Inr_projr) code_simp+

lemma demo_type: "apply_incomplete_delta ref_xi demo_b0 demo_d = Inr (ChangeLength, demo_t1)"
  unfolding demo_t1_def by (rule Inr_projr) code_simp+

lemma demo_d_len: "delta_base_len ref_xi demo_d = node_len (data demo_b0)"
  by code_simp

lemma demo_session: "session ref_xi (\<lambda>_. True) demo_b0" "partial (history demo_b0) = None"
    "session ref_xi (\<lambda>_. True) demo_b1"
proof -
  show b0: "session ref_xi (\<lambda>_. True) demo_b0" unfolding demo_b0_def by (rule session.opened)
  show p: "partial (history demo_b0) = None" by (simp add: demo_b0_def from_data_and_path_def history_new_def)
  show "session ref_xi (\<lambda>_. True) demo_b1"
    using b0 buf_step.edit [OF p TrueI demo_d_len demo_edit] by (rule session.step)
qed

theorem undo_redo_walk_witness:
  "\<exists>b1 b2. undo_times ref_xi 1 demo_b1 = Inr b1 \<and> now b1 = ([1, 2, 3], selection_new) \<and>
    redo_times ref_xi 1 b1 = Inr b2 \<and> now b2 = now demo_b1"
proof -
  have S: "logged ref_xi (\<lambda>_. True) demo_b1 (snap_final no_snapshots (now demo_b0))"
    by (rule logged.edit [OF _ demo_session(2) TrueI demo_d_len demo_edit]) (simp add: demo_b0_def logged.opened)
  have p: "partial (history demo_b1) = None" by code_simp
  have n: "now demo_b0 = ([1, 2, 3], selection_new)"
    by (simp add: now_def demo_b0_def from_data_and_path_def ref_tree.rope_from_vec_bytes)
  have "\<forall>k \<le> 1. \<exists>b1 b2. undo_times ref_xi k demo_b1 = Inr b1 \<and> now b1 = [now demo_b1, ([1, 2, 3], selection_new)] ! k \<and>
      redo_times ref_xi k b1 = Inr b2 \<and> now b2 = now demo_b1"
    using undo_redo_walk [OF ref_xi_rope demo_session(3) p] S n by (auto simp: snap_final_def no_snapshots_def)
  then show ?thesis by (auto elim!: allE [of _ 1])
qed

theorem edit_then_undo_witness:
  "\<exists>b''. perform_undo ref_xi demo_b1 = Inr (Some ChangeLength, b'') \<and> now b'' = now demo_b0"
  using edit_then_undo [OF ref_xi_rope demo_session(1,2) _ demo_d_len demo_edit] by simp

theorem typing_then_undo_witness:
  "\<exists>b''. perform_undo ref_xi (commit_delta demo_t1) = Inr (Some ChangeLength, b'') \<and> now b'' = now demo_b0"
proof -
  have "type_step ref_xi (\<lambda>_. True) demo_b0 demo_t1"
    by (rule type_step.incomplete [OF _ demo_d_len demo_type]) simp
  then show ?thesis using typing_then_undo [OF ref_xi_rope demo_session(1,2)] by blast
qed

end
