(* ===== verification/Buffer_Selections.thy ===== *)
theory Buffer_Selections
  imports Buffer_Props
begin

text \<open>
  \<open>CurrentBuffer::map_selections\<close>, the operation behind every movement: it never panics when the
  region map does not, keeps the invariant of the selection, and reports as dirty exactly the
  offsets that were selected before or are selected after. The loader of further chunks and the
  collection of buffers follow.
\<close>

section \<open>The joined intervals\<close>

definition iv_span :: "interval \<Rightarrow> nat set" where
  "iv_span iv = {iv_start iv ..< iv_end iv}"

definition iv_before :: "interval \<Rightarrow> interval \<Rightarrow> bool" where
  "iv_before a b \<longleftrightarrow> iv_end a \<le> iv_start b"

definition riv :: "selregion \<Rightarrow> interval" where
  "riv r = Interval (min_r r) (Suc (max_r r))"

lemma iv_span_riv [simp]: "iv_span (riv r) = span r"
  by (simp add: iv_span_def riv_def span_def atLeastLessThanSuc_atLeastAtMost)

context xi_interval
begin

lemma region_interval_eq: "max_r r < usize_max \<Longrightarrow> region_interval X r = Inr (riv r)"
  using interval_incl [OF min_le_max_r] by (simp add: region_interval_def riv_def)

lemma push_interval_joins:
  assumes "sorted_wrt iv_before acc" and "\<forall>a \<in> set acc. iv_start a < iv_end a \<and> iv_start a \<le> iv_start r"
    and "iv_start r < iv_end r"
  shows "sorted_wrt iv_before (push_interval X acc r) \<and>
    (\<forall>a \<in> set (push_interval X acc r). iv_start a < iv_end a \<and> iv_start a \<le> iv_start r) \<and>
    \<Union> (iv_span ` set (push_interval X acc r)) = \<Union> (iv_span ` set acc) \<union> iv_span r"
proof (cases acc rule: rev_cases)
  case Nil
  with assms show ?thesis by (simp add: push_interval_def)
next
  case (snoc bs l)
  obtain s e where l: "l = Interval s e" by (cases l)
  obtain s' e' where r: "r = Interval s' e'" by (cases r)
  have b: "s < e" "s \<le> s'" "s' < e'" "\<forall>b \<in> set bs. iv_end b \<le> s" "sorted_wrt iv_before bs"
    using assms snoc l r by (auto simp: sorted_wrt_append iv_before_def)
  show ?thesis
  proof (cases "s' < e")
    case True
    then have "push_interval X acc r = bs @ [Interval s (max e e')]"
      using b by (simp add: push_interval_def snoc l r interval_contains interval_union)
    moreover have "{s ..< e} \<union> {s' ..< e'} = {s ..< max e e'}" using b True by auto
    ultimately show ?thesis
      using b assms(2) snoc l r by (auto simp: sorted_wrt_append iv_before_def iv_span_def)
  next
    case False
    then have "push_interval X acc r = acc @ [r]"
      using b by (simp add: push_interval_def snoc l r interval_contains)
    moreover have "\<forall>b \<in> set acc. iv_end b \<le> s'" using b False snoc l by auto
    ultimately show ?thesis
      using assms by (auto simp: sorted_wrt_append iv_before_def r)
  qed
qed

lemma push_intervals_join:
  assumes "sorted (map iv_start ivs)" and "\<forall>r \<in> set ivs. iv_start r < iv_end r"
    and "sorted_wrt iv_before acc"
    and "\<forall>a \<in> set acc. iv_start a < iv_end a \<and> (\<forall>r \<in> set ivs. iv_start a \<le> iv_start r)"
  shows "sorted_wrt iv_before (foldl (push_interval X) acc ivs) \<and>
    \<Union> (iv_span ` set (foldl (push_interval X) acc ivs)) = \<Union> (iv_span ` set acc) \<union> \<Union> (iv_span ` set ivs)"
  using assms
proof (induction ivs arbitrary: acc)
  case (Cons r ivs)
  have j: "sorted_wrt iv_before (push_interval X acc r) \<and>
    (\<forall>a \<in> set (push_interval X acc r). iv_start a < iv_end a \<and> iv_start a \<le> iv_start r) \<and>
    \<Union> (iv_span ` set (push_interval X acc r)) = \<Union> (iv_span ` set acc) \<union> iv_span r"
    using Cons.prems by (intro push_interval_joins) auto
  moreover have "\<forall>a \<in> set (push_interval X acc r). \<forall>q \<in> set ivs. iv_start a \<le> iv_start q"
    using j Cons.prems(1) by fastforce
  ultimately show ?case using Cons.IH [of "push_interval X acc r"] Cons.prems(1,2) by auto
qed simp

lemma dirty_ranges:
  fixes rs :: "selregion list"
  defines "ivs \<equiv> foldl (push_interval X) [] (sort_key iv_start (map riv rs))"
  shows "sorted_wrt iv_before ivs" "\<Union> (iv_span ` set ivs) = \<Union> (span ` set rs)"
proof -
  have "\<forall>r \<in> set (sort_key iv_start (map riv rs)). iv_start r < iv_end r"
    using min_le_max_r by (auto simp: riv_def less_Suc_eq_le)
  from push_intervals_join [OF sorted_sort_key this, of "[]"]
  show "sorted_wrt iv_before ivs" "\<Union> (iv_span ` set ivs) = \<Union> (span ` set rs)"
    unfolding ivs_def by (auto simp: image_iff)
qed

end

section \<open>Mapping the selections of a buffer\<close>

lemma map_loop_cong:
  "(\<And>r st. r \<in> set rs \<Longrightarrow> f st r = f' st r) \<Longrightarrow> map_loop f m i rs st out nm = map_loop f' m i rs st out nm"
proof (induction rs arbitrary: i st out nm)
  case (Cons r rs)
  have eq: "f st r = f' st r" for st using Cons.prems by simp
  have "map_loop f m j rs st out nm = map_loop f' m j rs st out nm" for j st out nm
    using Cons.prems by (intro Cons.IH) simp
  then show ?case by (simp add: eq cong: if_cong)
qed simp

text \<open>The closure with the ranges it records is again a region map with captured state.\<close>

definition recording :: "('st \<Rightarrow> selregion \<Rightarrow> selregion \<Rightarrow> 'st) \<Rightarrow> selregion list \<times> 'st \<Rightarrow> selregion \<Rightarrow> selregion \<Rightarrow> selregion list \<times> 'st" where
  "recording upd = (\<lambda>(seen, st) r r'. (seen @ [r, r'], upd st r r'))"

lemma recording_seen:
  "map_loop (single g (recording upd)) m i rs (seen, st) out nm = Inr ((seen', st'), out', nm') \<Longrightarrow>
    set seen' = set seen \<union> set rs \<union> {r'. \<exists>r \<in> set rs. g r = Inr r'}"
proof (induction rs arbitrary: i seen st out nm)
  case (Cons r rs)
  then obtain r' out1 where r': "g r = Inr r'" and
    loop: "map_loop (single g (recording upd)) m (Suc i) rs (seen @ [r, r'], upd st r r')
      (if i = m then flag_last out1 else out1) (if i = m then length out1 - 1 else nm) = Inr ((seen', st'), out', nm')"
    by (auto simp: map_loop_single rbind_eq_Inr recording_def simp del: map_loop.simps)
  from Cons.IH [OF loop] r' show ?case by auto
qed simp

text \<open>Pushing regions from left to right covers what they cover.\<close>

lemma push_region_span:
  assumes "push_region out x = Inr out'" and "\<forall>r \<in> set out. min_r r \<le> min_r x"
  shows "\<Union> (span ` set out') = \<Union> (span ` set out) \<union> span x"
proof (cases "out = [] \<or> \<not> overlaps (last out) x")
  case True
  with assms(1) have "out' = out @ [x]" by (auto simp: push_region_def)
  then show ?thesis by auto
next
  case False
  then obtain bs l where out: "out = bs @ [l]" by (cases out rule: rev_cases) auto
  with False obtain m where m: "merge l x = Inr m" and out': "out' = bs @ [m]"
    using assms(1) by (auto simp: push_region_def res_simps)
  have "span m = span l \<union> span x"
    using merge_hull [OF m] assms(2) False out min_le_max_r [of l] min_le_max_r [of x]
    by (auto simp: span_def overlaps_def)
  then show ?thesis using out out' by auto
qed

lemma flag_last_span: "\<Union> (span ` set (flag_last out)) = \<Union> (span ` set out)"
proof (cases out rule: rev_cases)
  case (snoc bs l)
  then show ?thesis by (simp add: flag_last_def span_def list_update_append)
qed (simp add: flag_last_def)

context region_map
begin

lemma loop_span:
  assumes "map_loop (single g upd) m i rs st out nm = Inr (st', out', nm')"
    and "sorted_wrt before rs" "\<forall>r \<in> set rs. ok r" "sorted_wrt before out" "starts_after out rs"
  shows "\<Union> (span ` set out') = \<Union> (span ` set out) \<union> \<Union> (span ` {r'. \<exists>r \<in> set rs. g r = Inr r'})"
  using assms
proof (induction rs arbitrary: i st out nm)
  case (Cons r rs)
  from Cons.prems(1) obtain r' out1 where r': "g r = Inr r'" and out1: "push_region out r' = Inr out1"
    and loop: "map_loop (single g upd) m (Suc i) rs (upd st r r') (if i = m then flag_last out1 else out1)
      (if i = m then length out1 - 1 else nm) = Inr (st', out', nm')"
    by (auto simp: map_loop_single rbind_eq_Inr simp del: map_loop.simps)
  have le: "\<forall>q \<in> set out. min_r q \<le> min_r r'" using Cons.prems(5) r' by (auto simp: starts_after_def)
  have s: "sorted_wrt before out1 \<and> out1 \<noteq> [] \<and> (\<forall>q \<in> set out1. min_r q \<le> min_r r')"
    using push_region_sorted [OF Cons.prems(4) le out1] .
  have "starts_after out1 rs" using starts_after_push [OF Cons.prems(2,3) r'] s by blast
  with s Cons.IH [OF loop] Cons.prems(2,3) push_region_span [OF out1 le] r' flag_last_span [of out1]
  show ?case by (auto simp: starts_after_flag_last)
qed auto

end

text \<open>Without a panic in the conversions, the buffer's loop is the selection's loop.\<close>

context xi_interval
begin

lemma record_ranges_single:
  assumes "max_r r < usize_max" "\<And>r'. g r = Inr r' \<Longrightarrow> max_r r' < usize_max"
  shows "record_ranges X (single g upd) (map riv seen, st) r =
    rbind (g r) (\<lambda>r'. Inr ((map riv (seen @ [r, r']), upd st r r'), [r']))"
  using assms
  by (cases "g r") (auto simp: record_ranges_def single_def region_interval_eq)

lemma record_loop:
  assumes "\<And>r. r \<in> set rs \<Longrightarrow> max_r r < usize_max"
    and "\<And>r r'. r \<in> set rs \<Longrightarrow> g r = Inr r' \<Longrightarrow> max_r r' < usize_max"
    and "map_loop (single g (recording upd)) m i rs (seen, st) out nm = Inr ((seen', st'), out', nm')"
  shows "map_loop (record_ranges X (single g upd)) m i rs (map riv seen, st) out nm =
    Inr ((map riv seen', st'), out', nm')"
  using assms
proof (induction rs arbitrary: i seen st out nm)
  case (Cons r rs)
  from Cons.prems(3) obtain r' out1 where r': "g r = Inr r'" and out1: "push_region out r' = Inr out1"
    and loop: "map_loop (single g (recording upd)) m (Suc i) rs (seen @ [r, r'], upd st r r')
      (if i = m then flag_last out1 else out1) (if i = m then length out1 - 1 else nm) = Inr ((seen', st'), out', nm')"
    by (auto simp: map_loop_single rbind_eq_Inr recording_def simp del: map_loop.simps)
  have ne: "out1 \<noteq> []" using push_region_length [OF out1] by simp
  have rr: "record_ranges X (single g upd) (map riv seen, st) r = Inr ((map riv (seen @ [r, r']), upd st r r'), [r'])"
    using record_ranges_single [of r g upd seen st] Cons.prems(1) [of r] Cons.prems(2) [of r r'] r' by simp
  have "map_loop (record_ranges X (single g upd)) m (Suc i) rs (map riv (seen @ [r, r']), upd st r r')
      (if i = m then flag_last out1 else out1) (if i = m then length out1 - 1 else nm) =
      Inr ((map riv seen', st'), out', nm')"
    using Cons.prems(1,2) by (intro Cons.IH [OF _ _ loop]) auto
  with ne show ?case
    by (simp add: rr out1 set_main_Inr flag_last_def Suc_leI split: if_splits)
qed simp

lemma buf_map_single:
  assumes "\<And>r. r \<in> set (regions (selection b)) \<Longrightarrow> max_r r < usize_max"
    and "\<And>r r'. r \<in> set (regions (selection b)) \<Longrightarrow> g r = Inr r' \<Longrightarrow> max_r r' < usize_max"
    and "sel_map_selections (single g (recording upd)) ([], st) (selection b) = Inr ((seen, st'), sel)"
  shows "buf_map_selections X (single g upd) st b =
    Inr (st', ChangeInPlace (foldl (push_interval X) [] (sort_key iv_start (map riv seen))), b\<lparr>selection := sel\<rparr>)"
proof -
  obtain out nm where loop: "map_loop (single g (recording upd)) (main_selection (selection b)) 0 (regions (selection b))
      ([], st) [] 0 = Inr ((seen, st'), out, nm)" and sel: "sel = (selection b)\<lparr>regions := out, main_selection := nm\<rparr>"
    using assms(3) by (auto simp: sel_map_selections_def res_simps)
  have "map_loop (record_ranges X (single g upd)) (main_selection (selection b)) 0 (regions (selection b))
      (map riv [], st) [] 0 = Inr ((map riv seen, st'), out, nm)"
    using assms(1,2) by (rule record_loop [OF _ _ loop])
  with sel show ?thesis by (simp add: buf_map_selections_def sel_map_selections_def)
qed

end

text \<open>The dirty intervals are in order and cover what was or is selected.\<close>

definition dirty_exact :: "dirty_bytes \<Rightarrow> selection \<Rightarrow> selection \<Rightarrow> bool" where
  "dirty_exact dy sel sel' \<longleftrightarrow> (case dy of ChangeLength \<Rightarrow> False
     | ChangeInPlace ivs \<Rightarrow> sorted_wrt iv_before ivs \<and>
         \<Union> (iv_span ` set ivs) = \<Union> (span ` set (regions sel)) \<union> \<Union> (span ` set (regions sel')))"

context total_region_map
begin

lemma buf_map_total:
  assumes X: "xi_interval X" and sel: "sel_wf (selection b)" "in_bounds n (selection b)" "fits n"
    and ok: "\<forall>r \<in> set (regions (selection b)). ok r"
    and g: "\<And>r r'. r \<in> set (regions (selection b)) \<Longrightarrow> g r = Inr r' \<Longrightarrow> max_r r' \<le> n"
  shows "\<exists>st' dy sel'. buf_map_selections X (single g upd) st b = Inr (st', dy, b\<lparr>selection := sel'\<rparr>) \<and>
    sel_wf sel' \<and> flags_ok sel' \<and> in_bounds n sel' \<and> (\<forall>q \<in> set (regions sel'). Q q) \<and>
    dirty_exact dy (selection b) sel'"
proof -
  obtain seen st' sel' where m: "sel_map_selections (single g (recording upd)) ([], st) (selection b) = Inr ((seen, st'), sel')"
    and wf: "sel_wf sel'" "flags_ok sel'" "\<forall>q \<in> set (regions sel'). Q q"
    using map_selections_total [OF sel(1) ok, of "recording upd" "([], st)"] by fastforce
  have n: "n < usize_max" using fits_Suc_usize [OF sel(3)] by simp
  let ?ivs = "foldl (push_interval X) [] (sort_key iv_start (map riv seen))"
  have b: "buf_map_selections X (single g upd) st b = Inr (st', ChangeInPlace ?ivs, b\<lparr>selection := sel'\<rparr>)"
    by (rule xi_interval.buf_map_single [OF X _ _ m]) (use sel(2) g n in \<open>fastforce simp: in_bounds_def\<close>)+
  obtain out nm where loop: "map_loop (single g (recording upd)) (main_selection (selection b)) 0
      (regions (selection b)) ([], st) [] 0 = Inr ((seen, st'), out, nm)" and out: "regions sel' = out"
    using m by (auto simp: sel_map_selections_def res_simps)
  have "dirty_exact (ChangeInPlace ?ivs) (selection b) sel'"
    using xi_interval.dirty_ranges [OF X, of seen] recording_seen [OF loop] loop_span [OF loop] sel(1) ok out
    by (auto simp: dirty_exact_def sel_wf_def starts_after_def)
  with b wf map_selections_bounds [OF m g] show ?thesis by auto
qed

end

section \<open>Loading the file chunk by chunk\<close>

text \<open>Loading until the loader reports the end, \<open>fuel\<close> chunks at most.\<close>

fun load_all :: "('c, 'b, 'd, 's) xi \<Rightarrow> fs \<Rightarrow> nat \<Rightarrow> nat \<Rightarrow> 'd buffer \<Rightarrow> 'd buffer res" where
  "load_all X F chunk 0 b = Inl OutOfFuel"
| "load_all X F chunk (Suc fuel) b =
     rbind (load_next_chunk X F b chunk) (\<lambda>(more, b').
     case more of Inr True \<Rightarrow> load_all X F chunk fuel b' | _ \<Rightarrow> Inr b')"

lemma fs_read_prefix:
  assumes "fs_ok F" "n \<le> length c"
  obtains k where "fs_read F c n chunk = take k (drop n c)" "k \<le> chunk" "n + k \<le> length c"
    "0 < chunk \<longrightarrow> n < length c \<longrightarrow> 0 < k"
proof
  let ?m = "min chunk (length c - n)"
  have ok: "read_some F ?m \<le> ?m" "0 < ?m \<longrightarrow> 0 < read_some F ?m" using assms(1) unfolding fs_ok_def by blast+
  show "fs_read F c n chunk = take (read_some F ?m) (drop n c)" by (simp add: fs_read_def)
  show "read_some F ?m \<le> chunk" "n + read_some F ?m \<le> length c" using ok(1) assms(2) by linarith+
  show "0 < chunk \<longrightarrow> n < length c \<longrightarrow> 0 < read_some F ?m" using ok(2) by simp
qed

context xi_rope
begin

lemma load_next_chunk_appends:
  assumes "fs_ok F" "path b = Some p" "fs_open F p = Inr c" "node_len (data b) = n" "n \<le> length c"
  shows "\<exists>k b'. load_next_chunk X F b chunk = Inr (Inr (0 < k), b') \<and> k \<le> chunk \<and> n + k \<le> length c \<and>
    (0 < chunk \<longrightarrow> n < length c \<longrightarrow> 0 < k) \<and> node_bytes (data b') = node_bytes (data b) @ take k (drop n c) \<and> b' = b\<lparr>data := data b'\<rparr>"
proof -
  have len: "rope_len (data b) = n" using assms(4,5) by (simp add: rope_len_def)
  obtain k where k: "fs_read F c n chunk = take k (drop n c)" "k \<le> chunk" "n + k \<le> length c"
    "0 < chunk \<longrightarrow> n < length c \<longrightarrow> 0 < k" using fs_read_prefix [OF assms(1,5)] by metis
  show ?thesis
  proof (cases "k = 0")
    case True
    with k len assms show ?thesis
      by (intro exI [of _ 0] exI [of _ b]) (simp add: load_next_chunk_def Let_def)
  next
    case False
    let ?d = "simple_edit X (Interval n n) (tree_build X [take k (drop n c)]) n"
    have ln: "node_len (data b) = n" using len by (simp add: rope_len_def)
    have "delta_ok ?d" "delta_base_len X ?d = n" using simple_edit_ok by auto
    then obtain r where r: "delta_apply X ?d (data b) = Inr r" using delta_applies ln by metis
    have "node_bytes r = node_bytes (data b) @ take k (drop n c)"
      using simple_edit_apply [OF _ _ ln r] assms(4) by (simp add: tree_build_bytes)
    with False k len assms r show ?thesis
      by (intro exI [of _ k] exI [of _ "b\<lparr>data := r\<rparr>"])
        (auto simp: load_next_chunk_def Let_def interval_new rope_apply_delta_def)
  qed
qed

lemma load_all_prefix:
  assumes "fs_ok F" "0 < chunk" "path b = Some p" "fs_open F p = Inr c" "node_bytes (data b) = take n c"
    and "n \<le> length c" "length c - n < fuel"
  shows "\<exists>b'. load_all X F chunk fuel b = Inr b' \<and> node_bytes (data b') = c \<and> b' = b\<lparr>data := data b'\<rparr>"
  using assms(3,5-7)
proof (induction fuel arbitrary: b n)
  case (Suc fuel)
  obtain k b1 where b1: "load_next_chunk X F b chunk = Inr (Inr (0 < k), b1)" "n + k \<le> length c"
    "n < length c \<Longrightarrow> 0 < k" "node_bytes (data b1) = take n c @ take k (drop n c)" "b1 = b\<lparr>data := data b1\<rparr>"
    using load_next_chunk_appends [OF assms(1) Suc.prems(1) assms(4) _ Suc.prems(3), of chunk] assms(2) Suc.prems(2,3)
    by auto
  then have b1_bytes: "node_bytes (data b1) = take (n + k) c" by (simp add: take_add)
  have p1: "path b1 = Some p" using b1(5) Suc.prems(1) by (metis buffer.simps(1) buffer.update_convs(2) buffer.ext_inject buffer.surjective)
  show ?case
  proof (cases "0 < k")
    case True
    with Suc.IH [OF p1 b1_bytes] b1(2) Suc.prems(3,4) obtain b' where
      "load_all X F chunk fuel b1 = Inr b'" "node_bytes (data b') = c" "b' = b1\<lparr>data := data b'\<rparr>" by fastforce
    moreover from this b1(5) have "b' = b\<lparr>data := data b'\<rparr>" by (metis buffer.unfold_congs(2) buffer.update_convs(2) buffer.surjective)
    ultimately show ?thesis using b1(1) True by auto
  next
    case False
    with b1(3) Suc.prems(3) have "n = length c" by fastforce
    with False b1 b1_bytes show ?thesis by auto
  qed
qed simp

lemma undo_base_len:
  assumes "session X delta_ok b" "partial (history b) = None" "undo (history b) \<noteq> []"
  shows "delta_base_len X (delta (fst (last (undo (history b))))) = node_len (data b)"
proof -
  obtain S where S: "buf_rel X delta_ok b S" using session_rel [OF assms(1)] by blast
  then have "trail X delta_ok (node_bytes (data b)) (rev (undo (history b))) (past S)"
    using typing_partial [OF S] assms(2) by (simp add: buf_rel_def hist_rel_def committed_def)
  from trail_pop [OF this assms(3)] show ?thesis by (auto simp: moves_def)
qed

end

text \<open>
  C23: loading chunk by chunk reads the whole file: if the document is the first \<open>n\<close> bytes of the
  file, the loader returns after at most one chunk per missing byte, the document is then the file
  and no other field of the buffer has changed, however short the reads of the system are.
\<close>

theorem load_all_correct:
  assumes "xi_rope X cur_at bden delta_ok msk ins_ok"
    and "fs_ok F" "0 < chunk" "path b = Some p" "fs_open F p = Inr c"
    and "node_bytes (data b) = take n c" "n \<le> length c" "length c - n < fuel"
  shows "\<exists>b'. load_all X F chunk fuel b = Inr b' \<and> node_bytes (data b') = c \<and> b' = b\<lparr>data := data b'\<rparr>"
  using xi_rope.load_all_prefix [OF assms] .

definition demo_fs :: fs where
  "demo_fs = \<lparr>resolve = (\<lambda>p. str ''/'' @ p), files = [str ''/a'' \<mapsto> [1, 2, 3, 4, 5]],
     readable = (\<lambda>_. True), file_error = (\<lambda>_ _. False), writable = (\<lambda>_. True), left_over = (\<lambda>_. None), err_text = (\<lambda>_. []), read_some = (\<lambda>n. min n 2)\<rparr>"

lemma demo_fs_ok: "fs_ok demo_fs" "fs_open demo_fs (str ''a'') = Inr [1, 2, 3, 4, 5]"
  by (simp_all add: fs_ok_def demo_fs_def fs_open_def str_def)

theorem load_all_correct_witness:
  "\<exists>b'. load_all ref_xi demo_fs 3 10 (from_data_and_path ref_xi [1, 2] (Some (str ''a''))) = Inr b' \<and>
    node_bytes (data b') = [1, 2, 3, 4, 5] \<and>
    b' = (from_data_and_path ref_xi [1, 2] (Some (str ''a'')))\<lparr>data := data b'\<rparr>"
proof -
  have "node_bytes (data (from_data_and_path ref_xi [1, 2] (Some (str ''a'')))) = take 2 [1, 2, 3, 4, 5]"
    by (simp add: from_data_and_path_def ref_tree.rope_from_vec_bytes)
  then show ?thesis
    using load_all_correct [OF ref_xi_rope demo_fs_ok(1) _ _ demo_fs_ok(2),
        of 3 "from_data_and_path ref_xi [1, 2] (Some (str ''a''))" 2 10]
    by (simp add: from_data_and_path_def)
qed

text \<open>
  C27: a chunk loaded after an edit invalidates the history: the top entry of the undo stack was
  built for the document before the chunk arrived, so its base length is not the length of the
  document it would be applied to (the rope library requires them to be equal).
\<close>

theorem load_breaks_undo:
  assumes "xi_rope X cur_at bden delta_ok msk ins_ok"
    and "session X delta_ok b" "partial (history b) = None" "undo (history b) \<noteq> []"
    and "fs_ok F" "path b = Some p" "fs_open F p = Inr c" "node_len (data b) < length c" "0 < chunk"
    and "load_next_chunk X F b chunk = Inr (Inr again, b')"
  shows "delta_base_len X (delta (fst (last (undo (history b'))))) < node_len (data b')"
proof -
  obtain k b1 where k: "load_next_chunk X F b chunk = Inr (Inr (0 < k), b1)" "0 < k" "node_len (data b) + k \<le> length c"
    "node_bytes (data b1) = node_bytes (data b) @ take k (drop (node_len (data b)) c)" "b1 = b\<lparr>data := data b1\<rparr>"
    using xi_rope.load_next_chunk_appends [OF assms(1,5,6,7) refl less_imp_le [OF assms(8)], of chunk] assms(8,9) by blast
  have "history b1 = history b" using k(5) by (metis buffer.ext_inject buffer.surjective buffer.update_convs(2))
  then show ?thesis
    using xi_rope.undo_base_len [OF assms(1-4)] k assms(10) by simp
qed

definition demo_f0 :: "ref_delta buffer" where
  "demo_f0 = from_data_and_path ref_xi [1, 2] (Some (str ''a''))"

definition demo_fd :: ref_delta where
  "demo_fd = projr (insert_op ref_xi (data demo_f0) (selection demo_f0) [[9]])"

definition demo_f1 :: "ref_delta buffer" where
  "demo_f1 = snd (projr (buf_apply_delta ref_xi demo_f0 demo_fd))"

definition demo_f2 :: "ref_delta buffer" where
  "demo_f2 = snd (projr (load_next_chunk ref_xi demo_fs demo_f1 4))"

theorem load_breaks_undo_witness:
  "delta_base_len ref_xi (delta (fst (last (undo (history demo_f2))))) < node_len (data demo_f2)"
proof -
  have e: "buf_apply_delta ref_xi demo_f0 demo_fd = Inr (ChangeLength, demo_f1)"
    unfolding demo_f1_def by (rule Inr_projr) code_simp+
  have l: "load_next_chunk ref_xi demo_fs demo_f1 4 = Inr (Inr True, demo_f2)"
    unfolding demo_f2_def by (rule Inr_projr) code_simp+
  have s0: "session ref_xi (\<lambda>_. True) demo_f0" unfolding demo_f0_def by (rule session.opened)
  have p0: "partial (history demo_f0) = None" by (simp add: demo_f0_def from_data_and_path_def history_new_def)
  have len: "delta_base_len ref_xi demo_fd = node_len (data demo_f0)" by code_simp
  have s1: "session ref_xi (\<lambda>_. True) demo_f1"
    using s0 buf_step.edit [OF p0 TrueI len e] by (rule session.step)
  have "partial (history demo_f1) = None" "undo (history demo_f1) \<noteq> []" "path demo_f1 = Some (str ''a'')"
    "node_len (data demo_f1) < 5" by code_simp+
  then show ?thesis
    using load_breaks_undo [OF ref_xi_rope s1 _ _ demo_fs_ok(1) _ demo_fs_ok(2) _ _ l] by simp
qed

section \<open>The collection of buffers\<close>

definition coll_ok :: "'d buffr_collection \<Rightarrow> bool" where
  "coll_ok c \<longleftrightarrow> cur_buf_index c < length (buf_list c)"

lemma find_buffer_Some:
  "find_buffer F canon i bs = Inr (Some j) \<Longrightarrow> i \<le> j \<and> j < i + length bs \<and>
    (\<exists>p. path (bs ! (j - i)) = Some p \<and> files F (resolve F p) \<noteq> None \<and> resolve F p = canon)"
proof (induction bs arbitrary: i)
  case (Cons b bs)
  show ?case
  proof (cases "\<exists>p. path b = Some p \<and> fs_canonicalize F p = Inr canon")
    case True
    with Cons.prems show ?thesis by (auto simp: fs_canonicalize_def split: option.splits)
  next
    case False
    with Cons.prems have "find_buffer F canon (Suc i) bs = Inr (Some j)"
      by (auto split: option.splits sum.splits if_splits)
    from Cons.IH [OF this] have "Suc i \<le> j" "j < Suc i + length bs"
      "\<exists>p. path (bs ! (j - Suc i)) = Some p \<and> files F (resolve F p) \<noteq> None \<and> resolve F p = canon" by auto
    moreover from this have "(b # bs) ! (j - i) = bs ! (j - Suc i)" by (simp add: nth_Cons')
    ultimately show ?thesis by simp
  qed
qed simp

lemma find_buffer_None:
  "find_buffer F canon i bs = Inr None \<Longrightarrow> b \<in> set bs \<Longrightarrow> path b = Some p \<Longrightarrow> resolve F p \<noteq> canon"
  by (induction bs arbitrary: i) (auto simp: fs_canonicalize_def split: option.splits sum.splits if_splits)

text \<open>
  C24: there is always a current buffer. A new collection has one; deleting the current buffer
  keeps one (an empty one when it was the last); switching to a file makes a buffer of that file
  current, opens it only if no open buffer is that file, and changes nothing when it fails.
\<close>

theorem collection_correct:
  assumes "coll_ok c"
  shows "coll_ok collection_new \<and>
    (\<exists>c'. delete_current c = Inr c' \<and> coll_ok c' \<and>
      (length (buf_list c) = 1 \<longrightarrow> buf_list c' = [buffer_default]) \<and>
      (length (buf_list c) \<noteq> 1 \<longrightarrow> length (buf_list c') + 1 = length (buf_list c))) \<and>
    (case switch_current_buffer X F c f of
        (Inl _, c') \<Rightarrow> c' = c
      | (Inr _, c') \<Rightarrow> coll_ok c' \<and>
          (\<exists>b p. current c' = Inr b \<and> path b = Some p \<and> resolve F p = resolve F f) \<and>
          (buf_list c' = buf_list c \<or>
           (\<forall>b \<in> set (buf_list c). \<forall>p. path b = Some p \<longrightarrow> resolve F p \<noteq> resolve F f) \<and>
           (\<exists>content. fs_open F f = Inr content \<and>
             buf_list c' = buf_list c @ [from_data_and_path X content (Some f)])))"
proof (intro conjI)
  show "coll_ok collection_new" by (simp add: coll_ok_def collection_new_def with_current_buffer_def)
  show "\<exists>c'. delete_current c = Inr c' \<and> coll_ok c' \<and>
      (length (buf_list c) = 1 \<longrightarrow> buf_list c' = [buffer_default]) \<and>
      (length (buf_list c) \<noteq> 1 \<longrightarrow> length (buf_list c') + 1 = length (buf_list c))"
    using assms
    by (cases "buf_list c") (auto simp: delete_current_def coll_ok_def vec_remove_def length_Suc_conv)
  show "case switch_current_buffer X F c f of
        (Inl _, c') \<Rightarrow> c' = c
      | (Inr _, c') \<Rightarrow> coll_ok c' \<and>
          (\<exists>b p. current c' = Inr b \<and> path b = Some p \<and> resolve F p = resolve F f) \<and>
          (buf_list c' = buf_list c \<or>
           (\<forall>b \<in> set (buf_list c). \<forall>p. path b = Some p \<longrightarrow> resolve F p \<noteq> resolve F f) \<and>
           (\<exists>content. fs_open F f = Inr content \<and>
             buf_list c' = buf_list c @ [from_data_and_path X content (Some f)]))"
    by (auto simp: switch_current_buffer_def coll_ok_def current_def index_def fs_canonicalize_def
        from_data_and_path_def Let_def split: sum.splits option.splits
        dest: find_buffer_Some find_buffer_None)
qed

theorem collection_correct_witness:
  "coll_ok (collection_new :: ref_delta buffr_collection) \<and>
   coll_ok (snd (switch_current_buffer ref_xi demo_fs collection_new (str ''a'')))"
proof -
  have "coll_ok (collection_new :: ref_delta buffr_collection)"
    by (simp add: coll_ok_def collection_new_def with_current_buffer_def)
  from collection_correct [OF this, of demo_fs "str ''a''" ref_xi] show ?thesis
    by (auto split: prod.splits sum.splits)
qed

end
