(* ===== verification/Edit_Selections.thy ===== *)
theory Edit_Selections
  imports Buffer_Selections
begin

text \<open>
  What an edit does to the selection. Deleting the selected bytes collapses every region to a
  cursor, so regions that meet merge; inserting text keeps all regions apart. In both cases the
  transport of the selection through the delta cannot panic, whatever the directions are.
\<close>

section \<open>Coordinates\<close>

lemma coord_end: "edits_ok (length xs) l es \<Longrightarrow> l \<le> Suc (length xs) \<Longrightarrow>
    coord l es (length xs) = length (apply_edits l es xs)"
proof (induction es arbitrary: l)
  case (Cons x es)
  obtain s e t where x: "x = (s, e, t)" by (cases x)
  have ok: "l \<le> s" "s \<le> e" "s \<le> length xs" "edits_ok (length xs) e es" using Cons.prems x by auto
  show ?case
  proof (cases "e \<le> length xs")
    case True
    then have "coord e es (length xs) = length (apply_edits e es xs)" using Cons.IH [OF ok(4)] by simp
    with True ok x show ?thesis by (simp add: max_def)
  next
    case False
    then have "es = []" using ok(4) by (cases es) auto
    with False ok x show ?thesis by (simp add: max_def)
  qed
qed simp

lemma coord_deletion:
  assumes "sorted_wrt before rs" "r \<in> set rs" "min_r r \<le> i" "i \<le> max_r r" "min_r r \<le> j" "j \<le> max_r r"
  shows "coord l (map deletion_edit rs) i = coord l (map deletion_edit rs) j"
  using assms(1,2)
proof (induction rs arbitrary: l)
  case (Cons q rs)
  show ?case
  proof (cases "r = q")
    case True
    with assms(3-6) have "max i (Suc (max_r q)) = Suc (max_r q)" "max j (Suc (max_r q)) = Suc (max_r q)" by auto
    with True assms(3-6) show ?thesis by (simp add: deletion_edit_def)
  next
    case False
    then have r: "r \<in> set rs" "max_r q < min_r r" using Cons.prems by (auto simp: before_def)
    then have "max i (Suc (max_r q)) = i" "max j (Suc (max_r q)) = j" "\<not> i < min_r q" "\<not> j < min_r q"
      using assms(3,5) min_le_max_r [of q] by auto
    with Cons r show ?thesis by (simp add: deletion_edit_def)
  qed
qed simp

lemma coord_insertions_strict:
  assumes "\<forall>(s, e, t) \<in> set es. s = e" "i < j" "l \<le> j" "edits_ok n l es"
  shows "l \<le> i \<Longrightarrow> coord l es i < coord l es j"
  using assms
proof (induction es arbitrary: l)
  case (Cons x es)
  obtain s t where x: "x = (s, s, t)" using Cons.prems(2) by (cases x) auto
  have s: "l \<le> s" "edits_ok n s es" using Cons.prems x by auto
  show ?case
  proof (cases "i < s")
    case i: True
    show ?thesis
    proof (cases "j < s")
      case False
      then have "i - l < s - l" using i Cons.prems(1) by simp
      with i False x show ?thesis by simp
    qed (use i Cons.prems x in simp)
  next
    case False
    then have "s \<le> i" "s \<le> j" using Cons.prems(3) by auto
    with Cons.IH [of s] Cons.prems s x show ?thesis by simp
  qed
qed simp

section \<open>Selections after a delta\<close>

text \<open>The images of disjoint regions are disjoint: nothing merges.\<close>

locale strict_region_map = region_map ok g
  for ok :: "selregion \<Rightarrow> bool" and g :: "selregion \<Rightarrow> selregion res" +
  assumes strict: "ok a \<Longrightarrow> ok b \<Longrightarrow> before a b \<Longrightarrow> g a = Inr a' \<Longrightarrow> g b = Inr b' \<Longrightarrow> before a' b'"
    and strict_total: "ok a \<Longrightarrow> \<exists>a'. g a = Inr a'"
begin

lemma strict_loop:
  assumes "sorted_wrt before rs" "\<forall>r \<in> set rs. ok r"
    and "\<forall>q \<in> set out. \<forall>r \<in> set rs. \<forall>r'. g r = Inr r' \<longrightarrow> before q r'"
  shows "\<exists>st' out' nm'. map_loop (single g upd) m i rs st out nm = Inr (st', out', nm')"
  using assms
proof (induction rs arbitrary: i st out nm)
  case (Cons r rs)
  obtain r' where r': "g r = Inr r'" using strict_total Cons.prems(2) by auto
  have "push_region out r' = Inr (out @ [r'])"
    using Cons.prems(3) r' by (auto simp: push_region_def overlaps_def before_def not_le)
  moreover have "\<forall>q \<in> set (out @ [r']). \<forall>r \<in> set rs. \<forall>r''. g r = Inr r'' \<longrightarrow> before q r''"
  proof (intro ballI allI impI)
    fix q p r'' assume q: "q \<in> set (out @ [r'])" and p: "p \<in> set rs" "g p = Inr r''"
    show "before q r''"
    proof (cases "q \<in> set out")
      case True
      with Cons.prems(3) p show ?thesis by simp
    next
      case False
      with q have "q = r'" by simp
      with strict [of r p r' r''] Cons.prems(1,2) p r' show ?thesis by simp
    qed
  qed
  then have "\<forall>q \<in> set (if i = m then flag_last (out @ [r']) else out @ [r']).
      \<forall>r \<in> set rs. \<forall>r''. g r = Inr r'' \<longrightarrow> before q r''"
    by (simp add: flag_last_def list_update_append)
  from Cons.IH [OF _ _ this] Cons.prems(1,2) have "\<exists>st' out' nm'. map_loop (single g upd) m (Suc i) rs (upd st r r')
      (if i = m then flag_last (out @ [r']) else out @ [r']) (if i = m then length (out @ [r']) - 1 else nm) =
      Inr (st', out', nm')" by simp
  ultimately show ?case unfolding map_loop_single r' by simp
qed simp

lemma map_selections_strict:
  assumes "sel_wf sel" "\<forall>r \<in> set (regions sel). ok r"
  shows "\<exists>st' sel'. sel_map_selections (single g upd) st sel = Inr (st', sel') \<and> sel_wf sel' \<and> flags_ok sel'"
proof -
  obtain st' out nm where "map_loop (single g upd) (main_selection sel) 0 (regions sel) st [] 0 = Inr (st', out, nm)"
    using strict_loop [where out = "[]" and rs = "regions sel" and upd = upd and m = "main_selection sel"
        and i = 0 and st = st and nm = 0] assms by (auto simp: sel_wf_def)
  then have eq: "sel_map_selections (single g upd) st sel = Inr (st', sel\<lparr>regions := out, main_selection := nm\<rparr>)"
    by (simp add: sel_map_selections_def)
  from eq map_selections_wf [OF eq assms] show ?thesis by blast
qed

end

definition offset_strict :: "('c, 'b, 'd, 's) xi \<Rightarrow> 'd \<Rightarrow> nat \<Rightarrow> bool" where
  "offset_strict X d n \<longleftrightarrow> (\<forall>i j. i < j \<longrightarrow> j \<le> n \<longrightarrow> delta_offset X d n i < delta_offset X d n j)"

lemma offset_strict_mono: "offset_strict X d n \<Longrightarrow> offset_mono X d n"
  by (auto simp: offset_strict_def offset_mono_def le_less)

lemma delta_region_cursor:
  "delta_offset X d n (caret r) = delta_offset X d n (tail r) \<Longrightarrow> \<exists>r'. delta_region X d n r = Inr r' \<and> cursor r'"
  by (simp add: delta_region_def cursor_def)

lemma delta_region_unflagged: "delta_region X d n r = Inr r' \<Longrightarrow> \<not> main r'"
  by (auto simp: delta_region_def)

lemma delta_region_strict:
  assumes "offset_strict X d n" "max_r b \<le> n" "before a b" "delta_region X d n a = Inr a'" "delta_region X d n b = Inr b'"
  shows "before a' b'"
proof -
  have "caret a < caret b" "caret a < tail b" "tail a < caret b" "tail a < tail b" "caret b \<le> n" "tail b \<le> n"
    using assms(2) before_fields [OF assms(3)] by (auto simp: max_r_def)
  with assms(1,4,5) show ?thesis by (auto simp: delta_region_def before_def offset_strict_def)
qed

interpretation delta_strict: strict_region_map "\<lambda>r. offset_strict X d n \<and> max_r r \<le> n" "delta_region X d n"
  for X :: "('c, 'b, 'd, 's) xi" and d n
proof (unfold_locales, goal_cases)
  case (1 a b a' b')
  then show ?case using delta_region_order [OF offset_strict_mono, of X d n a b a' b'] by simp
next
  case (2 a a')
  then show ?case using delta_region_unflagged [of X d n a a'] by simp
next
  case (3 a b a' b')
  then show ?case using delta_region_strict [of X d n b a a' b'] by simp
next
  case (4 a)
  show ?case by (simp add: delta_region_def)
qed

interpretation delta_cursor: total_region_map
    "\<lambda>r. offset_mono X d n \<and> max_r r \<le> n \<and> delta_offset X d n (caret r) = delta_offset X d n (tail r)"
    "delta_region X d n" cursor
  for X :: "('c, 'b, 'd, 's) xi" and d n
proof (unfold_locales, goal_cases)
  case (1 a b a' b')
  then show ?case using delta_region_order [of X d n a b] by blast
next
  case (2 a a')
  then show ?case using delta_region_unflagged [of X d n a a'] by simp
next
  case (3 a)
  then show ?case using delta_region_cursor [of X d n a] by simp
next
  case (4 a b)
  then show ?case by (rule cursor_merge_total)
next
  case (5 r v)
  show ?case by simp
qed

text \<open>The selection after the delta is well formed and inside the new document.\<close>

definition sel_moves :: "('c, 'b, 'd, 's) xi \<Rightarrow> 'd \<Rightarrow> nat \<Rightarrow> selection \<Rightarrow> bool" where
  "sel_moves X d n sel \<longleftrightarrow> (\<exists>sel'. sel_apply_delta X sel d n = Inr sel' \<and> sel_wf sel' \<and> flags_ok sel' \<and>
     in_bounds (new_document_len X d) sel')"

lemma sel_movesI:
  assumes "new_document_len X d \<noteq> 0 \<Longrightarrow> \<exists>sel'. sel_map_selections (single (delta_region X d n) stateless) () sel = Inr ((), sel') \<and>
    sel_wf sel' \<and> flags_ok sel'"
  shows "sel_moves X d n sel"
proof (cases "new_document_len X d = 0")
  case True
  then show ?thesis by (simp add: sel_moves_def sel_apply_delta_def sel_clear_new selection_new_ok)
next
  case False
  with assms obtain sel' where s: "sel_map_selections (single (delta_region X d n) stateless) () sel = Inr ((), sel')"
    "sel_wf sel'" "flags_ok sel'" by blast
  have "in_bounds (new_document_len X d) sel'"
    by (rule delta_map.map_selections_bounds [OF s(1)]) (rule delta_region_le)
  with False s show ?thesis by (auto simp: sel_moves_def sel_apply_delta_def)
qed

context xi_rope
begin

lemma built_offset_le:
  assumes "built X bden d n es" "i \<le> n"
  shows "delta_offset X d n i = min (new_document_len X d) (coord 0 es i)"
proof (cases "i = n")
  case True
  obtain base :: node where b: "node_len base = n" using that [of "[replicate n 0]"] by simp
  have "coord 0 es n = length (apply_edits 0 es (node_bytes base))"
    using coord_end [of "node_bytes base" 0 es] assms(1) b by (auto simp: built_def)
  moreover from built_apply [OF assms(1) b] have "new_document_len X d = length (apply_edits 0 es (node_bytes base))"
    by auto
  ultimately show ?thesis using True by (simp add: delta_offset_def)
qed (use built_offset [OF assms(1)] assms(2) in simp)

lemma deletion_sel_moves:
  assumes "sel_wf sel" "in_bounds n sel" "built X bden d n (map deletion_edit (regions sel))"
  shows "sel_moves X d n sel"
proof (rule sel_movesI)
  have "delta_offset X d n (caret r) = delta_offset X d n (tail r)" if r: "r \<in> set (regions sel)" for r
  proof -
    have "sorted_wrt before (regions sel)" using assms(1) by (simp add: sel_wf_def)
    from coord_deletion [OF this r, of "caret r" "tail r" 0] in_bounds_caret [OF assms(2) r] show ?thesis
      using caret_between [of r] built_offset_le [OF assms(3)] by simp
  qed
  with delta_cursor.map_selections_total [OF assms(1), of X d n stateless "()"] assms(2) built_offset_mono [OF assms(3)]
  show "\<exists>sel'. sel_map_selections (single (delta_region X d n) stateless) () sel = Inr ((), sel') \<and>
    sel_wf sel' \<and> flags_ok sel'" by (fastforce simp: in_bounds_def)
qed

lemma insertion_sel_moves:
  assumes "sel_wf sel" "in_bounds n sel" "built X bden d n es" "\<forall>(s, e, t) \<in> set es. s = e"
  shows "sel_moves X d n sel"
proof (rule sel_movesI)
  obtain base :: node where b: "node_len base = n" using that [of "[replicate n 0]"] by simp
  have ok: "edits_ok n 0 es" using assms(3) by (auto simp: built_def)
  have le: "coord 0 es i \<le> new_document_len X d" if "i \<le> n" for i
    using coord_le_length [OF ok, of "node_bytes base" i] built_apply [OF assms(3) b] b that by auto
  have "delta_offset X d n i = coord 0 es i" if "i \<le> n" for i
    using built_offset_le [OF assms(3) that] le [OF that] by simp
  then have "offset_strict X d n"
    unfolding offset_strict_def using coord_insertions_strict [OF assms(4) _ _ ok] by simp
  with delta_strict.map_selections_strict [OF assms(1), of X d n stateless "()"] assms(2)
  show "\<exists>sel'. sel_map_selections (single (delta_region X d n) stateless) () sel = Inr ((), sel') \<and>
    sel_wf sel' \<and> flags_ok sel'" by (fastforce simp: in_bounds_def)
qed

end

end
