(* ===== verification/Normal_Props.thy ===== *)
theory Normal_Props
  imports Edit_Selections Mode_Machine
begin

text \<open>
  Safety of the editor's commands: on a buffer whose selection is well formed and inside the
  document and whose history is intact, the commands of the normal mode do not panic and leave such
  a buffer, except for those that are known to panic (extending selections towards each other,
  counts that overflow, jumping behind the end), which are excluded by \<open>safe_action\<close>.
\<close>

section \<open>The invariant of a buffer\<close>

definition sel_ok :: "nat \<Rightarrow> selection \<Rightarrow> bool" where
  "sel_ok n sel \<longleftrightarrow> sel_wf sel \<and> in_bounds n sel \<and> fits n"

definition snap_ok :: "snapshot \<Rightarrow> bool" where
  "snap_ok p \<longleftrightarrow> sel_ok (length (fst p)) (snd p)"

definition snaps_ok :: "snapshots \<Rightarrow> bool" where
  "snaps_ok S \<longleftrightarrow> (\<forall>p \<in> set (past S) \<union> set (future S) \<union> set_option (typing S). snap_ok p)"

text \<open>A register that was ever filled has an entry, so a paste finds one to repeat.\<close>

definition regs_ok :: "'d buffer \<Rightarrow> bool" where
  "regs_ok b \<longleftrightarrow> [] \<notin> ran (registers b)"

definition buf_ok :: "('c, 'b, 'd, 's) xi \<Rightarrow> ('d \<Rightarrow> bool) \<Rightarrow> 'd buffer \<Rightarrow> bool" where
  "buf_ok X delta_ok b \<longleftrightarrow> snap_ok (now b) \<and> regs_ok b \<and> (\<exists>S. buf_rel X delta_ok b S \<and> snaps_ok S)"

text \<open>A handler ends with a transition and a good buffer; \<open>idle\<close>: no edit is pending.\<close>

definition idle :: "'d buffer \<Rightarrow> bool" where
  "idle b \<longleftrightarrow> partial (history b) = None"

definition safely :: "('c, 'b, 'd, 's) xi \<Rightarrow> ('d \<Rightarrow> bool) \<Rightarrow> (transition option \<times> 'd buffer) res \<Rightarrow> bool" where
  "safely X delta_ok r \<longleftrightarrow> (\<exists>t b'. r = Inr (Some t, b') \<and> buf_ok X delta_ok b' \<and> idle b')"

lemma snap_ok_now: "snap_ok (now b) \<longleftrightarrow> sel_ok (node_len (data b)) (selection b)"
  by (simp add: snap_ok_def now_def)

lemma sel_ok_bounds: "sel_ok n sel \<Longrightarrow> r \<in> set (regions sel) \<Longrightarrow>
    max_r r \<le> n \<and> caret r \<le> n \<and> tail r \<le> n \<and> min_r r \<le> n \<and> max_r r < usize_max"
  using fits_Suc_usize [of n] min_le_max_r [of r]
  by (fastforce simp: sel_ok_def in_bounds_def max_r_def)

lemma sel_ok_empty:
  assumes "sel_ok 0 sel"
  obtains r where "regions sel = [r]" "caret r = 0" "tail r = 0" "main_selection sel = 0"
proof -
  obtain r rs where rs: "regions sel = r # rs" using assms by (cases "regions sel") (auto simp: sel_ok_def sel_wf_def)
  have "rs = []"
  proof (rule ccontr)
    assume "rs \<noteq> []"
    then obtain q where "q \<in> set rs" by (cases rs) auto
    then have "before r q" "max_r q \<le> 0" using assms rs by (auto simp: sel_ok_def sel_wf_def in_bounds_def)
    with min_le_max_r [of q] show False by (simp add: before_def)
  qed
  with rs that assms show ?thesis by (auto simp: sel_ok_def sel_wf_def in_bounds_def max_r_def)
qed

lemma flagged_inside:
  assumes "\<forall>r \<in> set rs. max_r r \<le> n" "m < length rs" "q \<in> set (rs[m := (rs ! m)\<lparr>main := v\<rparr>])"
  shows "max_r q \<le> n"
proof (cases "q = (rs ! m)\<lparr>main := v\<rparr>")
  case True
  then show ?thesis using assms(1,2) by (simp add: max_r_def)
next
  case False
  then show ?thesis using assms(1,3) set_update_subset_insert [of rs m "(rs ! m)\<lparr>main := v\<rparr>"] by blast
qed

lemma sel_remove_inside:
  assumes "sel_wf sel" "i < length (regions sel)" "sel_remove sel i = Inr sel'" "in_bounds n sel"
  shows "in_bounds n sel'"
proof (cases "length (regions sel) = 1")
  case False
  then have one: "1 < length (regions sel)" using assms(2) by linarith
  let ?rs = "take i (regions sel) @ drop (Suc i) (regions sel)" and ?m = "min (length (regions sel) - 2) (main_selection sel)"
  have "\<forall>r \<in> set ?rs. max_r r \<le> n" using assms(4) by (auto simp: in_bounds_def dest: in_set_takeD in_set_dropD)
  moreover have "?m < length ?rs" using one assms(2) by simp
  ultimately show ?thesis
    using sel_remove_eq [OF assms(1) one assms(2)] assms(3) flagged_inside [of ?rs n ?m] by (auto simp: in_bounds_def)
qed (use assms(3,4) in \<open>simp add: sel_remove_def\<close>)

text \<open>Disjoint regions in a document: there are no more than offsets, so their number does not overflow.\<close>

lemma regions_bound:
  assumes "sorted_wrt before rs" "\<forall>r \<in> set rs. l \<le> min_r r \<and> max_r r \<le> n" "rs \<noteq> []"
  shows "l + length rs \<le> Suc n"
  using assms
proof (induction rs arbitrary: l)
  case (Cons r rs)
  have r: "l \<le> min_r r" "max_r r \<le> n" using Cons.prems(2) by auto
  show ?case
  proof (cases "rs = []")
    case True
    then show ?thesis using r min_le_max_r [of r] by simp
  next
    case False
    have "\<forall>q \<in> set rs. Suc l \<le> min_r q \<and> max_r q \<le> n"
      using Cons.prems(1,2) r min_le_max_r [of r] by (fastforce simp: before_def)
    then have "Suc l + length rs \<le> Suc n" using Cons.prems(1) False by (intro Cons.IH) auto
    then show ?thesis by simp
  qed
qed simp

lemma sel_ok_count: "sel_ok n sel \<Longrightarrow> main_selection sel + length (regions sel) \<le> usize_max"
proof -
  assume ok: "sel_ok n sel"
  then have "length (regions sel) \<le> Suc n" using regions_bound [of "regions sel" 0 n] by (auto simp: sel_ok_def sel_wf_def in_bounds_def)
  moreover have "main_selection sel < length (regions sel)" "int n \<le> isize_max" using ok by (auto simp: sel_ok_def sel_wf_def fits_def)
  ultimately show ?thesis by (simp add: isize_max_def usize_max_def)
qed

text \<open>Moving the main flag.\<close>

definition main_to :: "selection \<Rightarrow> nat \<Rightarrow> selection" where
  "main_to sel m = (let rs = (regions sel)[main_selection sel := (regions sel ! main_selection sel)\<lparr>main := False\<rparr>]
     in \<lparr>regions = rs[m := (rs ! m)\<lparr>main := True\<rparr>], main_selection = m\<rparr>)"

lemma main_to_ok:
  assumes "sel_ok n sel" "m < length (regions sel)"
  shows "sel_ok n (main_to sel m)"
proof -
  let ?rs = "(regions sel)[main_selection sel := (regions sel ! main_selection sel)\<lparr>main := False\<rparr>]"
  have "\<forall>r \<in> set ?rs. max_r r \<le> n"
    using flagged_inside [of "regions sel" n "main_selection sel"] assms(1) by (auto simp: sel_ok_def sel_wf_def in_bounds_def)
  then have "in_bounds n (main_to sel m)"
    using flagged_inside [of ?rs n m] assms(2) by (auto simp: in_bounds_def main_to_def Let_def)
  moreover have "sorted_wrt before ?rs" using assms(1) by (simp add: sel_ok_def sel_wf_def sorted_wrt_set_main)
  ultimately show ?thesis
    using assms sorted_wrt_set_main [of ?rs m] by (simp add: sel_ok_def sel_wf_def main_to_def Let_def)
qed

lemma select_next_main_to:
  assumes "sel_ok n sel" "main_selection sel + k \<le> usize_max"
  shows "sel_select_next sel k = Inr (main_to sel ((main_selection sel + k) mod length (regions sel)))"
  using assms by (auto simp: sel_select_next_def sel_ok_def sel_wf_def set_main_Inr umod_def main_to_def Let_def)

lemma select_prev_main_to:
  assumes "sel_ok n sel"
  shows "\<exists>m < length (regions sel). sel_select_prev sel k = Inr (main_to sel m)"
proof -
  let ?n = "length (regions sel)"
  have n: "0 < ?n" "main_selection sel < ?n" using assms by (auto simp: sel_ok_def sel_wf_def)
  have le: "k mod ?n \<le> main_selection sel + ?n" using mod_less_divisor [OF n(1), of k] by linarith
  have "sel_select_prev sel k = Inr (main_to sel ((main_selection sel + ?n - k mod ?n) mod ?n))"
    using n le sel_ok_count [OF assms]
    by (auto simp: sel_select_prev_def set_main_Inr umod_def main_to_def Let_def)
  moreover have "(main_selection sel + ?n - k mod ?n) mod ?n < ?n" using n(1) by simp
  ultimately show ?thesis by blast
qed

text \<open>What \<open>a\<close> does to a region: it points forward and grows by one.\<close>

definition append_ok :: "nat \<Rightarrow> nat \<Rightarrow> selregion \<Rightarrow> bool" where
  "append_ok bpl n r \<longleftrightarrow> 0 < n \<and> fits n \<and> small_count bpl 1 \<and> max_r r \<le> n"

lemma append_eq: "append_ok bpl n r \<Longrightarrow>
    simple_extend (to_forward r) Right bpl n 1 = Inr (region_new (min n (max_r r + 1)) (min_r r))"
  using simple_extend_eq [of bpl n 1 "to_forward r" Right] by (simp add: append_ok_def move_ok_def to_forward_def)

interpretation append_fwd: total_region_map "append_ok bpl n" "\<lambda>r. simple_extend (to_forward r) Right bpl n 1" forward
  for bpl n
proof (unfold_locales, goal_cases)
  case (1 a b a' b')
  have "min_r a < min_r b" using 1(3) min_le_max_r [of a] by (simp add: before_def)
  moreover have "min_r a' = min_r a" "min_r b' = min_r b"
    using append_eq [OF 1(1)] append_eq [OF 1(2)] 1 min_le_max_r [of a] min_le_max_r [of b] by (auto simp: append_ok_def)
  ultimately show ?case by simp
next
  case (3 a)
  then show ?case using append_eq [OF 3] min_le_max_r [of a] by (auto simp: append_ok_def forward_def)
next
  case (2 a a')
  then show ?case using append_eq [OF 2(1)] by auto
next
  case (4 a b)
  then show ?case by (rule merge_forward)
next
  case (5 r v)
  show ?case by (simp add: forward_def)
qed

text \<open>Turning the regions around keeps the selection in the document.\<close>

context range_map
begin

lemma range_map_ok:
  assumes "sel_ok n sel"
  shows "\<exists>st' sel'. sel_map_selections (single (\<lambda>r. Inr (h r)) upd) st sel = Inr (st', sel') \<and> sel_ok n sel'"
proof -
  obtain st' sel' where m: "sel_map_selections (single (\<lambda>r. Inr (h r)) upd) st sel = Inr (st', sel')"
    using range_map_selections [of sel upd st] assms by (auto simp: sel_ok_def)
  have "in_bounds n sel'"
    by (rule map_selections_bounds [OF m]) (use assms range_image(2) in \<open>auto simp: sel_ok_def in_bounds_def\<close>)
  with m map_selections_wf [OF m] assms show ?thesis by (auto simp: sel_ok_def)
qed

end

lemma perform_undo_registers: "perform_undo X b = Inr (o', b') \<Longrightarrow> registers b' = registers b"
  by (auto simp: perform_undo_def res_simps split: prod.splits option.splits)

lemma perform_redo_registers: "perform_redo X b = Inr (o', b') \<Longrightarrow> registers b' = registers b"
  by (auto simp: perform_redo_def res_simps split: prod.splits option.splits)

context xi_rope
begin

lemma buf_ok_selection:
  assumes "buf_ok X delta_ok b" "sel_ok (node_len (data b)) sel"
  shows "buf_ok X delta_ok (b\<lparr>selection := sel\<rparr>)"
  using assms by (auto simp: buf_ok_def snap_ok_def now_def regs_ok_def)

lemma idle_fields [simp]:
  "idle (b\<lparr>selection := sel\<rparr>) = idle b" "idle (b\<lparr>registers := rs\<rparr>) = idle b"
  by (simp_all add: idle_def)

lemma buf_ok_registers: "buf_ok X delta_ok b \<Longrightarrow> [] \<notin> ran rs \<Longrightarrow> buf_ok X delta_ok (b\<lparr>registers := rs\<rparr>)"
  by (simp add: buf_ok_def snap_ok_def now_def regs_ok_def)

subsection \<open>Commands that map the regions\<close>

lemma map_regions_safe:
  assumes "buf_ok X delta_ok b" "idle b"
    and "\<exists>st' dy sel'. buf_map_selections X (single g stateless) () b = Inr (st', dy, b\<lparr>selection := sel'\<rparr>) \<and>
      sel_ok (node_len (data b)) sel'"
  shows "safely X delta_ok (map_regions X g t b)"
  using assms buf_ok_selection by (fastforce simp: safely_def map_regions_def)

text \<open>One region always maps without merging.\<close>

lemma map_single_region:
  assumes "regions (selection b) = [r]" "main_selection (selection b) = 0" "g r = Inr r'"
    and "max_r r < usize_max" "max_r r' < usize_max"
  shows "\<exists>dy. buf_map_selections X (single g stateless) () b =
    Inr ((), dy, b\<lparr>selection := \<lparr>regions = [r'\<lparr>main := True\<rparr>], main_selection = 0\<rparr>\<rparr>)"
  using assms
  by (cases "selection b")
    (simp add: buf_map_selections_def sel_map_selections_def record_ranges_def single_def region_interval_eq
      push_region_def set_main_Inr)

lemma empty_regions_safe:
  assumes "buf_ok X delta_ok b" "idle b" "node_len (data b) = 0" "\<And>r. g r = Inr r"
  shows "safely X delta_ok (map_regions X g t b)"
proof -
  have ok: "sel_ok 0 (selection b)" using assms(1,3) by (simp add: buf_ok_def snap_ok_now)
  obtain r where r: "regions (selection b) = [r]" "caret r = 0" "tail r = 0" "main_selection (selection b) = 0"
    using sel_ok_empty [OF ok] .
  then have m: "max_r r < usize_max" by (simp add: max_r_def usize_max_def)
  have "sel_ok 0 \<lparr>regions = [r\<lparr>main := True\<rparr>], main_selection = 0\<rparr>"
    using r ok by (auto simp: sel_ok_def sel_wf_def in_bounds_def max_r_def)
  then have "sel_ok (node_len (data b)) \<lparr>regions = [r\<lparr>main := True\<rparr>], main_selection = 0\<rparr>"
    by (simp only: assms(3))
  moreover obtain dy where "buf_map_selections X (single g stateless) () b =
      Inr ((), dy, b\<lparr>selection := \<lparr>regions = [r\<lparr>main := True\<rparr>], main_selection = 0\<rparr>\<rparr>)"
    using map_single_region [of b r g r, OF r(1,4) assms(4) m m] by blast
  ultimately show ?thesis by (intro map_regions_safe [OF assms(1,2)]) blast
qed

lemma total_safe:
  assumes b: "buf_ok X delta_ok b" "idle b"
    and g: "\<exists>st' dy sel'. buf_map_selections X (single g stateless) () b = Inr (st', dy, b\<lparr>selection := sel'\<rparr>) \<and>
      sel_wf sel' \<and> flags_ok sel' \<and> in_bounds (node_len (data b)) sel' \<and> (\<forall>q \<in> set (regions sel'). Q q) \<and>
      dirty_exact dy (selection b) sel'"
  shows "safely X delta_ok (map_regions X g t b)"
  using g b(1) by (intro map_regions_safe [OF b]) (fastforce simp: sel_ok_def buf_ok_def snap_ok_now)

lemma move_safe:
  assumes b: "buf_ok X delta_ok b" "idle b" and c: "small_count bpl n"
  shows "safely X delta_ok (map_regions X (\<lambda>r. simple_move r dir bpl (node_len (data b)) n) t b)"
proof (cases "node_len (data b) = 0")
  case True
  then show ?thesis by (intro empty_regions_safe [OF b True]) (simp add: simple_move_def)
next
  case False
  have ok: "sel_ok (node_len (data b)) (selection b)" using b by (simp add: buf_ok_def snap_ok_now)
  have m: "\<forall>r \<in> set (regions (selection b)). move_ok bpl (node_len (data b)) n r"
    using False c ok sel_ok_bounds [OF ok] by (auto simp: move_ok_def sel_ok_def)
  show ?thesis
  proof (rule total_safe [OF b move.buf_map_total])
    fix r r' assume "r \<in> set (regions (selection b))" "simple_move r dir bpl (node_len (data b)) n = Inr r'"
    with m moved_to_le [of "caret r" "node_len (data b)"] show "max_r r' \<le> node_len (data b)"
      by (auto simp: simple_move_eq move_ok_def)
  qed (use m ok xi_interval_axioms in \<open>auto simp: sel_ok_def\<close>)
qed

lemma sel_ok_now: "buf_ok X delta_ok b \<Longrightarrow> sel_ok (node_len (data b)) (selection b)"
  by (simp add: buf_ok_def snap_ok_now)

lemma jump_safe:
  assumes b: "buf_ok X delta_ok b" "idle b" and off: "off \<le> node_len (data b)"
  shows "safely X delta_ok (map_regions X (\<lambda>r. Inr (jump_to r off)) t b)"
  using sel_ok_now [OF b(1)] off xi_interval_axioms
  by (intro total_safe [OF b jump.buf_map_total]) (auto simp: sel_ok_def jump_to_def max_r_def)

lemma collapse_safe:
  assumes b: "buf_ok X delta_ok b" "idle b"
  shows "safely X delta_ok (map_regions X (\<lambda>r. Inr (collapse r)) t b)"
  using sel_ok_now [OF b(1)] xi_interval_axioms
  by (intro total_safe [OF b collapse.buf_map_total]) (auto simp: sel_ok_def collapse_def in_bounds_def max_r_def)

lemma range_safe:
  assumes b: "buf_ok X delta_ok b" "idle b" and h: "range_map h"
  shows "safely X delta_ok (map_regions X (\<lambda>r. Inr (h r)) t b)"
proof (rule map_regions_safe [OF b])
  have ok: "sel_ok (node_len (data b)) (selection b)" by (rule sel_ok_now [OF b(1)])
  note mx = sel_ok_bounds [OF ok]
  obtain seen st' sel' where m: "sel_map_selections (single (\<lambda>r. Inr (h r)) (recording stateless)) ([], ()) (selection b) =
      Inr ((seen, st'), sel')" "sel_ok (node_len (data b)) sel'"
    using range_map.range_map_ok [OF h ok, of "recording stateless" "([], ())"] by auto
  obtain dy where "buf_map_selections X (single (\<lambda>r. Inr (h r)) stateless) () b = Inr (st', dy, b\<lparr>selection := sel'\<rparr>)"
    using buf_map_single [OF _ _ m(1)] mx range_map.range_image(2) [OF h] by (metis sum.inject(2))
  with m(2) show "\<exists>st' dy sel'. buf_map_selections X (single (\<lambda>r. Inr (h r)) stateless) () b =
      Inr (st', dy, b\<lparr>selection := sel'\<rparr>) \<and> sel_ok (node_len (data b)) sel'" by blast
qed

text \<open>Extending cannot merge anything when there is only one region.\<close>

lemma lone_safe:
  assumes b: "buf_ok X delta_ok b" "idle b" and one: "length (regions (selection b)) = 1"
    and g: "\<And>r. r \<in> set (regions (selection b)) \<Longrightarrow> \<exists>r'. g r = Inr r' \<and> max_r r' \<le> node_len (data b)"
  shows "safely X delta_ok (map_regions X g t b)"
proof (rule map_regions_safe [OF b])
  have ok: "sel_ok (node_len (data b)) (selection b)" by (rule sel_ok_now [OF b(1)])
  obtain r where r: "regions (selection b) = [r]" using one by (auto simp: length_Suc_conv)
  obtain r' where r': "g r = Inr r'" "max_r r' \<le> node_len (data b)" using g r by auto
  have m: "main_selection (selection b) = 0" "max_r r < usize_max" "max_r r' < usize_max"
    using ok r sel_ok_bounds [OF ok, of r] r'(2) fits_Suc_usize [of "node_len (data b)"] by (auto simp: sel_ok_def sel_wf_def)
  obtain dy where "buf_map_selections X (single g stateless) () b =
      Inr ((), dy, b\<lparr>selection := \<lparr>regions = [r'\<lparr>main := True\<rparr>], main_selection = 0\<rparr>\<rparr>)"
    using map_single_region [of b r g r', OF r m(1) r'(1) m(2,3)] by blast
  moreover have "sel_ok (node_len (data b)) \<lparr>regions = [r'\<lparr>main := True\<rparr>], main_selection = 0\<rparr>"
    using ok r'(2) by (simp add: sel_ok_def sel_wf_def in_bounds_def max_r_def)
  ultimately show "\<exists>st' dy sel'. buf_map_selections X (single g stateless) () b = Inr (st', dy, b\<lparr>selection := sel'\<rparr>) \<and>
      sel_ok (node_len (data b)) sel'" by blast
qed

lemma extend_safe:
  assumes b: "buf_ok X delta_ok b" "idle b" and one: "length (regions (selection b)) = 1" and c: "small_count bpl n"
  shows "safely X delta_ok (map_regions X (\<lambda>r. simple_extend r dir bpl (node_len (data b)) n) t b)"
proof (rule lone_safe [OF b one])
  fix r assume r: "r \<in> set (regions (selection b))"
  have ok: "sel_ok (node_len (data b)) (selection b)" by (rule sel_ok_now [OF b(1)])
  show "\<exists>r'. simple_extend r dir bpl (node_len (data b)) n = Inr r' \<and> max_r r' \<le> node_len (data b)"
  proof (cases "node_len (data b) = 0")
    case True
    then show ?thesis using sel_ok_bounds [OF ok r] by (simp add: simple_extend_def)
  next
    case False
    then have "move_ok bpl (node_len (data b)) n r" using sel_ok_bounds [OF ok r] ok c by (simp add: move_ok_def sel_ok_def)
    then show ?thesis
      using sel_ok_bounds [OF ok r] moved_to_le [of "caret r" "node_len (data b)"] by (simp add: simple_extend_eq max_r_def)
  qed
qed

text \<open>Appending makes all regions point forward first, so that overlapping ones merge.\<close>

lemma append_safe:
  assumes b: "buf_ok X delta_ok b" "idle b" and c: "fits bpl"
  shows "safely X delta_ok (map_regions X (\<lambda>r. simple_extend (to_forward r) Right bpl (node_len (data b)) 1) t b)"
proof -
  have ok: "sel_ok (node_len (data b)) (selection b)" by (rule sel_ok_now [OF b(1)])
  show ?thesis
  proof (cases "node_len (data b) = 0")
    case True
    then show ?thesis using range_safe [OF b fwd.range_map_axioms, of t] by (simp add: simple_extend_def)
  next
    case False
    have one: "small_count bpl 1" using c by (simp add: small_count_def fits_def isize_max_def)
    have m: "append_ok bpl (node_len (data b)) r" if "r \<in> set (regions (selection b))" for r
      using sel_ok_bounds [OF ok that] False one ok by (simp add: append_ok_def sel_ok_def)
    show ?thesis
    proof (rule total_safe [OF b append_fwd.buf_map_total])
      fix r r' assume r: "r \<in> set (regions (selection b))" "simple_extend (to_forward r) Right bpl (node_len (data b)) 1 = Inr r'"
      with append_eq [OF m [OF r(1)]] sel_ok_bounds [OF ok r(1)] show "max_r r' \<le> node_len (data b)" by auto
    qed (use m ok xi_interval_axioms in \<open>auto simp: sel_ok_def\<close>)
  qed
qed

subsection \<open>Commands that change the main region\<close>

lemma region_intervals: "sel_ok n sel \<Longrightarrow> rmap (region_interval X) (regions sel) = Inr (map riv (regions sel))"
  using region_interval_eq sel_ok_bounds by (intro rmap_Inr_map) blast

lemma modify_safe:
  assumes b: "buf_ok X delta_ok b" "idle b" and f: "f (selection b) = Inr sel'" "sel_ok (node_len (data b)) sel'"
  shows "safely X delta_ok (with_dirty (modify_sels_in_place X f b) t)"
  using region_intervals [OF sel_ok_now [OF b(1)]] f buf_ok_selection [OF b(1) f(2)] b(2)
  by (auto simp: safely_def with_dirty_def modify_sels_in_place_def)

lemma remove_safe:
  assumes b: "buf_ok X delta_ok b" "idle b"
  shows "safely X delta_ok (with_dirty (remove_selection X b i) t)"
proof -
  have ok: "sel_ok (node_len (data b)) (selection b)" by (rule sel_ok_now [OF b(1)])
  let ?n = "length (regions (selection b))"
  have n: "0 < ?n" using ok by (auto simp: sel_ok_def sel_wf_def)
  then obtain sel' where sel': "sel_remove (selection b) (i mod ?n) = Inr sel'" "sel_wf sel'"
    using sel_remove_wf [of "selection b" "i mod ?n"] ok by (auto simp: sel_ok_def)
  have "sel_ok (node_len (data b)) sel'" using sel_remove_inside [OF _ _ sel'(1)] sel'(2) ok n by (simp add: sel_ok_def)
  with n sel'(1) show ?thesis
    unfolding remove_selection_def by (intro modify_safe [OF b]) (auto simp: umod_def sel_len_def)
qed

lemma retain_safe:
  assumes b: "buf_ok X delta_ok b" "idle b"
  shows "safely X delta_ok (with_dirty (retain_selection X b i) t)"
proof -
  have ok: "sel_ok (node_len (data b)) (selection b)" by (rule sel_ok_now [OF b(1)])
  let ?n = "length (regions (selection b))"
  have n: "0 < ?n" using ok by (auto simp: sel_ok_def sel_wf_def)
  obtain sel' where sel': "retain (selection b) (i mod ?n) = Inr sel'" "sel_ok (node_len (data b)) sel'"
    using n ok by (auto simp: retain_def sel_ok_def sel_wf_def in_bounds_def max_r_def)
  with n show ?thesis
    unfolding retain_selection_def by (intro modify_safe [OF b]) (auto simp: umod_def sel_len_def)
qed

lemma switch_safe:
  assumes b: "buf_ok X delta_ok b" "idle b" and f: "f (selection b) = Inr sel'" "sel_ok (node_len (data b)) sel'"
  shows "safely X delta_ok (with_dirty (switch_main_sel X f b) t)"
proof -
  have "\<exists>iv. rbind (sel_main sel) (region_interval X) = Inr iv" if "sel_ok (node_len (data b)) sel" for sel
  proof -
    have "regions sel ! main_selection sel \<in> set (regions sel)" "main_selection sel < length (regions sel)"
      using that by (auto simp: sel_ok_def sel_wf_def)
    then show ?thesis using sel_ok_bounds [OF that] region_interval_eq by (auto simp: sel_main_def)
  qed
  from this [OF sel_ok_now [OF b(1)]] this [OF f(2)] f(1) buf_ok_selection [OF b(1) f(2)] b(2) show ?thesis
    by (auto simp: safely_def with_dirty_def switch_main_sel_def)
qed

lemma select_safe:
  assumes b: "buf_ok X delta_ok b" "idle b"
  shows "main_selection (selection b) + k \<le> usize_max \<Longrightarrow> safely X delta_ok (with_dirty (buf_select_next X b k) t)"
    and "safely X delta_ok (with_dirty (buf_select_prev X b k) t)"
proof -
  have ok: "sel_ok (node_len (data b)) (selection b)" by (rule sel_ok_now [OF b(1)])
  have n: "0 < length (regions (selection b))" using ok by (auto simp: sel_ok_def sel_wf_def)
  show "safely X delta_ok (with_dirty (buf_select_next X b k) t)" if "main_selection (selection b) + k \<le> usize_max"
    unfolding buf_select_next_def
    using select_next_main_to [OF ok that] main_to_ok [OF ok] n by (intro switch_safe [OF b]) auto
  show "safely X delta_ok (with_dirty (buf_select_prev X b k) t)"
    unfolding buf_select_prev_def
    using select_prev_main_to [OF ok, of k] main_to_ok [OF ok] by (auto intro: switch_safe [OF b])
qed

lemma select_all_safe:
  assumes b: "buf_ok X delta_ok b" "idle b"
  shows "safely X delta_ok (normal_act X cs bpl SelectAll b)"
proof -
  let ?n = "node_len (data b)" and ?s = "\<lparr>regions = [\<lparr>caret = node_len (data b) - 1, tail = 0, main = True\<rparr>], main_selection = 0\<rparr>"
  have "sel_ok ?n ?s" using sel_ok_now [OF b(1)] by (simp add: sel_ok_def sel_wf_def in_bounds_def max_r_def)
  from buf_ok_selection [OF b(1) this] b(2) show ?thesis
    by (auto simp: safely_def select_all_eq rope_len_def interval_new)
qed

lemma measure_safe:
  assumes b: "buf_ok X delta_ok b" "idle b"
  shows "safely X delta_ok (normal_act X cs bpl Measure b)"
proof -
  have ok: "sel_ok (node_len (data b)) (selection b)" by (rule sel_ok_now [OF b(1)])
  then have r: "main_selection (selection b) < length (regions (selection b))" by (simp add: sel_ok_def sel_wf_def)
  with sel_ok_bounds [OF ok, of "regions (selection b) ! main_selection (selection b)"] b show ?thesis
    by (auto simp: safely_def sel_main_def len_r_eq)
qed

subsection \<open>Yanking and editing\<close>

lemma yank_ok:
  assumes b: "buf_ok X delta_ok b" "idle b"
  shows "\<exists>rs. yank_selections X b reg = Inr (b\<lparr>registers := rs\<rparr>) \<and> buf_ok X delta_ok (b\<lparr>registers := rs\<rparr>)"
proof -
  have ok: "sel_ok (node_len (data b)) (selection b)" by (rule sel_ok_now [OF b(1)])
  have ne: "regions (selection b) \<noteq> []" "[] \<notin> ran (registers b)"
    using ok b(1) by (auto simp: sel_ok_def sel_wf_def buf_ok_def regs_ok_def)
  then have regs: "[] \<notin> ran ((registers b)(reg \<mapsto> ts))" if "ts \<noteq> []" for ts
    using that by (auto simp: ran_def)
  have "rmap (\<lambda>region. rbind (region_interval X region) (slice_to_cow X (data b))) (regions (selection b)) =
      Inr (map (\<lambda>r. take (Suc (max_r r) - min_r r) (drop (min_r r) (node_bytes (data b)))) (regions (selection b)))"
    using sel_ok_bounds [OF ok] region_interval_eq slice_to_cow_bytes
    by (intro rmap_Inr_map) (simp add: riv_def)
  with ne regs buf_ok_registers [OF b(1)] show ?thesis
    by (auto simp: yank_selections_def sel_len_def)
qed

text \<open>A finished edit whose delta was built from edits of this document.\<close>

lemma edit_safe:
  assumes b: "buf_ok X delta_ok b" "idle b" and d: "d = Inr dl" "built X bden dl (node_len (data b)) es"
    and m: "sel_moves X dl (node_len (data b)) (selection b)" and f: "fits (new_document_len X dl)"
  shows "safely X delta_ok (edit_with X d t b)"
proof -
  obtain S where S: "buf_rel X delta_ok b S" "snaps_ok S" using b(1) by (auto simp: buf_ok_def)
  obtain r where r: "delta_apply X dl (data b) = Inr r" "new_document_len X dl = node_len r"
    using built_apply [OF d(2)] by auto
  obtain sel' where sel': "sel_apply_delta X (selection b) dl (node_len (data b)) = Inr sel'" "sel_ok (node_len r) sel'"
    using m f r(2) by (auto simp: sel_moves_def sel_ok_def)
  let ?b = "b\<lparr>history := perform_final X (history b) (data b) dl (selection b), data := r, dirty := True\<rparr>"
  have cur: "apply_delta_to_current_buffer X b dl True = Inr ?b"
    using r(1) by (simp add: apply_delta_to_current_buffer_def rope_apply_delta_def)
  have t: "typing S = None" using typing_partial [OF S(1)] b(2) by (simp add: idle_def)
  have rel: "buf_rel X delta_ok ?b (snap_final S (now b))"
    using current_rel [OF S(1) _ _ cur] built_ok [OF d(2)] t by simp
  have "snaps_ok (snap_final S (now b))" using S(2) b(1) by (auto simp: snaps_ok_def snap_final_def buf_ok_def)
  with rel have "buf_ok X delta_ok (?b\<lparr>selection := sel'\<rparr>)"
    using sel'(2) b(1) by (auto simp: buf_ok_def snap_ok_def now_def regs_ok_def)
  moreover have "idle ?b" using typing_partial [OF rel] t by (simp add: idle_def snap_final_def)
  moreover have "edit_with X d t b = Inr (Some (t ChangeLength), ?b\<lparr>selection := sel'\<rparr>)"
    using d(1) cur sel'(1) by (simp add: edit_with_def buf_apply_delta_def rope_len_def Let_def)
  ultimately show ?thesis by (auto simp: safely_def)
qed

lemma undo_redo_safe:
  assumes b: "buf_ok X delta_ok b" "idle b"
  shows "safely X delta_ok (normal_act X cs bpl UndoAction b)" "safely X delta_ok (normal_act X cs bpl RedoAction b)"
proof -
  obtain S where S: "buf_rel X delta_ok b S" "snaps_ok S" using b(1) by (auto simp: buf_ok_def)
  have t: "typing S = None" using typing_partial [OF S(1)] b(2) by (simp add: idle_def)
  have now: "snap_ok (now b)" using b(1) by (simp add: buf_ok_def)
  have keep: "safely X delta_ok (Inr (Some tr, b'))"
    if "buf_rel X delta_ok b' S'" "snaps_ok S'" "typing S' = None" "snap_ok (now b')" "registers b' = registers b" for tr b' S'
    using that b(1) typing_partial [OF that(1)] by (auto simp: safely_def buf_ok_def idle_def regs_ok_def)
  show "safely X delta_ok (normal_act X cs bpl UndoAction b)"
  proof (cases "past S")
    case Nil
    with undo_none [OF S(1) t] b show ?thesis by (auto simp: safely_def)
  next
    case (Cons p ps)
    obtain b' where b': "perform_undo X b = Inr (Some ChangeLength, b')" "now b' = p"
      "buf_rel X delta_ok b' (S\<lparr>past := ps, future := now b # future S\<rparr>)" using undo_step [OF S(1) t Cons] by blast
    with keep [OF b'(3)] perform_undo_registers [OF b'(1)] S(2) now t Cons show ?thesis by (auto simp: snaps_ok_def)
  qed
  show "safely X delta_ok (normal_act X cs bpl RedoAction b)"
  proof (cases "future S")
    case Nil
    with redo_none [OF S(1) t] b show ?thesis by (auto simp: safely_def)
  next
    case (Cons p ps)
    obtain b' where b': "perform_redo X b = Inr (Some ChangeLength, b')" "now b' = p"
      "buf_rel X delta_ok b' (S\<lparr>future := ps, past := now b # past S\<rparr>)" using redo_step [OF S(1) t Cons] by blast
    with keep [OF b'(3)] perform_redo_registers [OF b'(1)] S(2) now t Cons show ?thesis by (auto simp: snaps_ok_def)
  qed
qed

lemma deletion_safe:
  assumes b: "buf_ok X delta_ok b" "idle b"
  shows "safely X delta_ok (edit_with X (deletion X (data b) (selection b)) t b)"
proof -
  have ok: "sel_wf (selection b)" "in_bounds (node_len (data b)) (selection b)" "fits (node_len (data b))"
    using sel_ok_now [OF b(1)] by (simp_all add: sel_ok_def)
  obtain d where d: "deletion X (data b) (selection b) = Inr d"
    "built X bden d (node_len (data b)) (map deletion_edit (regions (selection b)))"
    using deletion_built [OF ok] by blast
  obtain r where r: "delta_apply X d (data b) = Inr r" "new_document_len X d = node_len r"
    using built_apply [OF d(2) refl] by auto
  have "node_bytes r = map ((!) (node_bytes (data b))) (filter (\<lambda>i. \<not> selected (selection b) i) [0 ..< node_len (data b)])"
    using deletion_yields [OF ok] d(1) r(1) by (simp add: yields_def rope_apply_delta_def by_offset_filter)
  then have "node_len r \<le> node_len (data b)"
    using length_filter_le [of "\<lambda>i. \<not> selected (selection b) i" "[0 ..< node_len (data b)]"] by simp
  then have "fits (new_document_len X d)" using ok(3) r(2) fits_mono by simp
  then show ?thesis using edit_safe [OF b d deletion_sel_moves [OF ok(1,2) d(2)]] by blast
qed

lemma delete_change_safe:
  assumes b: "buf_ok X delta_ok b" "idle b"
  shows "safely X delta_ok (normal_delete X reg b)" "safely X delta_ok (normal_change X h reg b)"
proof -
  obtain rs where y: "yank_selections X b reg = Inr (b\<lparr>registers := rs\<rparr>)" "buf_ok X delta_ok (b\<lparr>registers := rs\<rparr>)"
    using yank_ok [OF b] by blast
  have i: "idle (b\<lparr>registers := rs\<rparr>)" using b(2) by simp
  show "safely X delta_ok (normal_delete X reg b)" "safely X delta_ok (normal_change X h reg b)"
    using y deletion_safe [OF y(2) i] i by (auto simp: normal_delete_def normal_change_def safely_def)
qed

lemma paste_safe:
  assumes b: "buf_ok X delta_ok b" "idle b"
    and f: "\<And>d. paste X (data b) (selection b) (case registers b reg of Some r \<Rightarrow> r | None \<Rightarrow> [[]]) after n = Inr d \<Longrightarrow>
      fits (new_document_len X d)"
  shows "safely X delta_ok (normal_paste X after reg n b)"
proof -
  have ok: "sel_wf (selection b)" "in_bounds (node_len (data b)) (selection b)" "fits (node_len (data b))"
    using sel_ok_now [OF b(1)] by (simp_all add: sel_ok_def)
  let ?reg = "case registers b reg of Some r \<Rightarrow> r | None \<Rightarrow> [[]]"
  have "?reg \<noteq> []" using b(1) by (auto simp: buf_ok_def regs_ok_def ran_def split: option.split)
  then obtain d where d: "paste X (data b) (selection b) ?reg after n = Inr d" "built X bden d (node_len (data b))
      (map (paste_edit (node_len (data b)) after n) (zip (regions (selection b)) (padded ?reg (length (regions (selection b))))))"
    using paste_built [OF ok] by blast
  have "sel_moves X d (node_len (data b)) (selection b)"
    by (rule insertion_sel_moves [OF ok(1,2) d(2)]) (auto simp: paste_edit_def Let_def)
  then show ?thesis unfolding normal_paste_def using edit_safe [OF b d] f [OF d(1)] by blast
qed

end

section \<open>The normal mode\<close>

text \<open>
  The commands of the normal mode, with what they need so as not to panic: counts that fit a machine word,
  jumps inside the document, a single region for extending, and room for the text pasted. All others are safe
  in every buffer.
\<close>

fun safe_action :: "('c, 'b, 'd, 's) xi \<Rightarrow> count_state \<Rightarrow> nat \<Rightarrow> normal_action \<Rightarrow> 'd buffer \<Rightarrow> bool" where
  "safe_action X cs bpl (Move dir) b \<longleftrightarrow> small_count bpl (to_count cs)"
| "safe_action X cs bpl (Extend dir) b \<longleftrightarrow> small_count bpl (to_count cs) \<and> length (regions (selection b)) = 1"
| "safe_action X cs bpl JumpToMode b \<longleftrightarrow> (case cs of NoCount \<Rightarrow> True | Count _ off \<Rightarrow> off \<le> node_len (data b))"
| "safe_action X cs bpl ExtendToMode b \<longleftrightarrow> (case cs of NoCount \<Rightarrow> True
     | Count _ off \<Rightarrow> off \<le> node_len (data b) \<and> length (regions (selection b)) = 1)"
| "safe_action X cs bpl (AppendAction h) b \<longleftrightarrow> fits bpl"
| "safe_action X cs bpl (Paste after reg) b \<longleftrightarrow>
     (case paste X (data b) (selection b) (case registers b reg of Some r \<Rightarrow> r | None \<Rightarrow> [[]]) after (to_count cs) of
        Inr d \<Rightarrow> fits (new_document_len X d) | Inl _ \<Rightarrow> True)"
| "safe_action X cs bpl SelectNext b \<longleftrightarrow> main_selection (selection b) + to_count cs \<le> usize_max"
| "safe_action X cs bpl _ b \<longleftrightarrow> True"

context xi_rope
begin

lemma stay_safe: "buf_ok X delta_ok b \<Longrightarrow> idle b \<Longrightarrow> safely X delta_ok (Inr (Some t, b))"
  by (simp add: safely_def)

lemma extend_to_safe:
  assumes b: "buf_ok X delta_ok b" "idle b" and "length (regions (selection b)) = 1" "off \<le> node_len (data b)"
  shows "safely X delta_ok (map_regions X (\<lambda>r. Inr (extend_to r off)) t b)"
  using assms(4) sel_ok_bounds [OF sel_ok_now [OF b(1)]]
  by (intro lone_safe [OF b assms(3)]) (auto simp: extend_to_def max_r_def)

lemmas safe_commands = stay_safe jump_safe collapse_safe extend_safe extend_to_safe append_safe move_safe remove_safe
  retain_safe select_safe delete_change_safe
  range_safe [OF _ _ swap.range_map_axioms] range_safe [OF _ _ bwd.range_map_axioms]

lemma normal_act_safe:
  assumes b: "buf_ok X delta_ok b" "idle b" and s: "safe_action X cs bpl a b"
  shows "safely X delta_ok (normal_act X cs bpl a b)"
proof (cases a)
  case (Yank reg)
  with yank_ok [OF b, of reg] b(2) show ?thesis by (auto simp: safely_def)
next
  case (Paste after reg)
  with s paste_safe [OF b, of reg after "to_count cs"] show ?thesis by (auto split: sum.splits)
next
  case (AppendAction h)
  with s append_safe [OF b] show ?thesis by (simp add: rope_len_def Let_def)
next
  case SelectAll
  show ?thesis unfolding SelectAll by (rule select_all_safe [OF b])
next
  case Measure
  show ?thesis unfolding Measure by (rule measure_safe [OF b])
next
  case UndoAction
  show ?thesis unfolding UndoAction by (rule undo_redo_safe(1) [OF b])
next
  case RedoAction
  show ?thesis unfolding RedoAction by (rule undo_redo_safe(2) [OF b])
qed (use b s in \<open>auto simp: rope_len_def Let_def safe_commands split: count_state.splits\<close>)

end

text \<open>Counting does not overflow while there is room for another digit.\<close>

lemma count_transition_total:
  assumes "10 * to_count cs + 9 \<le> usize_max"
  shows "\<exists>t. count_transition cs evt = Inr t"
proof -
  have d: "d \<le> 15" if "event_to_action count_maps evt = Some (AppendDigit d)" for d
    using that by (auto simp: count_maps_def event_to_action_def on_char_def on_key_def split: event.splits if_splits)
  show ?thesis
  proof (cases "event_to_action count_maps evt")
    case (Some a)
    show ?thesis
    proof (cases cs)
      case NoCount
      with Some show ?thesis by (cases a) (auto simp: count_transition_def)
    next
      case (Count h n)
      then have "n * 10 + d \<le> usize_max" if "d \<le> 9" for d using assms that by (simp add: to_count_def)
      with Some Count show ?thesis by (cases a; cases h) (auto simp: count_transition_def umul_def uadd_def not_less)
    qed
  qed (simp add: count_transition_def)
qed

text \<open>
  C2: the normal mode is safe. On a buffer that satisfies the invariant (a well-formed selection inside the
  document, an intact history whose entries satisfy the same, registers that are not empty), outside a typing
  session, no event makes the normal mode panic and the invariant holds afterwards, provided that the command
  is none of the excluded ones (\<open>safe_action\<close>) and the count does not overflow.
\<close>

theorem normal_mode_safe:
  assumes "xi_rope X cur_at bden delta_ok msk ins_ok" "buf_ok X delta_ok b" "idle b" "10 * to_count cs + 9 \<le> usize_max"
    and "\<And>a. event_to_action normal_maps evt = Some a \<Longrightarrow> safe_action X cs bpl a b"
  shows "\<exists>t b'. normal_transition X cs evt bpl b = Inr (t, b') \<and> buf_ok X delta_ok b' \<and> idle b'"
proof -
  obtain t where t: "count_transition cs evt = Inr t" using count_transition_total [OF assms(4)] by blast
  show ?thesis
  proof (cases "t = NotHandled \<and> (\<exists>a. event_to_action normal_maps evt = Some a)")
    case True
    then obtain a where a: "event_to_action normal_maps evt = Some a" by blast
    from xi_rope.normal_act_safe [OF assms(1-3) assms(5) [OF a]] True t a show ?thesis
      by (auto simp: safely_def normal_transition_def)
  next
    case False
    with t assms(2,3) show ?thesis
      by (cases t; cases "event_to_action normal_maps evt") (auto simp: normal_transition_def)
  qed
qed

section \<open>Witness\<close>

definition demo_ok_buf :: "ref_delta buffer" where
  "demo_ok_buf = from_data_and_path ref_xi [1, 2, 3] None"

theorem normal_mode_safe_witness:
  "\<exists>t b'. normal_transition ref_xi (Count False 2) (press (CHR ''d'')) 16 demo_ok_buf = Inr (t, b') \<and>
    buf_ok ref_xi (\<lambda>_. True) b' \<and> idle b'"
proof -
  have "buf_rel ref_xi (\<lambda>_. True) demo_ok_buf no_snapshots"
    by (simp add: demo_ok_buf_def buf_rel_def from_data_and_path_def ref_hist.history_new_rel no_snapshots_def)
  moreover have "snap_ok (now demo_ok_buf)"
    unfolding snap_ok_now by (simp add: demo_ok_buf_def from_data_and_path_def ref_tree.rope_from_vec_bytes sel_ok_def
        selection_new_ok fits_def isize_max_def)
  ultimately have "buf_ok ref_xi (\<lambda>_. True) demo_ok_buf"
    by (auto simp: buf_ok_def snaps_ok_def no_snapshots_def regs_ok_def demo_ok_buf_def from_data_and_path_def)
  moreover have "idle demo_ok_buf" by (simp add: idle_def demo_ok_buf_def from_data_and_path_def history_new_def)
  moreover have "event_to_action normal_maps (press (CHR ''d'')) = Some (Delete quote_reg)" by code_simp
  ultimately show ?thesis
    using normal_mode_safe [OF ref_xi_rope, of demo_ok_buf "Count False 2" "press (CHR ''d'')" 16]
    by (auto simp: to_count_def usize_max_def)
qed

end
