(* ===== verification/View_Props.thy ===== *)
theory View_Props
  imports Highlight Normal_Props
begin

text \<open>
  Drawing: on a view whose main caret is visible, in a terminal with room for the properties and the
  status line, the whole screen is drawn: no panic, no endless loop, every visible byte in its row on
  the background it should have. And what happens when one of these conditions fails.
\<close>

section \<open>One row\<close>

text \<open>The blanks behind a short row, in digits and in characters.\<close>

lemma missing_cells_Inr: "n \<le> bpl \<Longrightarrow> 0 < bpl \<Longrightarrow>
    missing_cells bpl n = Inr (if n = 0 then bpl else (bpl - n) mod bpl)"
  by (simp add: missing_cells_def)

lemma missing_cells_le: "n \<le> (bpl::nat) \<Longrightarrow> 0 < bpl \<Longrightarrow> (if n = 0 then bpl else (bpl - n) mod bpl) = bpl - n"
  by (cases "n = bpl") auto

definition row_head :: "bytes \<Rightarrow> styling_command list \<Rightarrow> nat \<Rightarrow> out list" where
  "row_head bs marks row = [MoveTo 0 row, Print (str '' '')] @ draw_hex_row (zip bs marks)"

text \<open>The text of a row: the digits, their characters, the properties, in fixed columns.\<close>

definition row_text :: "nat \<Rightarrow> bytes \<Rightarrow> rstring" where
  "row_text bpl bs =
     str '' '' @ concat (map (\<lambda>b. str (fmt_02x b) @ str '' '') bs) @ replicate (3 * (bpl - length bs)) 0x20 @
     VERTICAL @ str '' '' @ concat (map byte_ascii_repr bs) @ replicate (Suc (bpl - length bs)) 0x20 @
     VERTICAL @ str '' ''"

lemma printed_hex_row: "length ms = length bs \<Longrightarrow>
    printed (draw_hex_row (zip bs ms)) = concat (map (\<lambda>b. str (fmt_02x b) @ str '' '') bs)"
  by (induction bs ms rule: list_induct2') (auto simp: draw_hex_row_def str_def chr_def)

lemma printed_ascii_row: "length ms = length bs \<Longrightarrow>
    printed (draw_ascii_row (zip bs ms)) = concat (map byte_ascii_repr bs)"
  by (induction bs ms rule: list_induct2') (auto simp: draw_ascii_row_def)

lemma str_blank [simp]: "str '' '' = [0x20]"
  by (simp add: str_def chr_def)

text \<open>
  Commands that print where the cursor is, and commands that stay inside one row: the cursor is moved to no
  other row, nothing is cleared but the rest of the line, nothing is scrolled.
\<close>

fun inline :: "out \<Rightarrow> bool" where
  "inline (Print _) = True"
| "inline (PrintStyled _ _) = True"
| "inline (SetForegroundColor _) = True"
| "inline (SetBackgroundColor _) = True"
| "inline (SetAttributes _) = True"
| "inline _ = False"

definition within_row :: "nat \<Rightarrow> out list \<Rightarrow> bool" where
  "within_row k os \<longleftrightarrow> (\<forall>c \<in> set os. inline c \<or> (\<exists>x. c = MoveTo x k) \<or> c = Clear UntilNewLine)"

lemma within_row_simps [simp]:
  "within_row k []" "within_row k (c # os) \<longleftrightarrow> (inline c \<or> (\<exists>x. c = MoveTo x k) \<or> c = Clear UntilNewLine) \<and> within_row k os"
  "within_row k (xs @ ys) \<longleftrightarrow> within_row k xs \<and> within_row k ys"
  "within_row k (concat xss) \<longleftrightarrow> (\<forall>xs \<in> set xss. within_row k xs)"
  by (auto simp: within_row_def)

lemma within_row_queue [simp]: "within_row k (queue_opt st)"
  by (auto simp: queue_opt_def queue_style_def split: option.splits)

lemma within_row_bytes [simp]:
  "within_row k (draw_text t st)" "within_row k (draw_hex_byte b st)" "within_row k (draw_ascii_byte b st)"
  "within_row k draw_separator"
  by (simp_all add: draw_text_def draw_hex_byte_def draw_ascii_byte_def draw_separator_def Let_def)

lemma within_row_binary [simp]: "within_row k (format_binary_byte b)"
  by (auto simp: format_binary_byte_def)

lemma within_row_char [simp]: "within_row k (draw_char U r)"
  by (simp add: draw_char_def split: sum.split)

lemma within_row_rows [simp]: "within_row k (draw_hex_row sb)" "within_row k (draw_ascii_row sb)"
  by (auto simp: draw_hex_row_def draw_ascii_row_def)

lemma within_row_line: "line_out U dat n = Inr os \<Longrightarrow> within_row k os"
  by (auto simp: line_out_def draw_values_def res_simps Let_def split: if_splits)

lemma printed_separator: "printed draw_separator = VERTICAL @ [0x20]"
  by (simp add: draw_separator_def)

text \<open>The text of a line of properties.\<close>

definition property_text :: "unicode \<Rightarrow> bytes \<Rightarrow> nat \<Rightarrow> rstring" where
  "property_text U dat n = (case line_out U dat n of Inr os \<Rightarrow> printed os | Inl _ \<Rightarrow> [])"

lemma property_text_none: "5 \<le> n \<Longrightarrow> property_text U dat n = []"
  by (simp add: property_text_def line_out_def Let_def)

lemma draw_row_shows:
  assumes row: "start_offset v \<le> i" "(i - start_offset v) div bytes_per_line v < snd (term_size v)"
    and l: "0 < bytes_per_line v" "bytes_per_line v \<le> 20" "length bs \<le> bytes_per_line v" "length ms = length bs"
    and e: "e \<noteq> None \<Longrightarrow> length bs < bytes_per_line v" and p: "length (bp_data props) \<le> 4"
  shows "\<exists>os. draw_row U v bs i ms e props = Inr (row_head bs ms ((i - start_offset v) div bytes_per_line v) @ os,
      props\<lparr>bp_line := bp_line props + 1\<rparr>) \<and>
    printed (row_head bs ms ((i - start_offset v) div bytes_per_line v) @ os) =
      row_text (bytes_per_line v) bs @ property_text U (bp_data props) (bp_line props) \<and>
    within_row ((i - start_offset v) div bytes_per_line v) os"
proof -
  let ?n = "bytes_per_line v - length bs"
  have off: "offset_to_row v i = Inr (Inr ((i - start_offset v) div bytes_per_line v))"
    using row l by (simp add: offset_to_row_def ok_def)
  have ms: "missing_cells (bytes_per_line v) (length bs) = Inr ?n"
    using l missing_cells_Inr [OF l(3,1)] missing_cells_le [OF l(3,1)] by simp
  have u: "umul ?n 3 = Inr (?n * 3)" "uadd ?n (Suc 0) = Inr (Suc ?n)"
    using l by (simp_all add: umul_def uadd_def usize_max_def)
  obtain line where line: "line_out U (bp_data props) (bp_line props) = Inr line" using line_out_total [OF p] by blast
  have pt: "property_text U (bp_data props) (bp_line props) = printed line" by (simp add: property_text_def line)
  note w = within_row_line [OF line]
  show ?thesis
  proof (cases e)
    case None
    then show ?thesis
      using l(2,4) line
      by (simp add: draw_row_def off ms u draw_line_def row_head_def row_text_def printed_hex_row printed_ascii_row
          printed_separator mult.commute pt w)
  next
    case (Some s)
    with e l obtain k where k: "?n = Suc k" "k < 20" by (cases ?n) auto
    have "umul (Suc k) 3 = Inr (3 * Suc k)" "uadd (Suc k) (Suc 0) = Inr (Suc (Suc k))" "3 * Suc k = Suc (Suc (Suc (3 * k)))"
      using k(2) by (simp_all add: umul_def uadd_def usize_max_def)
    then show ?thesis
      using l(4) line Some k
      by (simp add: draw_row_def off ms draw_line_def row_head_def row_text_def printed_hex_row printed_ascii_row
          printed_separator pt w del: mult_Suc_right)
  qed
qed

lemma within_row_head [simp]: "within_row k (row_head bs ms k)"
  by (simp add: row_head_def)

section \<open>The screen\<close>

text \<open>
  A view that can be drawn: a good buffer, sixteen bytes to a line (the only width the program uses),
  scrolled to a line start inside the document, in a terminal with a row besides the status line.
\<close>

definition doc_len :: "'d buffer \<Rightarrow> nat" where
  "doc_len b = node_len (data b)"

definition view_ok :: "'d hex_view \<Rightarrow> 'd buffer \<Rightarrow> bool" where
  "view_ok v b \<longleftrightarrow> cur v = Inr b \<and> sel_ok (doc_len b) (selection b) \<and> flags_ok (selection b) \<and>
     bytes_per_line v = 16 \<and> 16 dvd start_offset v \<and> start_offset v \<le> doc_len b \<and>
     2 \<le> snd (term_size v) \<and> snd (term_size v) < 0x10000"

definition main_caret :: "'d buffer \<Rightarrow> nat" where
  "main_caret b = caret (regions (selection b) ! main_selection (selection b))"

definition screen_end :: "'d hex_view \<Rightarrow> nat" where
  "screen_end v = start_offset v + (snd (term_size v) - 1) * 16"

definition caret_visible :: "'d hex_view \<Rightarrow> 'd buffer \<Rightarrow> bool" where
  "caret_visible v b \<longleftrightarrow> start_offset v \<le> main_caret b \<and> main_caret b < screen_end v"

definition view_end :: "'d hex_view \<Rightarrow> 'd buffer \<Rightarrow> nat" where
  "view_end v b = min (Suc (doc_len b)) (screen_end v)"

text \<open>The number of rows with visible bytes (or the caret behind the last byte), and their bytes.\<close>

definition row_count :: "'d hex_view \<Rightarrow> 'd buffer \<Rightarrow> nat" where
  "row_count v b = (view_end v b - start_offset v + 15) div 16"

definition row_bytes :: "'d hex_view \<Rightarrow> 'd buffer \<Rightarrow> nat \<Rightarrow> bytes" where
  "row_bytes v b k = take 16 (drop (start_offset v + k * 16) (node_bytes (data b)))"

definition shows_row :: "'d hex_view \<Rightarrow> 'd buffer \<Rightarrow> nat \<Rightarrow> out list \<Rightarrow> bool" where
  "shows_row v b k os \<longleftrightarrow>
     (\<exists>digits rest line. os = [MoveTo 0 k, Print [0x20]] @ digits @ rest \<and>
       (\<forall>bg. painted digits bg = row_cells (has_half_cursor (view_mode v)) 16 (regions (selection b))
          (start_offset v + k * 16) (row_bytes v b k)) \<and>
       printed os = row_text 16 (row_bytes v b k) @ line)"

text \<open>
  What is drawn for row \<open>k\<close> and nothing else: the bytes of the row, none below the last byte, on their
  backgrounds, and behind them line \<open>j\<close> of the properties of \<open>cb\<close>.
\<close>

definition row_out :: "unicode \<Rightarrow> bytes \<Rightarrow> 'd hex_view \<Rightarrow> 'd buffer \<Rightarrow> nat \<Rightarrow> nat \<Rightarrow> out list \<Rightarrow> bool" where
  "row_out U cb v b j k os \<longleftrightarrow> within_row k os \<and>
     printed os = row_text 16 (if k < row_count v b then row_bytes v b k else []) @ property_text U cb j \<and>
     (if k < row_count v b then shows_row v b k os else \<exists>rest. os = MoveTo 0 k # rest)"

lemma view_arith:
  assumes "view_ok v b"
  shows "start_offset v \<le> doc_len b" "doc_len b + 0x200000 \<le> usize_max" "screen_end v + 0x1000 \<le> usize_max"
    "start_offset v < view_end v b" "view_end v b \<le> Suc (doc_len b)"
  using assms by (auto simp: view_ok_def sel_ok_def fits_def isize_max_def usize_max_def screen_end_def view_end_def)

lemma visible_bytes_ok:
  assumes "view_ok v b"
  shows "visible_bytes v = Inr (start_offset v, view_end v b)"
  using assms view_arith [OF assms]
  by (simp add: visible_bytes_def view_ok_def view_end_def screen_end_def rope_len_def doc_len_def umul_def uadd_def
      usize_max_def)

lemma ceil16: "k < (d + 15) div 16 \<longleftrightarrow> k * 16 < (d::nat)" "d \<le> (d + 15) div 16 * 16"
proof -
  obtain q r where q: "(d + 15) div 16 = q" and r: "d + 15 = q * 16 + r" "r < 16"
    by (metis div_mult_mod_eq mod_less_divisor zero_less_numeral)
  show "k < (d + 15) div 16 \<longleftrightarrow> k * 16 < d" "d \<le> (d + 15) div 16 * 16"
    unfolding q using r by linarith+
qed

lemma row_count_bound:
  assumes "view_ok v b" "k < row_count v b"
  shows "start_offset v + k * 16 < view_end v b" "Suc k < snd (term_size v)"
proof -
  have e: "view_end v b \<le> screen_end v" by (simp add: view_end_def)
  show k: "start_offset v + k * 16 < view_end v b"
    using assms(2) by (simp add: row_count_def ceil16(1))
  with e show "Suc k < snd (term_size v)" by (simp add: screen_end_def)
qed

lemma row_count_cover:
  assumes "view_ok v b"
  shows "view_end v b \<le> start_offset v + row_count v b * 16" "0 < row_count v b" "row_count v b < snd (term_size v)"
proof -
  show 1: "view_end v b \<le> start_offset v + row_count v b * 16"
    using ceil16(2) [of "view_end v b - start_offset v"] unfolding row_count_def by linarith
  with view_arith(4) [OF assms] show p: "0 < row_count v b" by (cases "row_count v b") auto
  with row_count_bound(2) [OF assms, of "row_count v b - 1"] show "row_count v b < snd (term_size v)" by simp
qed

text \<open>The bytes between the visible offsets.\<close>

definition shown_bytes :: "'d hex_view \<Rightarrow> 'd buffer \<Rightarrow> bytes" where
  "shown_bytes v b = take (view_end v b - start_offset v) (drop (start_offset v) (node_bytes (data b)))"

lemma length_shown_bytes: "length (shown_bytes v b) = min (view_end v b) (doc_len b) - start_offset v"
  by (auto simp: shown_bytes_def doc_len_def)

lemma row_of_shown:
  assumes "view_ok v b" "k < row_count v b"
  shows "take (min (length (shown_bytes v b)) (k * 16 + 16) - k * 16) (drop (k * 16) (shown_bytes v b)) = row_bytes v b k"
    and "k * 16 \<le> length (shown_bytes v b)"
proof -
  note k = row_count_bound [OF assms]
  show le: "k * 16 \<le> length (shown_bytes v b)"
    using k view_arith(5) [OF assms(1)] by (auto simp: length_shown_bytes view_end_def)
  have "take (min (length (shown_bytes v b)) (k * 16 + 16) - k * 16) (drop (k * 16) (shown_bytes v b)) =
      take 16 (drop (k * 16) (shown_bytes v b))"
    by (auto simp: min_def)
  also have "\<dots> = take (min 16 (view_end v b - start_offset v - k * 16)) (drop (start_offset v + k * 16) (node_bytes (data b)))"
    by (simp add: shown_bytes_def drop_take add.commute min.commute)
  also have "\<dots> = row_bytes v b k"
  proof (cases "view_end v b = Suc (doc_len b)")
    case True
    then show ?thesis by (auto simp: row_bytes_def doc_len_def min_def)
  next
    case False
    then have "view_end v b = screen_end v" by (auto simp: view_end_def min_def)
    then have "16 \<le> view_end v b - start_offset v - k * 16"
      using k(2) by (simp add: screen_end_def)
    then show ?thesis by (simp add: row_bytes_def)
  qed
  finally show "take (min (length (shown_bytes v b)) (k * 16 + 16) - k * 16) (drop (k * 16) (shown_bytes v b)) = row_bytes v b k" .
qed

lemma overflow_cursor_style_total:
  assumes "view_ok v b"
  shows "\<exists>e. overflow_cursor_style v = Inr e"
  using assms by (auto simp: overflow_cursor_style_def overflow_sel_style_def view_ok_def sel_ok_def sel_wf_def Let_def)

lemma row_at_shows:
  assumes ok: "view_ok v b" and k: "k < row_count v b"
    and ms: "length ms = view_end v b - start_offset v"
      "painting (has_half_cursor (view_mode v)) 16 (regions (selection b)) prev (start_offset v) ms"
    and p: "length (bp_data props) \<le> 4"
  shows "\<exists>os. row_at U v (start_offset v) (shown_bytes v b) ms (start_offset v + k * 16) props =
      Inr (os, props\<lparr>bp_line := bp_line props + 1\<rparr>) \<and> row_out U (bp_data props) v b (bp_line props) k os"
proof -
  let ?i = "start_offset v + k * 16" and ?cow = "shown_bytes v b"
  let ?ne = "min (length ?cow) (k * 16 + 16)"
  let ?ms = "take (?ne - k * 16) (drop (k * 16) ms)"
  note kb = row_count_bound [OF ok k] and rs = row_of_shown [OF ok k]
  have v: "cur v = Inr b" "bytes_per_line v = 16" "16 dvd start_offset v" using ok by (auto simp: view_ok_def)
  have ne: "k * 16 \<le> ?ne" "?ne \<le> length ms" "?ne \<le> length ?cow" using rs(2) ms(1) by (auto simp: length_shown_bytes)
  have lb: "length (row_bytes v b k) \<le> 16" "length ?ms = length (row_bytes v b k)"
    using ne arg_cong [OF rs(1), of length] by (simp_all add: row_bytes_def)
  have u: "uadd (k * 16) 16 = Inr (k * 16 + 16)" "uadd ?i 16 = Inr (?i + 16)"
    using view_arith [OF ok] kb(1) by (auto simp: uadd_def)
  obtain e where e: "(if ?i + 16 > rope_len (data b) then overflow_cursor_style v else Inr None) = Inr e"
      "e \<noteq> None \<Longrightarrow> doc_len b < ?i + 16"
    using overflow_cursor_style_total [OF ok] by (cases "?i + 16 > doc_len b") (auto simp: doc_len_def rope_len_def)
  have short: "e \<noteq> None \<Longrightarrow> length (row_bytes v b k) < bytes_per_line v"
    using e(2) v(2) by (auto simp: row_bytes_def doc_len_def)
  have row: "row_at U v (start_offset v) ?cow ms ?i props = draw_row U v (row_bytes v b k) ?i ?ms e props"
    using ne u e(1) v rs(1) by (simp add: row_at_def Let_def slice_def del: uadd_Inr)
  obtain os where d: "draw_row U v (row_bytes v b k) ?i ?ms e props =
      Inr (row_head (row_bytes v b k) ?ms k @ os, props\<lparr>bp_line := bp_line props + 1\<rparr>)"
      "printed (row_head (row_bytes v b k) ?ms k @ os) =
        row_text 16 (row_bytes v b k) @ property_text U (bp_data props) (bp_line props)" "within_row k os"
    using draw_row_shows [where v = v and i = ?i and U = U and e = e, OF _ _ _ _ _ lb(2) short p] v kb lb by auto
  have "painting (has_half_cursor (view_mode v)) 16 (regions (selection b)) prev ?i ?ms"
    using v(3) by (intro painting_take painting_drop [OF ms(2)]) (simp add: dvd_eq_mod_eq_0)
  then have "painted (draw_hex_row (zip (row_bytes v b k) ?ms)) bg =
      row_cells (has_half_cursor (view_mode v)) 16 (regions (selection b)) ?i (row_bytes v b k)" for bg
    using v(3) lb(2) by (intro painted_row) (auto simp: dvd_eq_mod_eq_0)
  then have "shows_row v b k (row_head (row_bytes v b k) ?ms k @ os)"
    using d(2) unfolding shows_row_def row_head_def
    by (intro exI [of _ "draw_hex_row (zip (row_bytes v b k) ?ms)"] exI [of _ os]
        exI [of _ "property_text U (bp_data props) (bp_line props)"]) auto
  with row d k show ?thesis
    by (intro exI [of _ "row_head (row_bytes v b k) ?ms k @ os"]) (simp add: row_out_def)
qed

text \<open>Of the rows \<open>ks\<close>, those that are wanted.\<close>

lemma rows_fold:
  assumes ok: "view_ok v b" and ks: "set ks \<subseteq> {..< row_count v b}"
    and ms: "length ms = view_end v b - start_offset v"
      "painting (has_half_cursor (view_mode v)) 16 (regions (selection b)) prev (start_offset v) ms"
    and w: "\<And>k. k \<in> set ks \<Longrightarrow> wanted (start_offset v + k * 16) = Inr (W k)"
    and p: "length (bp_data props) \<le> 4"
  shows "\<exists>rows. rfold (\<lambda>(os, props) i.
        rbind (wanted i) (\<lambda>w.
        if w then rbind (row_at U v (start_offset v) (shown_bytes v b) ms i props) (\<lambda>(os', props'). Inr (os @ os', props'))
        else Inr (os, props))) (os, props) (map (\<lambda>k. start_offset v + k * 16) ks) =
      Inr (os @ concat rows, props\<lparr>bp_line := bp_line props + length rows\<rparr>) \<and>
    list_all2 (\<lambda>(j, k). row_out U (bp_data props) v b j k) (enumerate (bp_line props) (filter W ks)) rows"
  using ks w p
proof (induction ks arbitrary: os props)
  case Nil
  then show ?case by (auto intro!: exI [of _ "[]"])
next
  case (Cons k ks)
  have k: "k < row_count v b" "wanted (start_offset v + k * 16) = Inr (W k)" using Cons.prems by auto
  show ?case
  proof (cases "W k")
    case False
    with k Cons.IH [of props os] Cons.prems show ?thesis by auto
  next
    case True
    obtain o1 where o1: "row_at U v (start_offset v) (shown_bytes v b) ms (start_offset v + k * 16) props =
        Inr (o1, props\<lparr>bp_line := bp_line props + 1\<rparr>)" "row_out U (bp_data props) v b (bp_line props) k o1"
      using row_at_shows [OF ok k(1) ms Cons.prems(3)] by blast
    obtain rows where rows: "rfold (\<lambda>(os, props) i.
        rbind (wanted i) (\<lambda>w.
        if w then rbind (row_at U v (start_offset v) (shown_bytes v b) ms i props) (\<lambda>(os', props'). Inr (os @ os', props'))
        else Inr (os, props))) (os @ o1, props\<lparr>bp_line := bp_line props + 1\<rparr>) (map (\<lambda>k. start_offset v + k * 16) ks) =
      Inr ((os @ o1) @ concat rows, props\<lparr>bp_line := bp_line props + 1 + length rows\<rparr>)"
      "list_all2 (\<lambda>(j, k). row_out U (bp_data props) v b j k) (enumerate (Suc (bp_line props)) (filter W ks)) rows"
      using Cons.IH [of "props\<lparr>bp_line := bp_line props + 1\<rparr>" "os @ o1"] Cons.prems by auto
    with True k o1 show ?thesis by (intro exI [of _ "o1 # rows"]) simp
  qed
qed

text \<open>The loop that finishes the properties ends when the five rows fit on the screen.\<close>

lemma rest_rows_done: "5 \<le> bp_line props \<Longrightarrow> rest_rows U v fuel i props = Inr []"
  by (subst rest_rows.simps) (simp add: are_all_printed_def bp_height_def)

lemma rest_rows_end:
  assumes v: "bytes_per_line v = 16" "start_offset v + 80 \<le> usize_max" "5 \<le> snd (term_size v)" and K: "row_count v b \<le> k"
    and p: "length cb \<le> 4" and fuel: "5 \<le> k + fuel"
  shows "\<exists>rows. rest_rows U v fuel (start_offset v + k * 16) \<lparr>bp_data = cb, bp_line = k\<rparr> = Inr (concat rows) \<and>
    list_all2 (\<lambda>k. row_out U cb v b k k) [k ..< 5] rows"
  using K fuel
proof (induction fuel arbitrary: k)
  case 0
  then show ?case by (intro exI [of _ "[]"]) (simp add: rest_rows_done)
next
  case (Suc fuel)
  show ?case
  proof (cases "5 \<le> k")
    case True
    then show ?thesis by (intro exI [of _ "[]"]) (simp add: rest_rows_done)
  next
    case False
    let ?o = "start_offset v + k * 16" and ?p = "\<lparr>bp_data = cb, bp_line = k\<rparr>"
    obtain os where os: "draw_row U v [] ?o [] None ?p = Inr (row_head [] [] k @ os, ?p\<lparr>bp_line := Suc k\<rparr>)"
      "printed (row_head [] [] k @ os) = row_text 16 [] @ property_text U cb k" "within_row k os"
      using draw_row_shows [of v ?o "[]" "[]" None ?p U] v p False by auto
    have row: "row_out U cb v b k k (row_head [] [] k @ os)"
      using os(2,3) Suc.prems(1) by (simp add: row_out_def) (simp add: row_head_def)
    have o': "uadd ?o 16 = Inr (start_offset v + Suc k * 16)" using v(2) False by (simp add: uadd_def)
    obtain rows where rows: "rest_rows U v fuel (start_offset v + Suc k * 16) \<lparr>bp_data = cb, bp_line = Suc k\<rparr> = Inr (concat rows)"
      "list_all2 (\<lambda>k. row_out U cb v b k k) [Suc k ..< 5] rows"
      using Suc.IH [of "Suc k"] Suc.prems by auto
    have "rest_rows U v (Suc fuel) ?o ?p = Inr (concat ((row_head [] [] k @ os) # rows))"
      by (subst rest_rows.simps) (use False os o' rows(1) v in \<open>simp add: are_all_printed_def bp_height_def del: uadd_Inr\<close>)
    then show ?thesis
      using row rows(2) False by (intro exI [of _ "(row_head [] [] k @ os) # rows"]) (simp add: upt_conv_Cons)
  qed
qed

text \<open>The bytes at the caret.\<close>

lemma main_find:
  assumes "sel_wf sel" "flags_ok sel" and r: "r = regions sel ! main_selection sel" and p: "P r"
  shows "List.find is_main (filter P (regions sel)) = Some r"
proof -
  have m: "main_selection sel < length (regions sel)" using assms(1) by (simp add: sel_wf_def)
  have in_r: "r \<in> set (filter P (regions sel))" "is_main r"
    using m assms(2) p by (auto simp: r flags_ok_def is_main_def)
  have "q = r" if "q \<in> set (regions sel)" "is_main q" for q
    using that assms(2) by (auto simp: in_set_conv_nth flags_ok_def is_main_def r)
  moreover obtain q where q: "List.find is_main (filter P (regions sel)) = Some q"
    using in_r by (cases "List.find is_main (filter P (regions sel))") (auto simp: find_None_iff)
  moreover have "q \<in> set (filter P (regions sel))" "is_main q"
    using q nth_mem [of _ "filter P (regions sel)"] unfolding find_Some_iff by blast+
  ultimately show ?thesis by simp
qed

lemma main_in_range:
  assumes "sel_wf sel" "flags_ok sel" and r: "r = regions sel ! main_selection sel" and "s \<le> caret r" "caret r \<le> e"
  shows "\<exists>rs. regions_in_range sel s e = Inr rs \<and> List.find is_main rs = Some r"
proof -
  have "s \<le> max_r r \<and> min_r r \<le> e" using assms(4,5) by (auto simp: max_r_def min_r_def)
  from main_find [OF assms(1-3), of "\<lambda>r. s \<le> max_r r \<and> min_r r \<le> e", OF this] show ?thesis
    using regions_in_range_filter [OF assms(1), of s e] assms(4,5) by simp
qed

definition caret_bytes :: "'d hex_view \<Rightarrow> 'd buffer \<Rightarrow> bytes" where
  "caret_bytes v b = take 4 (drop (main_caret b - start_offset v) (shown_bytes v b))"

lemma length_caret_bytes: "length (caret_bytes v b) \<le> 4"
  by (simp add: caret_bytes_def)

lemma current_bytes_ok:
  assumes ok: "view_ok v b" and vis: "caret_visible v b"
  shows "current_bytes (selection b) (start_offset v, view_end v b) (shown_bytes v b) = Inr (caret_bytes v b)"
proof -
  define r where "r = regions (selection b) ! main_selection (selection b)"
  have sel: "sel_wf (selection b)" "flags_ok (selection b)" using ok by (auto simp: view_ok_def sel_ok_def)
  have "r \<in> set (regions (selection b))" using sel(1) by (auto simp: r_def sel_wf_def)
  then have c: "caret r \<le> doc_len b" using ok sel_ok_bounds by (auto simp: view_ok_def)
  have s: "start_offset v \<le> caret r" "caret r < screen_end v"
    using vis by (auto simp: caret_visible_def main_caret_def r_def)
  then have e: "caret r < view_end v b" using c by (simp add: view_end_def)
  obtain rs where rs: "regions_in_range (selection b) (start_offset v) (view_end v b) = Inr rs" "List.find is_main rs = Some r"
    using main_in_range [OF sel r_def s(1) less_imp_le [OF e]] by blast
  have "caret r - start_offset v \<le> length (shown_bytes v b)" using s c e by (auto simp: length_shown_bytes)
  moreover have "uadd (caret r - start_offset v) 4 = Inr (caret r - start_offset v + 4)"
    using c view_arith [OF ok] by (simp add: uadd_def)
  ultimately show ?thesis
    using rs s(1) by (auto simp: current_bytes_def slice_def caret_bytes_def main_caret_def r_def)
qed

text \<open>The rows that are wanted must contain the first five, where the properties are.\<close>

lemma ceil16_cases: "(d + 15) div 16 = (if d mod 16 = 0 then d div 16 else d div 16 + (1::nat))"
proof -
  obtain a c where d: "d = 16 * a + c" "c < 16" by (metis mod_less_divisor mult_div_mod_eq zero_less_numeral)
  show ?thesis
  proof (cases c)
    case (Suc c')
    then have "d + 15 = c' + 16 * (a + 1)" using d by simp
    then have "(d + 15) div 16 = c' div 16 + (a + 1)" by (simp only: div_mult_self2)
    with d Suc show ?thesis by simp
  qed (use d in simp)
qed

lemma rest_offset_ok:
  assumes "view_ok v b"
  shows "rest_offset (view_end v b) 16 = Inr (start_offset v + row_count v b * 16)"
proof -
  obtain q where q: "start_offset v = 16 * q" using assms by (auto simp: view_ok_def)
  define d where "d = view_end v b - start_offset v"
  have e: "view_end v b = 16 * q + d" using view_arith(4) [OF assms] q by (simp add: d_def)
  have r: "row_count v b = (if d mod 16 = 0 then d div 16 else d div 16 + 1)"
    unfolding row_count_def d_def [symmetric] by (rule ceil16_cases)
  have "view_end v b + 32 \<le> usize_max" using view_arith [OF assms] by simp
  then show ?thesis
    unfolding rest_offset_def by (auto simp: e r q uadd_def umul_def div_add1_eq)
qed

lemma length_filter_first:
  assumes "\<And>k. k < 5 \<Longrightarrow> W k"
  shows "min n 5 \<le> length (filter W [0 ..< n])"
proof -
  have "[0 ..< n] = [0 ..< min n 5] @ [min n 5 ..< n]"
    using upt_add_eq_append [of 0 "min n 5" "n - min n 5"] by simp
  moreover have "filter W [0 ..< min n 5] = [0 ..< min n 5]" using assms by (auto simp: filter_id_conv)
  ultimately show ?thesis by (metis diff_zero filter_append length_append length_upt le_add1)
qed

text \<open>
  Of the rows that are drawn the first five carry the five lines of properties, each its own; the lines behind
  them are empty, so it does not matter which one a later row carries.
\<close>

lemma enumerated_rows:
  assumes five: "\<And>k. k < 5 \<Longrightarrow> W k"
    and rows: "list_all2 (\<lambda>(j, k). row_out U cb v b j k) (enumerate 0 (filter W [0 ..< n])) rows"
  shows "list_all2 (\<lambda>k. row_out U cb v b k k) (filter W [0 ..< n]) rows"
proof -
  let ?ks = "filter W [0 ..< n]" and ?m = "min n 5"
  have "[0 ..< n] = [0 ..< ?m] @ [?m ..< n]" using upt_add_eq_append [of 0 ?m "n - ?m"] by simp
  moreover have "filter W [0 ..< ?m] = [0 ..< ?m]" using five by (auto simp: filter_id_conv)
  ultimately have ks: "?ks = [0 ..< ?m] @ filter W [?m ..< n]" by (metis filter_append)
  have "property_text U cb i = property_text U cb (?ks ! i)" if i: "i < length ?ks" for i
  proof (cases "i < ?m")
    case True
    then show ?thesis unfolding ks by (simp add: nth_append)
  next
    case False
    with i have n: "?m = 5" "5 \<le> i" unfolding ks by (auto simp: min_def split: if_splits)
    have "?ks ! i = filter W [?m ..< n] ! (i - ?m)" "i - ?m < length (filter W [?m ..< n])"
      using i False unfolding ks by (auto simp: nth_append)
    then have "?ks ! i \<in> set (filter W [?m ..< n])" by (metis nth_mem)
    with n have "5 \<le> ?ks ! i" by simp
    with n(2) show ?thesis by (simp add: property_text_none)
  qed
  with rows show ?thesis by (auto simp: list_all2_conv_all_nth nth_enumerate_eq row_out_def)
qed

context xi_rope
begin

lemma shown_bytes_slice:
  "view_ok v b \<Longrightarrow> slice_to_cow X (data b) (Interval (start_offset v) (view_end v b)) = Inr (shown_bytes v b)"
  using slice_to_cow_bytes [of "start_offset v" "data b"] by (simp add: view_ok_def shown_bytes_def doc_len_def)

lemma draw_body_rows:
  assumes ok: "view_ok v b" and vis: "caret_visible v b"
    and w: "\<And>k. k < row_count v b \<Longrightarrow> wanted (start_offset v + k * 16) = Inr (W k)"
  shows "\<exists>rows. list_all2 (\<lambda>(j, k). row_out U (caret_bytes v b) v b j k) (enumerate 0 (filter W [0 ..< row_count v b])) rows \<and>
    draw_body X U wanted v =
      rbind (rest_rows U v (start_offset v + 6) (start_offset v + row_count v b * 16) \<lparr>bp_data = caret_bytes v b, bp_line = length rows\<rparr>)
        (\<lambda>rest. Inr (concat rows @ rest, (start_offset v, view_end v b)))"
proof -
  let ?s = "start_offset v" and ?e = "view_end v b" and ?K = "row_count v b" and ?cb = "caret_bytes v b"
  have v: "cur v = Inr b" "bytes_per_line v = 16" "sel_wf (selection b)" using ok by (auto simp: view_ok_def sel_ok_def)
  note ar = view_arith [OF ok]
  have "?e \<le> usize_max" using ar(2,5) by simp
  then obtain ms prev where ms: "mark_commands v (?s, ?e) = Inr ms" "length ms = ?e - ?s"
      "painting (has_half_cursor (view_mode v)) 16 (regions (selection b)) prev ?s ms"
    using mark_commands_painting [OF v(1,3), of ?s ?e] ar(4) v(2) by auto
  let ?p = "\<lparr>bp_data = ?cb, bp_line = 0\<rparr>"
  obtain rows where rows: "rfold (\<lambda>(os, props) i.
        rbind (wanted i) (\<lambda>w.
        if w then rbind (row_at U v ?s (shown_bytes v b) ms i props) (\<lambda>(os', props'). Inr (os @ os', props'))
        else Inr (os, props))) ([], ?p) (map (\<lambda>k. ?s + k * 16) [0 ..< ?K]) =
      Inr (concat rows, ?p\<lparr>bp_line := length rows\<rparr>)"
      "list_all2 (\<lambda>(j, k). row_out U ?cb v b j k) (enumerate 0 (filter W [0 ..< ?K])) rows"
    using rows_fold [OF ok _ ms(2,3), of "[0 ..< ?K]" wanted W ?p U "[]"] w length_caret_bytes [of v b]
    by (auto simp: lessThan_atLeast0)
  have "step_range (?s, ?e) 16 = Inr (map (\<lambda>k. ?s + k * 16) [0 ..< ?K])"
    by (simp add: step_range_def row_count_def add.commute)
  then have "draw_body X U wanted v =
      rbind (rest_rows U v (?s + 6) (?s + ?K * 16) \<lparr>bp_data = ?cb, bp_line = length rows\<rparr>)
        (\<lambda>rest. Inr (concat rows @ rest, (?s, ?e)))"
    using visible_bytes_ok [OF ok] v shown_bytes_slice [OF ok] ms(1) current_bytes_ok [OF ok vis] length_caret_bytes [of v b]
      rows(1) rest_offset_ok [OF ok]
    by (simp add: draw_body_def bp_new_def cong: if_cong)
  with rows(2) show ?thesis by blast
qed

lemma draw_body_exact:
  assumes ok: "view_ok v b" and vis: "caret_visible v b" and h: "5 \<le> snd (term_size v)"
    and w: "\<And>k. k < row_count v b \<Longrightarrow> wanted (start_offset v + k * 16) = Inr (W k)" and five: "\<And>k. k < 5 \<Longrightarrow> W k"
  shows "\<exists>rows. draw_body X U wanted v = Inr (concat rows, (start_offset v, view_end v b)) \<and>
    list_all2 (\<lambda>k. row_out U (caret_bytes v b) v b k k) (filter W [0 ..< max (row_count v b) 5]) rows"
proof -
  let ?s = "start_offset v" and ?K = "row_count v b" and ?cb = "caret_bytes v b"
  obtain rows where body: "list_all2 (\<lambda>(j, k). row_out U ?cb v b j k) (enumerate 0 (filter W [0 ..< ?K])) rows"
    "draw_body X U wanted v = rbind (rest_rows U v (?s + 6) (?s + ?K * 16) \<lparr>bp_data = ?cb, bp_line = length rows\<rparr>)
        (\<lambda>rest. Inr (concat rows @ rest, (?s, view_end v b)))"
    using draw_body_rows [where wanted = wanted and W = W, OF ok vis w] by blast
  have len: "length rows = length (filter W [0 ..< ?K])" using list_all2_lengthD [OF body(1)] by simp
  have rows: "list_all2 (\<lambda>k. row_out U ?cb v b k k) (filter W [0 ..< ?K]) rows"
    using enumerated_rows [where W = W, OF five body(1)] .
  show ?thesis
  proof (cases "5 \<le> ?K")
    case True
    then have "5 \<le> length rows" using length_filter_first [of W ?K, OF five] len by simp
    with body(2) rows True show ?thesis by (auto simp: rest_rows_done max_def)
  next
    case False
    have all: "filter W [i ..< j] = [i ..< j]" if "j \<le> 5" for i j using five that by (auto simp: filter_id_conv)
    have "length rows = ?K" using len all [of ?K 0] False by simp
    moreover obtain more where more: "rest_rows U v (?s + 6) (?s + ?K * 16) \<lparr>bp_data = ?cb, bp_line = ?K\<rparr> = Inr (concat more)"
        "list_all2 (\<lambda>k. row_out U ?cb v b k k) [?K ..< 5] more"
      using rest_rows_end [of v b ?K ?cb "?s + 6" U] ok h view_arith(1,2) [OF ok] length_caret_bytes [of v b]
      by (auto simp: view_ok_def)
    moreover have "filter W [0 ..< max ?K 5] = filter W [0 ..< ?K] @ [?K ..< 5]"
      using False all [of 5 0] all [of ?K 0] upt_add_eq_append [of 0 ?K "5 - ?K"] by (simp add: max_def)
    ultimately show ?thesis
      using body(2) rows by (intro exI [of _ "rows @ more"]) (simp add: list_all2_appendI)
  qed
qed

text \<open>The rows with bytes, in front of the rest.\<close>

lemma draw_body_shows:
  assumes "view_ok v b" "caret_visible v b" "5 \<le> snd (term_size v)"
    and "\<And>k. k < row_count v b \<Longrightarrow> wanted (start_offset v + k * 16) = Inr (W k)" "\<And>k. k < 5 \<Longrightarrow> W k"
  shows "\<exists>rows rest. draw_body X U wanted v = Inr (concat rows @ rest, (start_offset v, view_end v b)) \<and>
    list_all2 (shows_row v b) (filter W [0 ..< row_count v b]) rows"
proof -
  let ?K = "row_count v b"
  obtain rows where rows: "draw_body X U wanted v = Inr (concat rows, (start_offset v, view_end v b))"
    "list_all2 (\<lambda>k. row_out U (caret_bytes v b) v b k k) (filter W [0 ..< max ?K 5]) rows"
    using draw_body_exact [where wanted = wanted and W = W, OF assms] by blast
  have "filter W [0 ..< max ?K 5] = filter W [0 ..< ?K] @ filter W [?K ..< max ?K 5]"
    using upt_add_eq_append [of 0 ?K "max ?K 5 - ?K"] by simp
  with rows(2) obtain r1 r2 where r: "rows = r1 @ r2" "list_all2 (\<lambda>k. row_out U (caret_bytes v b) v b k k) (filter W [0 ..< ?K]) r1"
    by (auto simp: list_all2_append1)
  have "list_all2 (shows_row v b) (filter W [0 ..< ?K]) r1"
    using r(2) nth_mem [of _ "filter W [0 ..< ?K]"] by (auto simp: list_all2_conv_all_nth row_out_def)
  with rows(1) r(1) show ?thesis by auto
qed

text \<open>The whole screen.\<close>

lemma draw_shows:
  assumes en: "ensure_visible_data X F v = ok v1" and ok: "view_ok v1 b" and vis: "caret_visible v1 b"
    and h: "5 \<le> snd (term_size v1)"
    and st: "draw_statusline (v1\<lparr>last_visible_rows := row_count v1 b\<rparr>) = Inr (status, v2)"
  shows "\<exists>rows rest. draw X U F v = ok ([MoveTo 0 0, Clear ClearAll] @ concat rows @ rest @ status, v2) \<and>
    list_all2 (shows_row v1 b) [0 ..< row_count v1 b] rows"
proof -
  obtain rows rest where body: "draw_body X U (\<lambda>_. Inr True) v1 =
      Inr (concat rows @ rest, (start_offset v1, view_end v1 b))"
    "list_all2 (shows_row v1 b) (filter (\<lambda>_. True) [0 ..< row_count v1 b]) rows"
    using draw_body_shows [OF ok vis h, of "\<lambda>_. Inr True" "\<lambda>_. True" U] by blast
  have full: "rbind (usub (view_end v1 b) (start_offset v1)) (\<lambda>n. rbind (uadd n (bytes_per_line v1)) (\<lambda>m.
      rbind (usub m 1) (\<lambda>m. udiv m (bytes_per_line v1)))) = Inr (row_count v1 b)"
    using view_arith [OF ok] ok by (simp add: view_ok_def row_count_def add.commute)
  show ?thesis
    using en body full st by (auto simp: draw_def)
qed

end

end
