(* ===== verification/View_Theorems.thy ===== *)
theory View_Theorems
  imports View_Props
begin

text \<open>
  The properties of the view: the screen that is drawn, the caret that is kept on it, and the
  conditions under which drawing panics or never ends.
\<close>

section \<open>The status line\<close>

definition has_prompt :: "mode \<Rightarrow> bool" where
  "has_prompt m \<longleftrightarrow> (case m of SearchMode _ \<Rightarrow> True | Command _ _ \<Rightarrow> True | _ \<Rightarrow> False)"

lemma draw_prompt_none: "\<not> has_prompt (view_mode v) \<Longrightarrow> draw_prompt v = Inr ([], v)"
  by (auto simp: draw_prompt_def has_prompt_def Let_def split: mode.splits)

lemma position_text_total: "sel_wf (selection b) \<Longrightarrow> \<exists>pt. position_text b = Inr pt"
  by (simp add: position_text_def main_cursor_offset_def sel_wf_def)

text \<open>The room the status line needs is there.\<close>

definition status_fits :: "'d hex_view \<Rightarrow> bool" where
  "status_fits v \<longleftrightarrow> (\<exists>n. calculate_powerline_length v = Inr n \<and> n mod 0x10000 \<le> fst (term_size v))"

lemma draw_statusline_total:
  assumes "cur v = Inr b" "sel_wf (selection b)" "status_fits v" "0 < snd (term_size v)" "draw_prompt v = Inr (os3, v')"
  shows "\<exists>os. draw_statusline v = Inr (os, v')"
  using assms position_text_total [OF assms(2)]
  by (auto simp: draw_statusline_def draw_statusline_here_def status_fits_def split: option.splits)

lemma status_rows [simp]:
  "cur (v\<lparr>last_visible_rows := k\<rparr>) = cur v"
  "calculate_powerline_length (v\<lparr>last_visible_rows := k\<rparr>) = calculate_powerline_length v"
  "status_fits (v\<lparr>last_visible_rows := k\<rparr>) = status_fits v"
  by (simp_all add: cur_def calculate_powerline_length_def status_fits_def)

text \<open>
  The length that is calculated for the status line is that of the text which is printed, but counts the name of
  the file in bytes: it is larger by the bytes of the name beyond its characters.
\<close>

lemma string_len_ge: "length s \<le> string_len s"
  by (induction s) (auto simp: len_utf8_def)

lemma fmt_ascii: "c \<in> set (fmt_dec n) \<Longrightarrow> chr c < 0x80" "c \<in> set (fmt_hex n) \<Longrightarrow> chr c < 0x80"
  using fmt_radix_ascii [of 10 c n] fmt_radix_ascii [of 16 c n] by (simp_all add: fmt_dec_def fmt_hex_def)

lemma mode_name_ascii: "c \<in> set (mode_name m) \<Longrightarrow> chr c < 0x80"
proof -
  have n: "c \<in> set (count_display cs) \<Longrightarrow> chr c < 0x80" for c cs
    by (auto simp: count_display_def chr_def dest: fmt_ascii [unfolded chr_def] split: count_state.splits if_splits bool.splits)
  show "c \<in> set (mode_name m) \<Longrightarrow> ?thesis"
    by (auto simp: mode_name_def normal_name_def split_name_def acceptor_name_def insert_name_def replace_name_def chr_def
        dest: n [unfolded chr_def] fmt_ascii [unfolded chr_def]
        split: mode.splits acceptor.splits if_splits insertion_mode.splits bool.splits option.splits)
qed

lemma position_text_ascii: "position_text b = Inr pt \<Longrightarrow> string_len pt = length pt"
  by (auto simp: position_text_def res_simps chr_def intro!: string_len_ascii [THEN trans]
      dest: fmt_ascii [unfolded chr_def] split: if_splits)

lemma powerline_printed:
  assumes "cur v = Inr b" "draw_statusline_here v = Inr line"
  shows "calculate_powerline_length v = Inr (length (printed line) + (string_len (buffer_name b) - length (buffer_name b)))"
proof -
  obtain pt where pt: "position_text b = Inr pt" using assms by (auto simp: draw_statusline_here_def res_simps)
  have s: "string_len (sels_text (selection b)) = length (sels_text (selection b))"
    unfolding sels_text_def by (subst string_len_ascii) (auto simp: chr_def dest: fmt_ascii [unfolded chr_def])
  have m: "string_len (str (mode_name (view_mode v))) = length (mode_name (view_mode v))"
    by (rule string_len_ascii) (rule mode_name_ascii)
  show ?thesis
    using assms pt s m position_text_ascii [OF pt] string_len_ge [of "buffer_name b"]
    by (auto simp: draw_statusline_here_def calculate_powerline_length_def LEFTARROW_def)
qed

section \<open>The screen\<close>

text \<open>
  C5: the screen is drawn completely. When the main caret is visible, the terminal has at least five
  rows, the status line fits and no prompt is open, \<open>draw\<close> neither panics nor loops: it clears the screen and then
  draws, for every row with visible bytes, in order, that row at its place: the digits of its bytes, each on the
  background of the region or caret that covers it, the same bytes as characters behind the separator.
\<close>

theorem screen_drawn:
  assumes "xi_rope X cur_at bden delta_ok msk ins_ok" "ensure_visible_data X F v = ok v1"
    and "view_ok v1 b" "caret_visible v1 b" "5 \<le> snd (term_size v1)" "status_fits v1" "\<not> has_prompt (view_mode v1)"
  shows "\<exists>rows rest v2. draw X U F v = ok ([MoveTo 0 0, Clear ClearAll] @ concat rows @ rest, v2) \<and>
    list_all2 (shows_row v1 b) [0 ..< row_count v1 b] rows \<and> v2 = v1\<lparr>last_visible_rows := row_count v1 b\<rparr>"
proof -
  let ?v = "v1\<lparr>last_visible_rows := row_count v1 b\<rparr>"
  have "cur ?v = Inr b" "sel_wf (selection b)" "0 < snd (term_size ?v)" "draw_prompt ?v = Inr ([], ?v)"
    using assms(3) draw_prompt_none [of ?v] assms(7) by (auto simp: view_ok_def sel_ok_def)
  then obtain status where "draw_statusline ?v = Inr (status, ?v)"
    using draw_statusline_total [of ?v b "[]" ?v] assms(6) by auto
  with xi_rope.draw_shows [OF assms(1-5) this, of U] show ?thesis by auto
qed

text \<open>
  C19: after a change of the length of the document the view is scrolled, if need be, so that the main
  caret is on the screen, at a line start inside the document, and then drawn; whatever the position was before.
\<close>

theorem caret_brought_into_view:
  assumes "cur v = Inr b" "sel_ok (doc_len b) (selection b)" "flags_ok (selection b)" "bytes_per_line v = 16"
    and "2 \<le> snd (term_size v)" "snd (term_size v) < 0x10000" "16 dvd start_offset v" "fits (start_offset v)"
  shows "\<exists>v'. maybe_update_offset_and_draw X U F v = draw X U F v' \<and> view_ok v' b \<and> caret_visible v' b \<and>
    (start_offset v \<le> main_caret b \<and> main_caret b < screen_end v \<longrightarrow> v' = v)"
proof -
  let ?c = "main_caret b" and ?h = "snd (term_size v)" and ?s = "start_offset v"
  have m: "main_selection (selection b) < length (regions (selection b))"
    using assms(2) by (simp add: sel_ok_def sel_wf_def)
  then have c: "?c \<le> doc_len b" and mc: "main_cursor_offset (selection b) = Inr ?c"
    using sel_ok_bounds [OF assms(2), of "regions (selection b) ! main_selection (selection b)"]
    by (auto simp: main_caret_def main_cursor_offset_def)
  have n: "doc_len b + 0x200000 \<le> usize_max" "?s + 0x200000 \<le> usize_max"
    using assms(2,8) by (auto simp: sel_ok_def fits_def isize_max_def usize_max_def)
  have se: "screen_end v \<le> ?s + 0x100000" using assms(6) by (simp add: screen_end_def)
  have vb: "visible_bytes v = Inr (?s, view_end v b)"
    using n se assms(1,4,5)
    by (simp add: visible_bytes_def view_end_def screen_end_def rope_len_def doc_len_def umul_def uadd_def)
  have ok: "view_ok (v\<lparr>start_offset := o'\<rparr>) b \<longleftrightarrow> 16 dvd o' \<and> o' \<le> doc_len b" for o'
    using assms by (simp add: view_ok_def cur_def)
  have vis: "caret_visible (v\<lparr>start_offset := o'\<rparr>) b \<longleftrightarrow> o' \<le> ?c \<and> ?c < o' + (?h - 1) * 16" for o'
    by (simp add: caret_visible_def screen_end_def)
  have mod: "?c - ?c mod 16 \<le> ?c" "?c < ?c - ?c mod 16 + 16" "16 dvd ?c - ?c mod 16" by auto
  have eq: "maybe_update_offset_and_draw X U F v =
      draw X U F (v\<lparr>start_offset := (if ?c < ?s then ?c - ?c mod 16
        else if ?c \<ge> view_end v b then ?c - ?c mod 16 + 16 - (?h - 1) * 16 else ?s)\<rparr>)"
    using n c assms(1,4,5,6) mc vb
    by (auto simp: maybe_update_offset_and_draw_def umul_def uadd_def)
  consider "?c < ?s" | "?s \<le> ?c" "view_end v b \<le> ?c" | "?s \<le> ?c" "?c < view_end v b" by linarith
  then show ?thesis
  proof cases
    case 1
    let ?o = "?c - ?c mod 16"
    have "view_ok (v\<lparr>start_offset := ?o\<rparr>) b" "caret_visible (v\<lparr>start_offset := ?o\<rparr>) b"
      unfolding ok vis using mod c assms(5) by auto
    with 1 eq show ?thesis by (intro exI [of _ "v\<lparr>start_offset := ?o\<rparr>"]) auto
  next
    case 2
    let ?o = "?c - ?c mod 16 + 16 - (?h - 1) * 16"
    have "view_end v b = screen_end v" using 2 c by (auto simp: view_end_def min_def split: if_splits)
    with 2 have far: "?s + (?h - 1) * 16 \<le> ?c" by (simp add: screen_end_def)
    have "16 dvd ?o" by (rule dvd_diff_nat [OF dvd_add [OF mod(3) dvd_refl] dvd_triv_right])
    then have "view_ok (v\<lparr>start_offset := ?o\<rparr>) b" "caret_visible (v\<lparr>start_offset := ?o\<rparr>) b"
      unfolding ok vis using mod(1,2) c assms(5) far by auto
    with 2 eq far show ?thesis
      by (intro exI [of _ "v\<lparr>start_offset := ?o\<rparr>"]) (auto simp: screen_end_def)
  next
    case 3
    then have "caret_visible v b" "view_ok v b"
      using vis [of ?s] ok [of ?s] assms(7) c by (auto simp: view_end_def screen_end_def)
    with 3 eq show ?thesis by auto
  qed
qed

section \<open>Redrawing what changed\<close>

context xi_interval
begin

text \<open>The offsets in the intersection of an interval with the visible bytes.\<close>

lemma intersect_offsets:
  "set (let s = interval_intersect X (Interval a e) x
        in if interval_is_empty X s then [] else [iv_start s ..< iv_end s]) =
    {i. a \<le> i \<and> i < e \<and> interval_contains X x i}"
proof -
  obtain c d where cd: "interval_intersect X (Interval a e) x = Interval c d" by (cases "interval_intersect X (Interval a e) x")
  have in_cd: "c \<le> i \<and> i < d \<longleftrightarrow> a \<le> i \<and> i < e \<and> interval_contains X x i" for i
    using interval_intersect [of "Interval a e" x i] by (simp add: cd interval_contains)
  show ?thesis
  proof (cases "c < d")
    case True
    then have "\<not> interval_is_empty X (Interval c d)" by (simp add: interval_is_empty)
    then show ?thesis by (simp add: cd set_eq_iff in_cd)
  next
    case False
    then show ?thesis by (auto simp: cd Let_def in_cd [symmetric])
  qed
qed

lemma invalid_rows_ok:
  assumes "view_ok v b"
  shows "\<exists>rows. invalid_rows X v (start_offset v, view_end v b) ivs = Inr rows \<and>
    set rows = {(i - start_offset v) div 16 |i. start_offset v \<le> i \<and> i < view_end v b \<and> (\<exists>x \<in> set ivs. interval_contains X x i)}"
proof -
  let ?s = "start_offset v" and ?e = "view_end v b"
  let ?off = "concat (map (\<lambda>x. let s = interval_intersect X (Interval ?s ?e) x
    in if interval_is_empty X s then [] else [iv_start s ..< iv_end s]) ivs)"
  have off: "set ?off = {i. ?s \<le> i \<and> i < ?e \<and> (\<exists>x \<in> set ivs. interval_contains X x i)}"
    unfolding set_concat set_map image_image intersect_offsets by auto
  have small: "(i - ?s) div 16 mod 0x10000 = (i - ?s) div 16" if "?s \<le> i" "i < ?e" for i
  proof -
    have "i - ?s < (snd (term_size v) - 1) * 16" using that by (auto simp: view_end_def screen_end_def)
    then have "(i - ?s) div 16 < snd (term_size v) - 1" by (simp add: div_less_iff_less_mult)
    moreover have "snd (term_size v) < 0x10000" using assms by (simp add: view_ok_def)
    ultimately have "(i - ?s) div 16 < 0x10000" by linarith
    then show ?thesis by simp
  qed
  have "invalid_rows X v (?s, ?e) ivs = Inr (map (\<lambda>i. (i - ?s) div 16) ?off)"
    unfolding invalid_rows_def fst_conv snd_conv
  proof (rule rmap_Inr_map)
    fix i assume "i \<in> set ?off"
    with off have "?s \<le> i" "i < ?e" by blast+
    then show "rbind (usub i ?s) (\<lambda>d. rbind (udiv d (bytes_per_line v)) (\<lambda>row. Inr (row mod 0x10000))) = Inr ((i - ?s) div 16)"
      using small assms by (simp add: view_ok_def)
  qed
  then show ?thesis using off by auto
qed

end

text \<open>Nothing is scrolled while the caret is visible.\<close>

lemma maybe_update_offset_stays:
  assumes ok: "view_ok v b" and vis: "caret_visible v b" and ne: "0 < doc_len b"
  shows "maybe_update_offset X U F T v = ok ([], v)"
proof -
  have m: "main_selection (selection b) < length (regions (selection b))" "cur v = Inr b"
    using ok by (auto simp: view_ok_def sel_ok_def sel_wf_def)
  then have mc: "main_cursor_offset (selection b) = Inr (main_caret b)"
    by (simp add: main_caret_def main_cursor_offset_def)
  have "main_caret b \<le> doc_len b"
    using ok m(1) sel_ok_bounds [of "doc_len b" "selection b" "regions (selection b) ! main_selection (selection b)"]
    by (auto simp: view_ok_def main_caret_def)
  then have "start_offset v \<le> main_caret b" "main_caret b < view_end v b"
    using vis by (auto simp: caret_visible_def view_end_def)
  then have "lines_off v = Inr None"
    using m mc visible_bytes_ok [OF ok] by (simp add: lines_off_def Let_def)
  with m mc visible_bytes_ok [OF ok] ne show ?thesis
    by (auto simp: maybe_update_offset_def rope_is_empty_def doc_len_def)
qed

text \<open>
  C20: after a change in place exactly the rows that changed are drawn: the first five, which show the properties
  of the bytes at the caret, and those with a visible byte in one of the reported intervals. Each is drawn once, in order,
  with the bytes and backgrounds of the full screen (blank below the last byte) and its line of properties, by
  commands that stay inside this row; nothing else is sent to the terminal.
\<close>

theorem changed_rows_redrawn:
  assumes X: "xi_rope X cur_at bden delta_ok msk ins_ok" and ok: "view_ok v b" and vis: "caret_visible v b" "0 < doc_len b"
    and en: "ensure_visible_data X F v = ok v" and h: "5 \<le> snd (term_size v)"
  shows "\<exists>rows. transition_dirty_bytes X U F T (ChangeInPlace ivs) v = ok (concat rows, v) \<and>
    list_all2 (\<lambda>k. row_out U (caret_bytes v b) v b k k)
      (filter (\<lambda>k. k < 5 \<or> (\<exists>i x. x \<in> set ivs \<and> interval_contains X x i \<and> i < view_end v b \<and>
         start_offset v \<le> i \<and> (i - start_offset v) div 16 = k)) [0 ..< max (row_count v b) 5]) rows"
proof -
  let ?s = "start_offset v"
  let ?W = "\<lambda>k. k < 5 \<or> (\<exists>i x. x \<in> set ivs \<and> interval_contains X x i \<and> i < view_end v b \<and> ?s \<le> i \<and> (i - ?s) div 16 = k)"
  have I: "xi_interval X" using X by (simp add: xi_rope_def)
  obtain rows where rows: "invalid_rows X v (?s, view_end v b) ivs = Inr rows"
    "set rows = {(i - ?s) div 16 |i. ?s \<le> i \<and> i < view_end v b \<and> (\<exists>x \<in> set ivs. interval_contains X x i)}"
    using xi_interval.invalid_rows_ok [OF I ok] by blast
  have W: "row_invalid v (rows @ [0 ..< bp_height]) (?s + k * 16) = Inr (?W k)" if "k < row_count v b" for k
    using row_count_bound [OF ok that] ok rows(2)
    by (auto simp: row_invalid_def offset_to_row_def ok_def view_ok_def bp_height_def)
  obtain os where body: "draw_body X U (row_invalid v (rows @ [0 ..< bp_height])) v =
      Inr (concat os, (?s, view_end v b))"
    "list_all2 (\<lambda>k. row_out U (caret_bytes v b) v b k k) (filter ?W [0 ..< max (row_count v b) 5]) os"
    using xi_rope.draw_body_exact [OF X ok vis(1) h, of "row_invalid v (rows @ [0 ..< bp_height])" ?W U] W by auto
  have "transition_dirty_bytes X U F T (ChangeInPlace ivs) v = ok (concat os, v)"
    using maybe_update_offset_stays [OF ok vis, of X U F T] visible_bytes_ok [OF ok] rows(1) en body(1)
    by (simp add: transition_dirty_bytes_def then_draw_def draw_rows_def)
  with body(2) show ?thesis by blast
qed

section \<open>Where drawing fails\<close>

text \<open>Below the last row of the screen nothing is printed, so nothing is ever finished.\<close>

lemma rest_rows_stuck:
  assumes v: "bytes_per_line v = 16" and p: "bp_line props < 5" and k: "snd (term_size v) \<le> k"
    and f: "start_offset v + (k + fuel) * 16 \<le> usize_max"
  shows "rest_rows U v fuel (start_offset v + k * 16) props = Inl OutOfFuel"
  using k f
proof (induction fuel arbitrary: k)
  case 0
  then show ?case using p by (subst rest_rows.simps) (simp add: are_all_printed_def bp_height_def)
next
  case (Suc fuel)
  have o': "uadd (start_offset v + k * 16) 16 = Inr (start_offset v + Suc k * 16)"
    using Suc.prems(2) by (simp add: uadd_def)
  have row: "draw_row U v [] (start_offset v + k * 16) [] None props = Inr ([], props)"
    using v Suc.prems(1) by (simp add: draw_row_def offset_to_row_def)
  show ?case
    by (subst rest_rows.simps)
      (use p v o' row Suc.IH [of "Suc k"] Suc.prems in \<open>simp add: are_all_printed_def bp_height_def del: uadd_Inr\<close>)
qed

lemma rest_rows_hangs:
  assumes v: "bytes_per_line v = 16" and p: "length (bp_data props) \<le> 4"
    and k: "k \<le> snd (term_size v)" "bp_line props + (snd (term_size v) - k) < 5"
    and f: "start_offset v + (k + fuel) * 16 \<le> usize_max"
  shows "rest_rows U v fuel (start_offset v + k * 16) props = Inl OutOfFuel"
  using p k f
proof (induction fuel arbitrary: k props)
  case 0
  then show ?case by (subst rest_rows.simps) (simp add: are_all_printed_def bp_height_def)
next
  case (Suc fuel)
  show ?case
  proof (cases "k = snd (term_size v)")
    case True
    with Suc.prems v show ?thesis by (intro rest_rows_stuck) auto
  next
    case False
    let ?o = "start_offset v + k * 16" and ?p = "props\<lparr>bp_line := bp_line props + 1\<rparr>"
    obtain os where os: "draw_row U v [] ?o [] None props = Inr (os, ?p)"
      using draw_row_shows [of v ?o "[]" "[]" None props U] Suc.prems False v by auto
    have o': "uadd ?o 16 = Inr (start_offset v + Suc k * 16)" using Suc.prems(4) by (simp add: uadd_def)
    have "rest_rows U v fuel (start_offset v + Suc k * 16) ?p = Inl OutOfFuel"
      using Suc.IH [of ?p "Suc k"] Suc.prems False by auto
    then show ?thesis
      by (subst rest_rows.simps)
        (use os o' v Suc.prems in \<open>simp add: are_all_printed_def bp_height_def del: uadd_Inr\<close>)
  qed
qed

text \<open>
  C36: in a terminal of two to four rows drawing never ends: the five lines of properties do not fit, the rows
  below the screen are skipped, and the loop that waits for the fifth line goes on, however many rounds it is given.
\<close>

theorem tiny_terminal_hangs:
  assumes X: "xi_rope X cur_at bden delta_ok msk ins_ok" and en: "ensure_visible_data X F v = ok v1"
    and ok: "view_ok v1 b" and vis: "caret_visible v1 b" and h: "snd (term_size v1) < 5"
    and s: "start_offset v1 + (start_offset v1 + 16) * 16 \<le> usize_max"
  shows "draw X U F v = Inl OutOfFuel \<and>
    (\<forall>fuel cb. length cb \<le> 4 \<longrightarrow> start_offset v1 + (row_count v1 b + fuel) * 16 \<le> usize_max \<longrightarrow>
      rest_rows U v1 fuel (start_offset v1 + row_count v1 b * 16) \<lparr>bp_data = cb, bp_line = row_count v1 b\<rparr> = Inl OutOfFuel)"
proof -
  let ?s = "start_offset v1" and ?K = "row_count v1 b"
  have v: "bytes_per_line v1 = 16" using ok by (simp add: view_ok_def)
  have K: "?K < snd (term_size v1)" using row_count_cover(3) [OF ok] .
  have hang: "rest_rows U v1 fuel (?s + ?K * 16) \<lparr>bp_data = cb, bp_line = ?K\<rparr> = Inl OutOfFuel"
    if "length cb \<le> 4" "?s + (?K + fuel) * 16 \<le> usize_max" for fuel and cb :: bytes
    using that v K h by (intro rest_rows_hangs) auto
  let ?cb = "caret_bytes v1 b"
  obtain rows where body: "list_all2 (\<lambda>(j, k). row_out U ?cb v1 b j k) (enumerate 0 (filter (\<lambda>_. True) [0 ..< ?K])) rows"
    "draw_body X U (\<lambda>_. Inr True) v1 = rbind (rest_rows U v1 (?s + 6) (?s + ?K * 16) \<lparr>bp_data = ?cb, bp_line = length rows\<rparr>)
        (\<lambda>rest. Inr (concat rows @ rest, (?s, view_end v1 b)))"
    using xi_rope.draw_body_rows [OF X ok vis, of "\<lambda>_. Inr True" "\<lambda>_. True" U] by blast
  have "length rows = ?K" using list_all2_lengthD [OF body(1)] by simp
  moreover have "?s + (?K + (?s + 6)) * 16 \<le> usize_max" using s K h by simp
  ultimately have "draw_body X U (\<lambda>_. Inr True) v1 = Inl OutOfFuel" using hang [of ?cb "?s + 6"] length_caret_bytes [of v1 b] body by simp
  with en hang show ?thesis by (simp add: draw_def)
qed

text \<open>
  C37: the status line ends at the right edge of the terminal: it is printed so many columns before the edge as it
  has characters, and one more for every byte of the file name beyond its characters. When the terminal has
  fewer columns than that, drawing it panics; a long file name in a terminal of 80 columns is enough.
\<close>

theorem status_line_placed:
  assumes "cur v = Inr b" "sel_wf (selection b)" "0 < snd (term_size v)" "\<not> has_prompt (view_mode v)"
  shows "\<exists>line n. draw_statusline_here v = Inr line \<and>
    n = length (printed line) + (string_len (buffer_name b) - length (buffer_name b)) \<and>
    (n < 0x10000 \<longrightarrow> draw_statusline v =
      (if n \<le> fst (term_size v)
       then Inr ((case info v of
           None \<Rightarrow> [MoveTo (fst (term_size v) - n) (snd (term_size v)), Clear CurrentLine]
         | Some i \<Rightarrow> [MoveTo 0 (snd (term_size v) - 1), Clear CurrentLine, PrintStyled (fg_bg White Blue) i,
             MoveTo (fst (term_size v) - n) (snd (term_size v))]) @ line, v)
       else Inl ArithmeticOverflow))"
proof -
  obtain line where line: "draw_statusline_here v = Inr line"
    using assms(1) position_text_total [OF assms(2)] by (auto simp: draw_statusline_here_def)
  show ?thesis
    using line powerline_printed [OF assms(1) line] draw_prompt_none [OF assms(4)] assms(3)
    by (auto simp: draw_statusline_def usub_def split: option.split)
qed

text \<open>
  C38: shrinking the terminal panics when the main selection reaches from the screen to a caret below it: the
  bytes at the caret are looked up among the visible ones.
\<close>

theorem resize_panics:
  assumes X: "xi_rope X cur_at bden delta_ok msk ins_ok"
    and en: "ensure_visible_data X F (v\<lparr>term_size := (x, y)\<rparr>) = ok v1" and ok: "view_ok v1 b"
    and r: "r = regions (selection b) ! main_selection (selection b)"
    and out: "start_offset v1 \<le> tail r" "tail r < screen_end v1" "screen_end v1 < caret r"
  shows "handle_event_default X U F T (Resize x y) v = Inl IndexOutOfBounds"
proof -
  let ?s = "start_offset v1" and ?e = "view_end v1 b"
  have sel: "sel_wf (selection b)" "flags_ok (selection b)" using ok by (auto simp: view_ok_def sel_ok_def)
  have v: "cur v1 = Inr b" "bytes_per_line v1 = 16" using ok by (auto simp: view_ok_def)
  have m: "r \<in> set (regions (selection b))" using sel(1) by (auto simp: r sel_wf_def)
  then have c: "caret r \<le> doc_len b" using ok sel_ok_bounds by (auto simp: view_ok_def)
  then have out2: "tail r < ?e" "?e < caret r" using out by (auto simp: view_end_def)
  have ar: "?s < ?e" "?e \<le> usize_max" "caret r + 4 \<le> usize_max" using view_arith [OF ok] c by auto
  have rf: "regions_in_range (selection b) ?s ?e = Inr (filter (\<lambda>q. ?s \<le> max_r q \<and> min_r q \<le> ?e) (regions (selection b)))"
    using regions_in_range_filter [OF sel(1)] ar(1) by simp
  obtain ms where ms: "mark_commands v1 (?s, ?e) = Inr ms"
    using mark_commands_painting [OF v(1) sel(1), of ?s ?e] ar v(2) by auto
  have "List.find is_main (filter (\<lambda>q. ?s \<le> max_r q \<and> min_r q \<le> ?e) (regions (selection b))) = Some r"
    using out2 out(1) by (intro main_find [OF sel r]) (auto simp: max_r_def min_r_def)
  then have "current_bytes (selection b) (?s, ?e) (shown_bytes v1 b) = Inl IndexOutOfBounds"
    using out2 ar by (auto simp: current_bytes_def rf slice_def length_shown_bytes)
  then have "draw_body X U (\<lambda>_. Inr True) v1 = Inl IndexOutOfBounds"
    using visible_bytes_ok [OF ok] v xi_rope.shown_bytes_slice [OF X ok] ms by (simp add: draw_body_def)
  with en show ?thesis by (simp add: handle_event_default_def draw_def)
qed

section \<open>The file\<close>

context xi_rope
begin

lemma slice_full: "slice_to_cow X r (full_range r) = Inr (node_bytes r)"
  using slice_to_cow_bytes [of 0 r "node_len r"] by (simp add: full_range_def)

lemma cmd_write_own:
  assumes "current c = Inr b" "path b = Some p" "writable F (resolve F p)"
  shows "cmd_write X [] (c, F) =
    Inr (NewMode normal_new, (set_current c (b\<lparr>dirty := False\<rparr>), F\<lparr>files := (files F)(resolve F p \<mapsto> node_bytes (data b))\<rparr>))"
  using assms by (simp add: cmd_write_def fs_write_def slice_full update_path_if_missing_def)

lemma copied_range_bytes: "a \<le> node_len r \<Longrightarrow>
    \<exists>r'. copied_range X r a b = Inr r' \<and> node_bytes r' = take (b - a) (drop a (node_bytes r))"
  using chunk_collect_range [of a r "Suc (length r)" b] by (auto simp: copied_range_def tree_build_bytes)

end

lemma take_read: "fs_ok F \<Longrightarrow> \<exists>k \<le> n. fs_read F content 0 n = take k content"
  by (auto simp: fs_read_def fs_ok_def intro!: exI [of _ "read_some F (min n (length content))"]
      elim!: allE [of _ "min n (length content)"])

text \<open>
  C34: opening a file and writing it back truncates it. The program loads at most one screen of the file, and
  \<open>:w\<close> writes what is loaded: a file longer than the screen loses everything behind it, although nothing was changed.
\<close>

theorem write_truncates_file:
  assumes X: "xi_rope X cur_at bden delta_ok msk ins_ok" and F: "fs_ok F" "fs_open F p = Inr content" "writable F (resolve F p)"
    and h: "T = Some (w, h)" "0 < h" "h < 0x10000"
  shows "\<exists>c c' F' k. open_first X F T (Some p) = Inr c \<and>
    command_finish X (str ''w'') (c, F) = Inr (NewMode normal_new, (c', F')) \<and>
    files F' (resolve F p) = Some (take k content) \<and> k \<le> (h - 1) * 16 \<and>
    (\<exists>b. current c' = Inr b \<and> \<not> dirty b \<and> node_bytes (data b) = take k content)"
proof -
  have ch: "term_chunk_size T = Inr ((h - 1) * 16)"
    using h by (simp add: term_chunk_size_def umul_def usize_max_def)
  obtain k where k: "k \<le> (h - 1) * 16" "fs_read F content 0 ((h - 1) * 16) = take k content"
    using take_read [OF F(1)] by blast
  let ?b = "from_data_and_path X (take k content) (Some p)" let ?c = "with_current_buffer ?b"
  have T: "xi_tree X cur_at" using X by (simp add: xi_rope_def)
  have d: "node_bytes (data ?b) = take k content"
    using xi_tree.rope_from_vec_bytes [OF T] by (simp add: from_data_and_path_def)
  have cur: "current ?c = Inr ?b" by (simp add: current_def with_current_buffer_def)
  have w: "cmd_write X [] (?c, F) = Inr (NewMode normal_new, (set_current ?c (?b\<lparr>dirty := False\<rparr>),
      F\<lparr>files := (files F)(resolve F p \<mapsto> node_bytes (data ?b))\<rparr>))"
    using xi_rope.cmd_write_own [OF X cur _ F(3)] by (simp add: from_data_and_path_def)
  have "command_finish X (str ''w'') (?c, F) = cmd_write X [] (?c, F)"
    by (simp add: command_finish_def run_command_def str_def chr_def)
  moreover have "open_first X F T (Some p) = Inr ?c" using F(1,2) ch k by (simp add: open_first_def)
  ultimately show ?thesis
    using w d k(1) by (auto simp: current_def set_current_def with_current_buffer_def)
qed

text \<open>
  C35: trimming the window drops the first bytes of the document and nothing else: the selection, the history
  and the flag for unsaved changes stay as they are. A selection near the end of the document is then outside of it,
  and a later \<open>:w\<close> writes the file without the dropped bytes.
\<close>

theorem trim_drops_bytes:
  assumes X: "xi_rope X cur_at bden delta_ok msk ins_ok" and b: "cur v = Inr b"
    and n: "0 < n" "2 * n < doc_len b" "2 * n \<le> usize_max" and p: "path b = Some p" "writable F (resolve F p)"
  shows "\<exists>v' b'. trim_buffer_top X n v = Inr v' \<and> cur v' = Inr b' \<and> start_offset v' = start_offset v - n \<and>
    b' = b\<lparr>data := data b'\<rparr> \<and> node_bytes (data b') = drop n (node_bytes (data b)) \<and>
    (doc_len b - n < max_r r \<and> r \<in> set (regions (selection b)) \<longrightarrow> \<not> in_bounds (doc_len b') (selection b')) \<and>
    (\<exists>c F'. cmd_write X [] (buffers v', F) = Inr (NewMode normal_new, (c, F')) \<and>
      files F' (resolve F p) = Some (drop n (node_bytes (data b))))"
proof -
  obtain r' where r': "copied_range X (data b) n (doc_len b) = Inr r'" "node_bytes r' = drop n (node_bytes (data b))"
    using xi_rope.copied_range_bytes [OF X, of n "data b" "doc_len b"] n by (auto simp: doc_len_def)
  let ?b = "b\<lparr>data := r'\<rparr>" let ?v = "(set_cur v ?b)\<lparr>start_offset := start_offset v - n\<rparr>"
  have trim: "trim_buffer_top X n v = Inr ?v"
    using b n r'(1) by (simp add: trim_buffer_top_def umul_def rope_len_def doc_len_def mult.commute)
  have cur: "cur ?v = Inr ?b"
    using b by (simp add: cur_def set_cur_def current_def set_current_def res_simps)
  have "\<not> in_bounds (doc_len ?b) (selection ?b)" if "doc_len b - n < max_r r" "r \<in> set (regions (selection b))"
    using that r'(2) by (auto simp: in_bounds_def doc_len_def not_le intro!: bexI [of _ r])
  moreover have "cmd_write X [] (buffers ?v, F) = Inr (NewMode normal_new, (set_current (buffers ?v) (?b\<lparr>dirty := False\<rparr>),
      F\<lparr>files := (files F)(resolve F p \<mapsto> node_bytes (data ?b))\<rparr>))"
    using xi_rope.cmd_write_own [OF X _ _ p(2), of "buffers ?v" ?b] cur p(1) by (simp add: cur_def)
  ultimately show ?thesis
    using trim cur r'(2) by (intro exI [of _ ?v] exI [of _ ?b]) auto
qed

section \<open>Examples\<close>

text \<open>Forty bytes, bytes 3 to 30 selected, the caret on 30; a view of it in a terminal of 80 columns.\<close>

definition demo_page :: "ref_delta buffer" where
  "demo_page = buffer_default\<lparr>data := [map word_of_nat [0 ..< 40]],
     selection := \<lparr>regions = [\<lparr>caret = 30, tail = 3, main = True\<rparr>], main_selection = 0\<rparr>\<rparr>"

definition demo_screen :: "nat \<Rightarrow> nat \<Rightarrow> ref_delta hex_view" where
  "demo_screen w h = \<lparr>buffers = with_current_buffer demo_page, term_size = (w, h), bytes_per_line = 16,
     start_offset = 0, last_visible_rows = 0, last_visible_prompt_col = 0, view_mode = normal_new, info = None\<rparr>"

definition demo_unicode :: unicode where
  "demo_unicode = \<lparr>grapheme_extended = (\<lambda>_. False), printable = (\<lambda>c. 0x20 \<le> c \<and> c < 0x7F)\<rparr>"

lemma demo_page_simps [simp]:
  "cur (demo_screen w h) = Inr demo_page" "doc_len demo_page = 40" "path demo_page = None"
  "selection demo_page = \<lparr>regions = [\<lparr>caret = 30, tail = 3, main = True\<rparr>], main_selection = 0\<rparr>"
  by (simp_all add: cur_def demo_screen_def current_def with_current_buffer_def demo_page_def buffer_default_def doc_len_def)

lemma demo_sel_ok: "sel_ok 40 (selection demo_page)" "flags_ok (selection demo_page)"
  by (simp_all add: sel_ok_def sel_wf_def in_bounds_def fits_def isize_max_def max_r_def flags_ok_def)

lemma demo_view_ok: "2 \<le> h \<Longrightarrow> h < 0x10000 \<Longrightarrow> view_ok (demo_screen w h) demo_page"
  using demo_sel_ok by (simp add: view_ok_def) (simp add: demo_screen_def)

lemma demo_caret: "3 \<le> h \<Longrightarrow> caret_visible (demo_screen w h) demo_page"
  by (simp add: caret_visible_def main_caret_def screen_end_def) (simp add: demo_screen_def)

lemma ensure_no_path:
  assumes "view_ok v b" "path b = None"
  shows "ensure_visible_data X F v = ok v"
proof -
  have c: "cur v = Inr b" using assms(1) by (simp add: view_ok_def)
  then have "set_cur v b = v" by (simp add: set_cur_def set_current_def cur_def current_def res_simps)
  with c visible_bytes_ok [OF assms(1)] assms(2) show ?thesis
    by (simp add: ensure_visible_data_def load_next_chunk_def ok_def)
qed

lemma demo_ensure: "2 \<le> h \<Longrightarrow> h < 0x10000 \<Longrightarrow> ensure_visible_data X F (demo_screen w h) = ok (demo_screen w h)"
  using ensure_no_path [OF demo_view_ok] by simp

lemma demo_powerline: "calculate_powerline_length (demo_screen w h) = Inr 42"
  by (simp add: calculate_powerline_length_def position_text_def rope_is_empty_def rope_len_def)
    (simp add: demo_page_def buffer_default_def demo_screen_def main_cursor_offset_def buffer_name_def sels_text_def
      sel_len_def fmt_dec_def fmt_hex_def fmt_radix.simps hex_digit_def str_def chr_def len_utf8_def normal_new_def mode_name_def
      normal_name_def count_display_def)

theorem screen_drawn_witness:
  "\<exists>rows rest v2. draw ref_xi demo_unicode demo_fs (demo_screen 80 24) = ok ([MoveTo 0 0, Clear ClearAll] @ concat rows @ rest, v2) \<and>
    list_all2 (shows_row (demo_screen 80 24) demo_page) [0, 1, 2] rows"
proof -
  have "status_fits (demo_screen 80 24)" using demo_powerline by (simp add: status_fits_def) (simp add: demo_screen_def)
  moreover have "\<not> has_prompt (view_mode (demo_screen 80 24))" by (simp add: has_prompt_def demo_screen_def normal_new_def)
  moreover have "[0 ..< row_count (demo_screen 80 24) demo_page] = [0, 1, 2]"
    by (simp add: row_count_def view_end_def screen_end_def) (simp add: demo_screen_def upt_rec)
  ultimately show ?thesis
    using screen_drawn [where v = "demo_screen 80 24" and F = demo_fs and U = demo_unicode, OF ref_xi_rope demo_ensure demo_view_ok demo_caret]
    by (auto simp: demo_screen_def [of 80 24])
qed

theorem caret_brought_into_view_witness:
  "\<exists>v'. maybe_update_offset_and_draw ref_xi demo_unicode demo_fs (demo_screen 80 2) = draw ref_xi demo_unicode demo_fs v' \<and>
    view_ok v' demo_page \<and> caret_visible v' demo_page"
  using caret_brought_into_view [where v = "demo_screen 80 2" and X = ref_xi and U = demo_unicode and F = demo_fs, OF demo_page_simps(1)]
    demo_sel_ok by (auto simp: demo_screen_def [of 80 2] fits_def isize_max_def)

theorem changed_rows_redrawn_witness:
  "\<exists>rows. transition_dirty_bytes ref_xi demo_unicode demo_fs None (ChangeInPlace [Interval 3 5]) (demo_screen 80 24) =
    ok (concat rows, demo_screen 80 24) \<and> length rows = 5"
proof -
  have "row_count (demo_screen 80 24) demo_page = 3"
    by (simp add: row_count_def view_end_def screen_end_def) (simp add: demo_screen_def)
  then show ?thesis
    using changed_rows_redrawn [where v = "demo_screen 80 24" and F = demo_fs and U = demo_unicode and T = None and ivs = "[Interval 3 5]",
        OF ref_xi_rope demo_view_ok demo_caret _ demo_ensure]
    by (auto simp: demo_screen_def [of 80 24] dest!: list_all2_lengthD)
qed

theorem tiny_terminal_hangs_witness: "draw ref_xi demo_unicode demo_fs (demo_screen 80 4) = Inl OutOfFuel"
  using tiny_terminal_hangs [where v = "demo_screen 80 4" and F = demo_fs and U = demo_unicode, OF ref_xi_rope demo_ensure demo_view_ok demo_caret]
  by (simp add: demo_screen_def [of 80 4] usize_max_def)

theorem status_line_placed_witness:
  "draw_statusline (demo_screen 40 24) = Inl ArithmeticOverflow \<and>
   (\<exists>line. length (printed line) = 42 \<and> draw_statusline (demo_screen 80 24) = Inr ([MoveTo 38 24, Clear CurrentLine] @ line, demo_screen 80 24))"
proof -
  have m: "\<not> has_prompt (view_mode (demo_screen w h))" for w h by (simp add: has_prompt_def demo_screen_def normal_new_def)
  have wf: "sel_wf (selection demo_page)" using demo_sel_ok(1) by (simp add: sel_ok_def)
  have name: "string_len (buffer_name demo_page) = length (buffer_name demo_page)"
    by (simp add: buffer_name_def str_def chr_def len_utf8_def)
  have len: "length (printed line) = 42" if "draw_statusline_here (demo_screen w h) = Inr line" for w h line
    using powerline_printed [OF demo_page_simps(1) that] demo_powerline [of w h] name by simp
  note st = status_line_placed [OF demo_page_simps(1) wf _ m]
  have f: "fst (term_size (demo_screen w h)) = w" "snd (term_size (demo_screen w h)) = h" "info (demo_screen w h) = None" for w h
    by (simp_all add: demo_screen_def)
  show ?thesis
    using st [of 40 24, unfolded f] st [of 80 24, unfolded f] by (auto simp: name dest: len)
qed

theorem resize_panics_witness:
  "handle_event_default ref_xi demo_unicode demo_fs None (Resize 80 2) (demo_screen 80 24) = Inl IndexOutOfBounds"
proof -
  have "(demo_screen 80 24)\<lparr>term_size := (80, 2)\<rparr> = demo_screen 80 2" by (simp add: demo_screen_def)
  then show ?thesis
    using resize_panics [where v = "demo_screen 80 24" and x = 80 and y = 2 and F = demo_fs and U = demo_unicode and T = None and
        ?v1.0 = "demo_screen 80 2" and b = demo_page, OF ref_xi_rope]
      demo_ensure [of 2 ref_xi demo_fs 80] demo_view_ok [of 2 80]
    by (simp add: screen_end_def demo_screen_def [of 80 2])
qed

text \<open>A file of forty bytes, in a terminal with one row for it.\<close>

definition demo_long_fs :: fs where
  "demo_long_fs = demo_fs\<lparr>files := [str ''/a'' \<mapsto> map word_of_nat [0 ..< 40]], read_some := (\<lambda>n. n)\<rparr>"

theorem write_truncates_file_witness:
  "\<exists>c c' F'. open_first ref_xi demo_long_fs (Some (80, 2)) (Some (str ''a'')) = Inr c \<and>
    command_finish ref_xi (str ''w'') (c, demo_long_fs) = Inr (NewMode normal_new, (c', F')) \<and>
    files F' (resolve demo_long_fs (str ''a'')) \<noteq> files demo_long_fs (resolve demo_long_fs (str ''a''))"
proof -
  let ?c = "map word_of_nat [0 ..< 40] :: bytes"
  have F: "fs_ok demo_long_fs" "fs_open demo_long_fs (str ''a'') = Inr ?c" "writable demo_long_fs (resolve demo_long_fs (str ''a''))"
    by (simp_all add: demo_long_fs_def demo_fs_def fs_ok_def fs_open_def str_def)
  have "files demo_long_fs (resolve demo_long_fs (str ''a'')) = Some ?c"
    by (simp add: demo_long_fs_def demo_fs_def str_def)
  moreover have "take k ?c \<noteq> ?c" if "k \<le> 16" for k
    using that arg_cong [of "take k ?c" ?c length] by auto
  ultimately show ?thesis
    using write_truncates_file [OF ref_xi_rope F refl, of 2 80] by fastforce
qed

theorem trim_drops_bytes_witness:
  "\<exists>v' b'. trim_buffer_top ref_xi 16 (demo_screen 80 24\<lparr>buffers := with_current_buffer (demo_page\<lparr>path := Some (str ''a'')\<rparr>)\<rparr>) = Inr v' \<and>
    cur v' = Inr b' \<and> doc_len b' = 24 \<and> \<not> in_bounds 24 (selection b')"
proof -
  let ?b = "demo_page\<lparr>path := Some (str ''a'')\<rparr>" and ?r = "\<lparr>caret = 30, tail = 3, main = True\<rparr>"
  let ?v = "demo_screen 80 24\<lparr>buffers := with_current_buffer ?b\<rparr>"
  have "cur ?v = Inr ?b" by (simp add: cur_def current_def with_current_buffer_def)
  moreover have "doc_len ?b = 40" using demo_page_simps(2) by (simp add: doc_len_def)
  ultimately show ?thesis
    using trim_drops_bytes [where v = ?v and b = ?b and n = 16 and r = ?r and F = demo_fs and p = "str ''a''", OF ref_xi_rope]
    by (fastforce simp: usize_max_def demo_fs_def doc_len_def max_r_def)
qed

end
