(* ===== verification/Search_Props.thy ===== *)
theory Search_Props
  imports Mode_Machine Buffer_Selections
begin

text \<open>
  Searching: both ways of matching a pattern (\<open>map_selections_to_matches\<close> of \<open>search.rs\<close>) find the
  leftmost matches that do not overlap. The interface of the search crates, \<open>finder_spec\<close>, is interpreted on
  an executable reference implementation.
\<close>

section \<open>Leftmost matches\<close>

lemma leftmost_step: "0 < k \<Longrightarrow> i < n \<Longrightarrow>
    leftmost P k n i = (if P i then (i, i + k) # leftmost P k n (i + k) else leftmost P k n (Suc i))"
  by (subst leftmost.simps) simp

lemma leftmost_end: "n \<le> i \<Longrightarrow> leftmost P k n i = []"
  by (subst leftmost.simps) simp

lemma leftmost_zero: "leftmost P 0 n i = []"
  by (subst leftmost.simps) simp

lemma leftmost_skip:
  assumes "\<And>j. i \<le> j \<Longrightarrow> j < i + d \<Longrightarrow> \<not> P j"
  shows "leftmost P k n i = leftmost P k n (i + d)"
  using assms
proof (induction d arbitrary: i)
  case (Suc d)
  show ?case
  proof (cases "0 < k \<and> i < n")
    case True
    then have "leftmost P k n i = leftmost P k n (Suc i)" using Suc.prems [of i] by (simp add: leftmost_step)
    also have "\<dots> = leftmost P k n (Suc i + d)" using Suc.prems by (intro Suc.IH) auto
    finally show ?thesis by simp
  next
    case False
    then show ?thesis by (cases "k = 0") (simp_all add: leftmost_zero leftmost_end)
  qed
qed simp

lemma leftmost_none: "(\<And>j. \<not> P j) \<Longrightarrow> leftmost P k n i = []"
  using leftmost_skip [of i "n - i" P k n] leftmost_end [of n "i + (n - i)" P k] by simp

lemma leftmost_cong:
  assumes "\<And>j. P j = Q j"
  shows "leftmost P k n i = leftmost Q k n i"
proof -
  have "P = Q" using assms by (rule ext)
  then show ?thesis by simp
qed

text \<open>The matches are matches, in order, inside the data, and none is left out between them.\<close>

lemma leftmost_sound:
  "(s, e) \<in> set (leftmost P k n i) \<Longrightarrow> P s \<and> e = s + k \<and> i \<le> s \<and> s < n \<and> 0 < k"
proof (induction P k n i rule: leftmost.induct)
  case (1 P k n i)
  then show ?case by (subst (asm) (3) leftmost.simps) (auto split: if_splits)
qed

lemma leftmost_sorted: "sorted_wrt (\<lambda>p q. snd p \<le> fst q) (leftmost P k n i)"
proof (induction P k n i rule: leftmost.induct)
  case (1 P k n i)
  show ?case
  proof (cases "i < n \<and> 0 < k")
    case True
    have "i + k \<le> fst q" if "q \<in> set (leftmost P k n (i + k))" for q
      using leftmost_sound [of "fst q" "snd q" P k n "i + k"] that by simp
    with True 1 show ?thesis by (simp add: leftmost_step [of k i n P])
  qed (auto simp: leftmost_end leftmost_zero not_less)
qed

lemma leftmost_complete:
  assumes "P j" "i \<le> j" "j < n" "0 < k"
  shows "\<exists>(s, e) \<in> set (leftmost P k n i). s \<le> j \<and> j < e"
  using assms
proof (induction P k n i rule: leftmost.induct)
  case (1 P k n i)
  show ?case
  proof (cases "P i")
    case True
    then show ?thesis
      using 1 by (cases "j < i + k") (auto simp: leftmost_step [of k i n P])
  next
    case False
    then have "Suc i \<le> j" using 1(3,4) by (metis le_neq_implies_less Suc_leI)
    with False 1 show ?thesis by (auto simp: leftmost_step [of k i n P])
  qed
qed

section \<open>The substring search\<close>

lemma occurs_at_drop: "sb \<le> length dat \<Longrightarrow> occurs_at sub (drop sb dat) i \<longleftrightarrow> occurs_at sub dat (sb + i)"
  by (auto simp: occurs_at_def add.commute)

lemma basic_matches: "as_basic_slice ps = Some sub \<Longrightarrow> list_all2 piece_matches ps xs \<longleftrightarrow> xs = sub"
proof (induction ps arbitrary: sub xs rule: as_basic_slice.induct)
  case (2 c ps)
  then obtain cs where cs: "as_basic_slice ps = Some cs" "sub = c # cs" by (auto split: option.splits)
  show ?case
  proof (cases xs)
    case (Cons y ys)
    with 2(1) [OF cs(1), of ys] cs(2) show ?thesis by auto
  qed (simp add: cs(2))
qed auto

lemma as_basic_length: "as_basic_slice ps = Some sub \<Longrightarrow> length sub = length ps"
  by (induction ps arbitrary: sub rule: as_basic_slice.induct) (auto split: option.splits)

lemma pattern_at_basic: "as_basic_slice ps = Some sub \<Longrightarrow> pattern_at ps dat i \<longleftrightarrow> occurs_at sub dat i"
  by (simp add: pattern_at_def occurs_at_def basic_matches as_basic_length)

definition from_base :: "nat \<Rightarrow> range \<Rightarrow> range" where
  "from_base m p = (m + fst p, m + snd p)"

text \<open>The bytes of a region, and where a pattern matches in it.\<close>

definition region_bytes :: "rope \<Rightarrow> selregion \<Rightarrow> bytes" where
  "region_bytes d r = take (Suc (max_r r) - min_r r) (drop (min_r r) (node_bytes d))"

definition region_matches :: "pattern \<Rightarrow> rope \<Rightarrow> selregion \<Rightarrow> range list" where
  "region_matches ps d r = map (from_base (min_r r))
     (leftmost (pattern_at ps (region_bytes d r)) (length ps) (length (region_bytes d r)) 0)"

section \<open>The regular expression\<close>

text \<open>
  The expression that is built of a pattern is read by the engine as that pattern: one atom for every piece, two
  hexadecimal digits for every byte.
\<close>

fun atom_of :: "piece \<Rightarrow> atom" where
  "atom_of Wildcard = Dot"
| "atom_of (Literal c) = Byte c"

lemma atom_of_matches: "atom_matches (atom_of p) = piece_matches p"
  by (cases p) (auto simp: fun_eq_iff)

lemma atoms_of_pattern: "atoms_at (map atom_of ps) = pattern_at ps"
  by (auto simp: fun_eq_iff atoms_at_def pattern_at_def list_all2_map1 atom_of_matches)

lemma hex_value_digit: "n < 16 \<Longrightarrow> hex_value (hex_digit n) = Some n"
proof -
  have "\<forall>k \<in> set [0 ..< 16]. hex_value (hex_digit k) = Some k" by code_simp
  then show "n < 16 \<Longrightarrow> ?thesis" by simp
qed

lemma regex_parse_byte:
  "regex_parse ([CHR 0x5C] @ ''x'' @ fmt_02x c @ cs) = map_option (Cons (Byte c)) (regex_parse cs)"
proof -
  have u: "unat c div 16 < 16" "unat c mod 16 < 16"
    using unsigned_less [of c, where ?'a = nat] by (simp_all add: div_less_iff_less_mult)
  have "16 * (unat c div 16) + unat c mod 16 = unat c" by simp
  then have "(word_of_nat (16 * (unat c div 16) + unat c mod 16) :: u8) = c" by (simp only:) simp
  with u show ?thesis by (simp add: fmt_02x_def hex_value_digit alphanumeric_def)
qed

lemma regex_parse_pattern: "regex_parse (pattern_expr ps) = Some (map atom_of ps)"
proof (induction ps)
  case (Cons p ps)
  show ?case
  proof (cases p)
    case (Literal c)
    with Cons regex_parse_byte [of c "pattern_expr ps"] show ?thesis by (simp add: pattern_expr_def piece_expr_def)
  qed (use Cons in \<open>simp add: pattern_expr_def piece_expr_def\<close>)
qed (simp add: pattern_expr_def)

context finder_spec
begin

lemma regex_literals:
  assumes "ps \<noteq> []"
  shows "\<exists>m. regex_find_iter Y (pattern_expr ps) = Inr m \<and>
    (\<forall>dat. m dat = leftmost (pattern_at ps dat) (length ps) (length dat) 0)"
  using regex_atoms [OF regex_parse_pattern] assms by (simp add: atoms_of_pattern)

lemma find_loop_leftmost:
  assumes "0 < length sub" "sb \<le> length dat" "length dat - sb < fuel" "m + length dat \<le> usize_max"
  shows "find_loop Y sub dat fuel (m + sb) sb =
    Inr (map (from_base m) (leftmost (occurs_at sub dat) (length sub) (length dat) sb))"
  using assms
proof (induction fuel arbitrary: sb)
  case (Suc fuel)
  let ?P = "occurs_at sub dat" and ?n = "length dat"
  have rest: "slice dat sb ?n = Inr (drop sb dat)" using Suc.prems(2) by simp
  show ?case
  proof (cases "substring_find Y sub (drop sb dat)")
    case None
    then have "\<not> ?P j" if "sb \<le> j" for j
      using substring_find_None [OF None, of "j - sb"] occurs_at_drop [OF Suc.prems(2), of sub "j - sb"] that by simp
    then have "leftmost ?P (length sub) ?n sb = []"
      using leftmost_skip [of sb "?n - sb" ?P] leftmost_end [of ?n ?n] Suc.prems(2) by simp
    with None rest show ?thesis by simp
  next
    case (Some i)
    note at = occurs_at_drop [OF Suc.prems(2)]
    have P: "?P (sb + i)" and no: "\<not> ?P j" if "sb \<le> j" "j < sb + i" for j
      using substring_find_Some [OF Some] at [of sub i] at [of sub "j - sb"] that by auto
    have P: "?P (sb + i)" using substring_find_Some [OF Some] at [of sub i] by auto
    then have le: "sb + i + length sub \<le> ?n" by (simp add: occurs_at_def)
    have lt: "sb + i < ?n" using le Suc.prems(1) by linarith
    have "leftmost ?P (length sub) ?n sb = leftmost ?P (length sub) ?n (sb + i)" by (rule leftmost_skip) (rule no)
    also have "\<dots> = (sb + i, sb + i + length sub) # leftmost ?P (length sub) ?n (sb + i + length sub)"
      using P lt Suc.prems(1) by (simp add: leftmost_step)
    finally have l: "leftmost ?P (length sub) ?n sb = \<dots>" .
    have fuel: "length dat - (sb + i + length sub) < fuel" using le Suc.prems(1,3) by linarith
    have IH: "find_loop Y sub dat fuel (m + sb + i + length sub) (sb + i + length sub) =
        Inr (map (from_base m) (leftmost ?P (length sub) ?n (sb + i + length sub)))"
      using Suc.IH [of "sb + i + length sub"] le fuel Suc.prems by (simp add: add.assoc)
    show ?thesis
      using Some rest l IH le Suc.prems(4) by (simp add: from_base_def add.assoc)
  qed
qed simp

lemma match_basic_leftmost:
  assumes "xi_interval X" "xi_tree X cur_at" and r: "max_r r \<le> node_len d" "node_len d < usize_max" and "0 < length sub"
  shows "match_basic X Y sub d r = Inr (map (from_base (min_r r))
    (leftmost (occurs_at sub (region_bytes d r)) (length sub) (length (region_bytes d r)) 0))"
proof -
  have iv: "region_interval X r = Inr (Interval (min_r r) (Suc (max_r r)))"
    using xi_interval.interval_incl [OF assms(1), of "min_r r" "max_r r"] r min_le_max_r [of r] by (simp add: region_interval_def)
  have bs: "slice_to_cow X d (Interval (min_r r) (Suc (max_r r))) = Inr (region_bytes d r)"
    using xi_tree.slice_to_cow_bytes [OF assms(2)] min_le_max_r [of r] r by (simp add: region_bytes_def)
  have "min_r r + length (region_bytes d r) \<le> usize_max" using min_le_max_r [of r] r by (simp add: region_bytes_def min_def)
  then show ?thesis
    using iv bs find_loop_leftmost [of sub 0 "region_bytes d r" "Suc (length (region_bytes d r))" "min_r r"] assms(5)
    by (simp add: match_basic_def)
qed

lemma match_regex_leftmost:
  assumes "xi_interval X" "xi_tree X cur_at" and r: "max_r r \<le> node_len d" "node_len d < usize_max"
    and m: "m (region_bytes d r) = leftmost P k (length (region_bytes d r)) 0" and P: "\<And>i. P i \<Longrightarrow> i + k \<le> length (region_bytes d r)"
  shows "match_regex X m d r = Inr (map (from_base (min_r r)) (m (region_bytes d r)))"
proof -
  have iv: "region_interval X r = Inr (Interval (min_r r) (Suc (max_r r)))"
    using xi_interval.interval_incl [OF assms(1), of "min_r r" "max_r r"] r min_le_max_r [of r] by (simp add: region_interval_def)
  have bs: "slice_to_cow X d (Interval (min_r r) (Suc (max_r r))) = Inr (region_bytes d r)"
    using xi_tree.slice_to_cow_bytes [OF assms(2)] min_le_max_r [of r] r by (simp add: region_bytes_def)
  have n: "min_r r + length (region_bytes d r) \<le> usize_max" using min_le_max_r [of r] r by (simp add: region_bytes_def min_def)
  have "rmap (\<lambda>(s, e). rbind (uadd (min_r r) s) (\<lambda>s'. rbind (uadd (min_r r) e) (\<lambda>e'. Inr (s', e')))) (m (region_bytes d r)) =
      Inr (map (from_base (min_r r)) (m (region_bytes d r)))"
  proof (rule rmap_Inr_map)
    fix p assume "p \<in> set (m (region_bytes d r))"
    then have "P (fst p)" "snd p = fst p + k" using leftmost_sound [of "fst p" "snd p" P k] m by auto
    with P n show "(case p of (s, e) \<Rightarrow> rbind (uadd (min_r r) s) (\<lambda>s'. rbind (uadd (min_r r) e) (\<lambda>e'. Inr (s', e')))) =
        Inr (from_base (min_r r) p)"
      by (cases p) (fastforce simp: from_base_def)
  qed
  with iv bs show ?thesis by (simp add: match_regex_def)
qed

text \<open>Both engines.\<close>

lemma matches_leftmost:
  assumes X: "xi_interval X" "xi_tree X cur_at" and ps: "ps \<noteq> []"
    and r: "in_bounds (node_len (data b)) (selection b)" "node_len (data b) < usize_max"
  shows "map_selections_to_matches X Y ps b = Inr (map (region_matches ps (data b)) (regions (selection b)))"
proof -
  have r': "max_r q \<le> node_len (data b)" if "q \<in> set (regions (selection b))" for q using r(1) that by (simp add: in_bounds_def)
  show ?thesis
  proof (cases "as_basic_slice ps")
    case (Some sub)
    then have len: "0 < length sub" using ps as_basic_length [OF Some] by simp
    have eq: "pattern_at ps dat = occurs_at sub dat" for dat using pattern_at_basic [OF Some] by blast
    have "rmap (match_basic X Y sub (data b)) (regions (selection b)) =
        Inr (map (region_matches ps (data b)) (regions (selection b)))"
      using match_basic_leftmost [OF X r' r(2) len] as_basic_length [OF Some] eq
      by (intro rmap_Inr_map) (simp add: region_matches_def)
    with Some show ?thesis by (simp add: map_selections_to_matches_def)
  next
    case None
    obtain m where m: "regex_find_iter Y (pattern_expr ps) = Inr m"
      "\<And>dat. m dat = leftmost (pattern_at ps dat) (length ps) (length dat) 0" using regex_literals [OF ps] by blast
    have "rmap (match_regex X m (data b)) (regions (selection b)) =
        Inr (map (region_matches ps (data b)) (regions (selection b)))"
    proof (rule rmap_Inr_map)
      fix q assume q: "q \<in> set (regions (selection b))"
      show "match_regex X m (data b) q = Inr (region_matches ps (data b) q)"
        using match_regex_leftmost [where m = m and P = "pattern_at ps (region_bytes (data b) q)" and k = "length ps",
            OF X r' [OF q] r(2) m(2)] m(2) by (simp add: region_matches_def pattern_at_def)
    qed
    with None m(1) show ?thesis by (simp add: map_selections_to_matches_def)
  qed
qed

end

section \<open>A reference implementation of the search crates\<close>

definition ref_finder :: finder where
  "ref_finder = \<lparr>
     substring_find = (\<lambda>sub dat. List.find (occurs_at sub dat) [0 ..< Suc (length dat)]),
     regex_find_iter = (\<lambda>expr. case regex_parse expr of
       None \<Rightarrow> Inl UnwrapNone
     | Some as \<Rightarrow> Inr (\<lambda>dat. leftmost (atoms_at as dat) (length as) (length dat) 0))\<rparr>"

lemma find_first: "List.find P [0 ..< n] = Some i \<longleftrightarrow> i < n \<and> P i \<and> (\<forall>j < i. \<not> P j)"
  by (auto simp: find_Some_iff)

interpretation ref_find: finder_spec ref_finder
proof
  fix sub dat :: bytes and i
  assume "substring_find ref_finder sub dat = Some i"
  then show "occurs_at sub dat i \<and> (\<forall>j < i. \<not> occurs_at sub dat j)" by (simp add: ref_finder_def find_first del: upt_Suc)
next
  fix sub dat :: bytes and j
  assume "substring_find ref_finder sub dat = None"
  then show "\<not> occurs_at sub dat j" by (auto simp: ref_finder_def find_None_iff occurs_at_def)
next
  fix expr as
  assume "regex_parse expr = Some as"
  then show "\<exists>m. regex_find_iter ref_finder expr = Inr m \<and>
      (\<forall>dat. m dat = leftmost (atoms_at as dat) (length as) (length dat) 0)"
    by (simp add: ref_finder_def)
qed

end
