(* ===== verification/Split_Props.thy ===== *)
theory Split_Props
  imports Search_Props
begin

text \<open>
  What the modes that cut the selection do (\<open>split.rs\<close>, \<open>collapse.rs\<close>): the pieces a closure
  of \<open>map_selections\<close> cuts out of the regions, collapsing to the matches of a pattern, splitting at them,
  and splitting by width.
\<close>

section \<open>Cutting regions\<close>

text \<open>
  What a closure of \<open>map_selections\<close> does that cuts each region into pieces of it: the pieces of a region
  are in order and inside it. Then nothing is merged, and the main region is the last piece of the old one, or of
  the regions before it when that has none.
\<close>

definition pieces_of :: "selregion \<Rightarrow> selregion list \<Rightarrow> bool" where
  "pieces_of r ps \<longleftrightarrow> sorted_wrt before ps \<and> (\<forall>p \<in> set ps. min_r r \<le> min_r p \<and> max_r p \<le> max_r r)"

fun cuts :: "'st region_closure \<Rightarrow> 'st \<Rightarrow> selregion list \<Rightarrow> selregion list list \<Rightarrow> 'st \<Rightarrow> bool" where
  "cuts f st [] [] st' \<longleftrightarrow> st' = st"
| "cuts f st (r # rs) (ps # pss) st' \<longleftrightarrow> (\<exists>st1. f st r = Inr (st1, ps) \<and> pieces_of r ps \<and> cuts f st1 rs pss st')"
| "cuts f st _ _ st' \<longleftrightarrow> False"

lemma push_pieces:
  assumes "sorted_wrt before (out @ ps)"
  shows "rfold push_region out ps = Inr (out @ ps)"
  using assms
proof (induction ps arbitrary: out)
  case (Cons p ps)
  have "push_region out p = Inr (out @ [p])"
  proof (cases "out = []")
    case False
    then have "before (last out) p" using Cons.prems by (auto simp: sorted_wrt_append)
    then show ?thesis by (auto simp: push_region_def overlaps_def before_def)
  qed (simp add: push_region_def)
  with Cons.IH [of "out @ [p]"] Cons.prems show ?case by simp
qed simp

lemma pieces_before:
  assumes "before r q" "pieces_of r ps" "pieces_of q qs" "a \<in> set ps" "b \<in> set qs"
  shows "before a b"
  using assms by (fastforce simp: before_def pieces_of_def)

lemma cuts_sorted:
  assumes "cuts f st rs pss st'" "sorted_wrt before rs"
  shows "sorted_wrt before (concat pss) \<and> (\<forall>r. (\<forall>q \<in> set rs. before r q) \<longrightarrow> (\<forall>p \<in> set (concat pss). max_r r < min_r p))"
  using assms
proof (induction f st rs pss st' rule: cuts.induct)
  case (2 f st r rs ps pss st')
  then obtain st1 where st1: "f st r = Inr (st1, ps)" "pieces_of r ps" "cuts f st1 rs pss st'" by auto
  have IH: "sorted_wrt before (concat pss)" "\<And>r p. (\<forall>q \<in> set rs. before r q) \<Longrightarrow> p \<in> set (concat pss) \<Longrightarrow> max_r r < min_r p"
    using "2.IH" [OF st1(3)] "2.prems"(2) by auto
  have "max_r r < min_r p" if "p \<in> set (concat pss)" for p using IH(2) [of r p] that "2.prems"(2) by auto
  then have "before a p" if "a \<in> set ps" "p \<in> set (concat pss)" for a p
    using that st1(2) by (fastforce simp: pieces_of_def before_def)
  then have "sorted_wrt before (concat (ps # pss))" using IH(1) st1(2) by (auto simp: sorted_wrt_append pieces_of_def)
  moreover have "max_r q < min_r p" if "\<forall>x \<in> set (r # rs). before q x" "p \<in> set (concat (ps # pss))" for q p
    using that st1(2) IH(2) [of q p] by (fastforce simp: pieces_of_def before_def)
  ultimately show ?case by blast
qed auto

text \<open>The flag on region \<open>k\<close> of the result, the other pieces as they are.\<close>

lemma map_loop_cut:
  assumes "cuts f st rs pss st'" "sorted_wrt before (out @ concat pss)" "i + length rs \<le> m \<or> m < i"
  shows "map_loop f m i rs st out nm = Inr (st', out @ concat pss, nm)"
  using assms
proof (induction f st rs pss st' arbitrary: out i rule: cuts.induct)
  case (2 f st r rs ps pss st')
  then obtain st1 where st1: "f st r = Inr (st1, ps)" "cuts f st1 rs pss st'" by auto
  have "rfold push_region out ps = Inr (out @ ps)"
    using "2.prems"(2) by (intro push_pieces) (auto simp: sorted_wrt_append)
  then show ?case
    using st1 "2.IH" [OF st1(2), of "out @ ps" "Suc i"] "2.prems"(2,3) by auto
qed auto

definition flag_at :: "selregion list \<Rightarrow> nat \<Rightarrow> selregion list" where
  "flag_at xs k = xs[k := (xs ! k)\<lparr>main := True\<rparr>]"

lemma flag_at_append: "k < length xs \<Longrightarrow> flag_at xs k @ ys = flag_at (xs @ ys) k"
  by (simp add: flag_at_def list_update_append nth_append)

lemma map_loop_cut_main:
  assumes "cuts f st rs pss st'" "sorted_wrt before (out @ concat pss)" "i \<le> m" "m < i + length rs"
    and pre: "pre = out @ concat (take (Suc (m - i)) pss)"
  shows "map_loop f m i rs st out nm =
    (if pre = [] then Inl ArithmeticOverflow else Inr (st', flag_at (out @ concat pss) (length pre - 1), length pre - 1))"
  using assms
proof (induction f st rs pss st' arbitrary: out i rule: cuts.induct)
  case (2 f st r rs ps pss st')
  then obtain st1 where st1: "f st r = Inr (st1, ps)" "cuts f st1 rs pss st'" by auto
  have push: "rfold push_region out ps = Inr (out @ ps)"
    using "2.prems"(2) by (intro push_pieces) (auto simp: sorted_wrt_append)
  show ?case
  proof (cases "i = m")
    case False
    then have "pre = (out @ ps) @ concat (take (Suc (m - Suc i)) pss)" using "2.prems"(3,5) by (simp add: Suc_diff_Suc)
    then show ?thesis
      using st1 push False "2.IH" [OF st1(2), of "out @ ps" "Suc i"] "2.prems"(2-4) by auto
  next
    case True
    then have p: "pre = out @ ps" using "2.prems"(5) by simp
    show ?thesis
    proof (cases "pre = []")
      case True
      with p st1 push \<open>i = m\<close> show ?thesis by (simp add: usub_def)
    next
      case ne: False
      let ?k = "length pre - 1"
      have k: "?k < length pre" using ne by simp
      have sm: "set_main pre ?k True = Inr (flag_at pre ?k)" using k by (simp add: set_main_Inr flag_at_def)
      have eq: "flag_at pre ?k @ concat pss = flag_at (out @ concat (ps # pss)) ?k"
        using flag_at_append [OF k, of "concat pss"] by (simp add: p)
      have "sorted_wrt before (flag_at pre ?k @ concat pss)"
        unfolding eq using "2.prems"(2) by (simp add: flag_at_def sorted_wrt_set_main)
      then have "map_loop f m (Suc i) rs st1 (flag_at pre ?k) ?k = Inr (st', flag_at pre ?k @ concat pss, ?k)"
        using \<open>i = m\<close> by (intro map_loop_cut [OF st1(2)]) auto
      then have "map_loop f m (Suc i) rs st1 (flag_at pre ?k) ?k = Inr (st', flag_at (out @ concat (ps # pss)) ?k, ?k)"
        by (simp only: eq)
      moreover have "usub (length pre) 1 = Inr ?k" using ne by (cases pre) (simp_all add: usub_def)
      ultimately show ?thesis using ne st1 push \<open>i = m\<close> sm unfolding p by (auto simp del: concat.simps)
    qed
  qed
qed auto

lemma sel_map_cut:
  assumes wf: "sel_wf sel" and c: "cuts f st (regions sel) pss st'"
    and pre: "pre = concat (take (Suc (main_selection sel)) pss)"
  shows "sel_map_selections f st sel =
    (if pre = [] then Inl ArithmeticOverflow
     else Inr (st', \<lparr>regions = flag_at (concat pss) (length pre - 1), main_selection = length pre - 1\<rparr>))"
  using map_loop_cut_main [OF c, of "[]" 0 "main_selection sel" pre 0] cuts_sorted [OF c] wf pre
  by (simp add: sel_map_selections_def sel_wf_def)

text \<open>The closure with the ranges recorded for the view cuts in the same way.\<close>

context xi_interval
begin

lemma cuts_record:
  assumes "cuts f st rs pss st'" "\<And>r. r \<in> set rs \<Longrightarrow> max_r r < usize_max"
  shows "\<exists>jv. cuts (record_ranges X f) (iv, st) rs pss (jv, st')"
  using assms
proof (induction f st rs pss st' arbitrary: iv rule: cuts.induct)
  case (2 f st r rs ps pss st')
  then obtain st1 where st1: "f st r = Inr (st1, ps)" "pieces_of r ps" "cuts f st1 rs pss st'" by auto
  have r: "region_interval X r = Inr (Interval (min_r r) (Suc (max_r r)))"
    using "2.prems"(2) [of r] min_le_max_r [of r] by (simp add: region_interval_def interval_incl)
  have "region_interval X p = Inr (Interval (min_r p) (Suc (max_r p)))" if "p \<in> set ps" for p
    using that st1(2) "2.prems"(2) [of r] min_le_max_r [of p] by (fastforce simp: region_interval_def pieces_of_def intro!: interval_incl)
  then have ps: "rmap (region_interval X) ps = Inr (map (\<lambda>p. Interval (min_r p) (Suc (max_r p))) ps)" by (rule rmap_Inr_map)
  obtain jv where "cuts (record_ranges X f)
      (iv @ [Interval (min_r r) (Suc (max_r r))] @ map (\<lambda>p. Interval (min_r p) (Suc (max_r p))) ps, st1) rs pss (jv, st')"
    using "2.IH" [OF st1(3)] "2.prems"(2) by fastforce
  with r ps st1 show ?case by (auto simp: record_ranges_def)
qed auto

lemma buf_map_fails:
  assumes "regions (selection b) \<noteq> []" "\<And>r. r \<in> set (regions (selection b)) \<Longrightarrow> max_r r < usize_max \<and> f st r = Inl e"
  shows "buf_map_selections X f st b = Inl e"
proof -
  obtain r rs where rs: "regions (selection b) = r # rs" using assms(1) by (cases "regions (selection b)") auto
  then have "region_interval X r = Inr (Interval (min_r r) (Suc (max_r r)))" "f st r = Inl e"
    using assms(2) [of r] min_le_max_r [of r] by (auto simp: region_interval_def interval_incl)
  with rs show ?thesis by (simp add: buf_map_selections_def sel_map_selections_def record_ranges_def)
qed

lemma buf_map_cut:
  assumes "sel_wf (selection b)" "cuts f st (regions (selection b)) pss st'"
    and "pre = concat (take (Suc (main_selection (selection b))) pss)"
    and "\<And>r. r \<in> set (regions (selection b)) \<Longrightarrow> max_r r < usize_max"
  shows "if pre = [] then buf_map_selections X f st b = Inl ArithmeticOverflow
    else \<exists>dy. buf_map_selections X f st b = Inr (st', dy,
      b\<lparr>selection := \<lparr>regions = flag_at (concat pss) (length pre - 1), main_selection = length pre - 1\<rparr>\<rparr>)"
proof -
  obtain jv where c: "cuts (record_ranges X f) ([], st) (regions (selection b)) pss (jv, st')"
    using cuts_record [OF assms(2,4)] by blast
  show ?thesis
    using sel_map_cut [OF assms(1) c assms(3)] by (auto simp: buf_map_selections_def)
qed

end

text \<open>Result: a well-formed selection of exactly the pieces.\<close>

lemma cut_selection_ok:
  assumes "sel_wf sel" "cuts f st (regions sel) pss st'" "pre = concat (take (Suc (main_selection sel)) pss)" "pre \<noteq> []"
    and sel': "sel' = \<lparr>regions = flag_at (concat pss) (length pre - 1), main_selection = length pre - 1\<rparr>"
  shows "sel_wf sel' \<and> map (\<lambda>r. (caret r, tail r)) (regions sel') = map (\<lambda>r. (caret r, tail r)) (concat pss)"
proof -
  have le: "length pre \<le> length (concat pss)"
    using assms(3) by (metis append_take_drop_id concat_append le_add1 length_append)
  have "sorted_wrt before (regions sel')"
    using cuts_sorted [OF assms(2)] assms(1) by (simp add: sel' flag_at_def sorted_wrt_set_main sel_wf_def)
  moreover have "map (\<lambda>r. (caret r, tail r)) (regions sel') = map (\<lambda>r. (caret r, tail r)) (concat pss)"
    using le assms(4) by (cases pre) (simp_all add: sel' flag_at_def map_update list_update_same_conv)
  moreover have "length pre - 1 < length (concat pss)" using le assms(4) by (cases pre) simp_all
  moreover have "concat pss \<noteq> []" using le assms(4) by (cases pre) (auto simp del: concat_eq_Nil_conv length_concat)
  ultimately show ?thesis by (simp add: sel_wf_def sel' flag_at_def del: length_concat concat_eq_Nil_conv)
qed

section \<open>The matches of the regions\<close>

lemma region_bytes_length: "length (region_bytes d r) \<le> Suc (max_r r) - min_r r"
  by (simp add: region_bytes_def)

lemma region_matches_inside:
  assumes "p \<in> set (region_matches ps d r)"
  shows "min_r r \<le> fst p \<and> fst p < snd p \<and> snd p \<le> Suc (max_r r)"
proof -
  obtain q where q: "q \<in> set (leftmost (pattern_at ps (region_bytes d r)) (length ps) (length (region_bytes d r)) 0)"
    "p = from_base (min_r r) q" using assms by (auto simp: region_matches_def)
  then have "pattern_at ps (region_bytes d r) (fst q)" "snd q = fst q + length ps" "0 < length ps"
    using leftmost_sound [of "fst q" "snd q"] by auto
  then have "snd q \<le> Suc (max_r r) - min_r r" "fst q < snd q"
    using region_bytes_length [of d r] by (auto simp: pattern_at_def)
  with q(2) min_le_max_r [of r] show ?thesis by (simp add: from_base_def)
qed

abbreviation apart :: "range list \<Rightarrow> bool" where
  "apart ms \<equiv> sorted_wrt (\<lambda>p q. snd p \<le> fst q) ms"

lemma region_matches_apart: "apart (region_matches ps d r)"
  using leftmost_sorted [of "pattern_at ps (region_bytes d r)" "length ps" "length (region_bytes d r)" 0]
  by (simp add: region_matches_def sorted_wrt_map from_base_def)

lemma all_matches_apart: "sorted_wrt before rs \<Longrightarrow> apart (concat (map (region_matches ps d) rs))"
proof (induction rs)
  case (Cons r rs)
  have "snd p \<le> fst q" if "p \<in> set (region_matches ps d r)" "x \<in> set rs" "q \<in> set (region_matches ps d x)" for p q x
    using region_matches_inside [OF that(1)] region_matches_inside [OF that(3)] Cons.prems that(2)
    by (fastforce simp: before_def)
  with Cons show ?case by (auto simp: sorted_wrt_append region_matches_apart)
qed simp

definition total_len :: "range list \<Rightarrow> nat" where
  "total_len ms = sum_list (map (\<lambda>p. snd p - fst p) ms)"

lemma sum_ranges:
  assumes "apart ms" "\<And>p. p \<in> set ms \<Longrightarrow> n \<le> fst p \<and> fst p \<le> snd p \<and> snd p \<le> bd" "n \<le> bd" "bd \<le> usize_max"
  shows "rfold (\<lambda>n (s, e). rbind (usub e s) (uadd n)) n ms = Inr (n + total_len ms) \<and> n + total_len ms \<le> bd"
  using assms
proof (induction ms arbitrary: n)
  case (Cons p ms)
  obtain s e where p: "p = (s, e)" by (cases p)
  have le: "n \<le> s" "s \<le> e" "e \<le> bd" using Cons.prems(2) [of p] by (simp_all add: p)
  have "rfold (\<lambda>n (s, e). rbind (usub e s) (uadd n)) (n + (e - s)) ms = Inr (n + (e - s) + total_len ms) \<and>
      n + (e - s) + total_len ms \<le> bd"
  proof (rule Cons.IH)
    fix q assume q: "q \<in> set ms"
    then have "e \<le> fst q" using Cons.prems(1) by (simp add: p)
    then show "n + (e - s) \<le> fst q \<and> fst q \<le> snd q \<and> snd q \<le> bd" using Cons.prems(2) [of q] q le by simp
  qed (use Cons.prems le in auto)
  with le Cons.prems(4) show ?case by (simp add: p total_len_def add.assoc)
qed (simp add: total_len_def)

lemma matched_len_sum:
  assumes "sel_wf sel" "\<And>r. r \<in> set (regions sel) \<Longrightarrow> max_r r < usize_max"
  shows "matched_len (map (region_matches ps d) (regions sel)) =
    Inr (total_len (concat (map (region_matches ps d) (regions sel))))"
proof -
  have "apart (concat (map (region_matches ps d) (regions sel)))"
    using assms(1) by (simp add: all_matches_apart sel_wf_def)
  moreover have "0 \<le> fst p \<and> fst p \<le> snd p \<and> snd p \<le> usize_max"
    if "p \<in> set (concat (map (region_matches ps d) (regions sel)))" for p
    using that assms(2) region_matches_inside [of p ps d] by fastforce
  ultimately show ?thesis
    using sum_ranges [of "concat (map (region_matches ps d) (regions sel))" 0 usize_max] by (auto simp: matched_len_def)
qed

lemma no_match_total:
  assumes "\<And>p. p \<in> set ms \<Longrightarrow> fst p < snd p"
  shows "total_len ms = 0 \<longleftrightarrow> ms = []"
  using assms [of "hd ms"] by (cases ms) (auto simp: total_len_def)

section \<open>Collapsing\<close>

definition match_region :: "selregion \<Rightarrow> range \<Rightarrow> selregion" where
  "match_region r p = inherit_direction (region_new (fst p) (snd p - 1)) r"

lemma match_region_ends: "fst p < snd p \<Longrightarrow> min_r (match_region r p) = fst p \<and> Suc (max_r (match_region r p)) = snd p"
  by (auto simp: match_region_def inherit_direction_def to_forward_def to_backward_def min_r_def max_r_def)

lemma match_region_pieces:
  assumes "apart ms" "\<And>p. p \<in> set ms \<Longrightarrow> min_r r \<le> fst p \<and> fst p < snd p \<and> snd p \<le> Suc (max_r r)"
  shows "pieces_of r (map (match_region r) ms)"
proof -
  have "sorted_wrt before (map (match_region r) ms)"
    unfolding sorted_wrt_map
  proof (rule sorted_wrt_mono_rel [OF _ assms(1)])
    fix p q assume "p \<in> set ms" "q \<in> set ms" "snd p \<le> fst q"
    with assms(2) [of p] assms(2) [of q] match_region_ends [of p r] match_region_ends [of q r]
    show "before (match_region r p) (match_region r q)" by (simp add: before_def)
  qed
  moreover have "min_r r \<le> min_r (match_region r p) \<and> max_r (match_region r p) \<le> max_r r" if "p \<in> set ms" for p
    using assms(2) [OF that] match_region_ends [of p r] by auto
  ultimately show ?thesis by (auto simp: pieces_of_def)
qed

lemma collapse_cuts:
  assumes "\<And>r. r \<in> set rs \<Longrightarrow> apart (f r) \<and> (\<forall>p \<in> set (f r). min_r r \<le> fst p \<and> fst p < snd p \<and> snd p \<le> Suc (max_r r))"
  shows "cuts collapse_closure (map f rs) rs (map (\<lambda>r. map (match_region r) (f r)) rs) []"
  using assms
proof (induction rs)
  case (Cons r rs)
  have r: "apart (f r)" "\<And>p. p \<in> set (f r) \<Longrightarrow> min_r r \<le> fst p \<and> fst p < snd p \<and> snd p \<le> Suc (max_r r)"
    using Cons.prems [of r] by auto
  have "rmap (\<lambda>(s, e). rbind (usub e 1) (\<lambda>e'. Inr (inherit_direction (region_new s e') r))) (f r) =
      Inr (map (match_region r) (f r))"
  proof (rule rmap_Inr_map)
    fix p assume "p \<in> set (f r)"
    then have "1 \<le> snd p" using r(2) [of p] by simp
    then show "(case p of (s, e) \<Rightarrow> rbind (usub e 1) (\<lambda>e'. Inr (inherit_direction (region_new s e') r))) = Inr (match_region r p)"
      by (cases p) (simp add: match_region_def)
  qed
  then have "collapse_closure (f r # map f rs) r = Inr (map f rs, map (match_region r) (f r))"
    by (simp add: collapse_closure_def)
  moreover have "cuts collapse_closure (map f rs) rs (map (\<lambda>r. map (match_region r) (f r)) rs) []"
    using Cons.prems by (intro Cons.IH) auto
  ultimately show ?case using match_region_pieces [OF r] by simp
qed simp

lemma cut_prefix: "concat (take k (map g rs)) = concat (map g (take k rs))"
  by (simp add: take_map)

lemma collapse_cuts_matches: "cuts collapse_closure (map (region_matches ps d) rs) rs
    (map (\<lambda>r. map (match_region r) (region_matches ps d r)) rs) []"
  by (rule collapse_cuts) (use region_matches_inside region_matches_apart in blast)

lemma match_region_ranges:
  "map (\<lambda>q. (min_r q, Suc (max_r q))) (concat (map (\<lambda>r. map (match_region r) (region_matches ps d r)) rs)) =
   concat (map (region_matches ps d) rs)"
proof (induction rs)
  case (Cons r rs)
  have "map (\<lambda>q. (min_r q, Suc (max_r q))) (map (match_region r) (region_matches ps d r)) = region_matches ps d r"
    unfolding map_map using match_region_ends region_matches_inside by (intro map_idI) (auto simp: prod_eq_iff)
  with Cons show ?case by simp
qed simp

text \<open>Only the ends of the regions matter for their extent.\<close>

lemma ends_ranges:
  assumes "map (\<lambda>r. (caret r, tail r)) rs = map (\<lambda>r. (caret r, tail r)) qs"
  shows "map (\<lambda>q. (min_r q, Suc (max_r q))) rs = map (\<lambda>q. (min_r q, Suc (max_r q))) qs"
proof -
  have eq: "map (\<lambda>q. (min_r q, Suc (max_r q))) xs =
      map (\<lambda>(c, t). (min c t, Suc (max c t))) (map (\<lambda>r. (caret r, tail r)) xs)" for xs
    by (simp add: min_r_def max_r_def)
  show ?thesis by (simp only: eq assms)
qed

lemma ends_spans:
  assumes "map (\<lambda>r. (caret r, tail r)) rs = map (\<lambda>r. (caret r, tail r)) qs"
  shows "span ` set rs = span ` set qs"
proof -
  have eq: "span ` set xs = (\<lambda>(a, c). {a ..< c}) ` set (map (\<lambda>q. (min_r q, Suc (max_r q))) xs)" for xs
    by (force simp: span_def image_iff)
  show ?thesis by (simp only: eq ends_ranges [OF assms])
qed

lemma ends_member:
  assumes "map (\<lambda>r. (caret r, tail r)) rs = map (\<lambda>r. (caret r, tail r)) qs" "q \<in> set rs"
  shows "\<exists>x \<in> set qs. min_r x = min_r q \<and> max_r x = max_r q"
proof -
  have "(min_r q, Suc (max_r q)) \<in> set (map (\<lambda>q. (min_r q, Suc (max_r q))) qs)"
    unfolding ends_ranges [OF assms(1), symmetric] using assms(2) by simp
  then show ?thesis by auto
qed

section \<open>Splitting at matches\<close>

definition width_r :: "selregion \<Rightarrow> nat" where
  "width_r r = Suc (max_r r) - min_r r"

lemma width_r_pos: "0 < width_r r"
  using min_le_max_r [of r] by (simp add: width_r_def)

lemma split_at_region_cases:
  assumes "min_r r \<le> s" "s < e" "e \<le> Suc (max_r r)" "max_r r < usize_max"
  shows "\<exists>l q. split_at_region r s (e - 1) = Inr (l, q) \<and>
    (case l of None \<Rightarrow> s = min_r r | Some a \<Rightarrow> min_r r < s \<and> min_r a = min_r r \<and> Suc (max_r a) = s) \<and>
    (case q of None \<Rightarrow> e = Suc (max_r r) | Some a \<Rightarrow> e \<le> max_r r \<and> min_r a = e \<and> max_r a = max_r r)"
  using assms by (cases e) (auto simp: split_at_region_def)

lemma split_ranges_pieces:
  assumes "apart ms" "\<And>p. p \<in> set ms \<Longrightarrow> min_r r \<le> fst p \<and> fst p < snd p \<and> snd p \<le> Suc (max_r r)" "max_r r < usize_max"
  shows "\<exists>ps. split_ranges r out ms = Inr (out @ ps) \<and> pieces_of r ps \<and>
    \<Union> (span ` set ps) = span r - (\<Union>p \<in> set ms. {fst p ..< snd p}) \<and>
    sum_list (map width_r ps) + total_len ms = width_r r"
  using assms
proof (induction ms arbitrary: r out)
  case Nil
  show ?case by (intro exI [of _ "[r]"]) (simp add: pieces_of_def total_len_def)
next
  case (Cons p ms)
  obtain s e where p: "p = (s, e)" by (cases p)
  have se: "min_r r \<le> s" "s < e" "e \<le> Suc (max_r r)" using Cons.prems(2) [of p] by (simp_all add: p)
  obtain l q where lq: "split_at_region r s (e - 1) = Inr (l, q)"
    "case l of None \<Rightarrow> s = min_r r | Some a \<Rightarrow> min_r r < s \<and> min_r a = min_r r \<and> Suc (max_r a) = s"
    "case q of None \<Rightarrow> e = Suc (max_r r) | Some a \<Rightarrow> e \<le> max_r r \<and> min_r a = e \<and> max_r a = max_r r"
    using split_at_region_cases [OF se Cons.prems(3)] by blast
  have e1: "usub e 1 = Inr (e - 1)" using se by simp
  let ?l = "case l of None \<Rightarrow> [] | Some a \<Rightarrow> [a]"
  have left: "out @ ?l = (case l of Some a \<Rightarrow> out @ [a] | None \<Rightarrow> out)" by (simp split: option.split)
  have lspan: "\<Union> (span ` set ?l) = {min_r r ..< s}" "sum_list (map width_r ?l) = s - min_r r"
    using lq(2) by (auto simp: span_def width_r_def split: option.splits)
  have later: "e \<le> fst x \<and> fst x < snd x \<and> snd x \<le> Suc (max_r r)" if "x \<in> set ms" for x
    using Cons.prems(1,2) that by (auto simp: p)
  show ?case
  proof (cases q)
    case None
    then have e: "e = Suc (max_r r)" using lq(3) by simp
    then have "ms = []" using later [of "hd ms"] by (cases ms) auto
    moreover have "pieces_of r ?l" using lq(2) se e by (auto simp: pieces_of_def split: option.splits)
    moreover have "sum_list (map width_r ?l) + total_len [p] = width_r r"
      unfolding lspan(2) using se e by (simp add: p width_r_def total_len_def)
    moreover have "\<Union> (span ` set ?l) = span r - (\<Union>p \<in> set [p]. {fst p ..< snd p})"
      unfolding lspan(1) using se e by (auto simp: p span_def)
    ultimately show ?thesis
      using lq(1) e1 None by (intro exI [of _ ?l]) (simp add: p Let_def flip: left)
  next
    case (Some a)
    then have a: "e \<le> max_r r" "min_r a = e" "max_r a = max_r r" using lq(3) by auto
    obtain ps where ps: "split_ranges a (out @ ?l) ms = Inr ((out @ ?l) @ ps)" "pieces_of a ps"
      "\<Union> (span ` set ps) = span a - (\<Union>p \<in> set ms. {fst p ..< snd p})"
      "sum_list (map width_r ps) + total_len ms = width_r a"
      using Cons.IH [of a "out @ ?l"] Cons.prems(1,3) later a by auto
    have "pieces_of r (?l @ ps)"
      using ps(2) lq(2) a se by (fastforce simp: pieces_of_def before_def split: option.splits)
    moreover have "\<Union> (span ` set (?l @ ps)) = span r - (\<Union>p \<in> set (p # ms). {fst p ..< snd p})"
    proof -
      have "{min_r r ..< s} \<inter> (\<Union>p \<in> set ms. {fst p ..< snd p}) = {}" using later se by force
      moreover have "span r = {min_r r ..< s} \<union> {s ..< e} \<union> span a" using se a by (auto simp: span_def)
      moreover have "{s ..< e} \<inter> span a = {}" using a by (auto simp: span_def)
      ultimately show ?thesis using lspan(1) ps(3) by (auto simp: p)
    qed
    moreover have "sum_list (map width_r (?l @ ps)) + total_len (p # ms) = width_r r"
    proof -
      have "width_r r = (s - min_r r) + (e - s) + width_r a" using a se by (simp add: width_r_def)
      then show ?thesis using lspan(2) ps(4) by (simp add: p total_len_def)
    qed
    ultimately show ?thesis
      using lq(1) e1 Some ps(1) by (intro exI [of _ "?l @ ps"]) (simp add: p Let_def flip: left)
  qed
qed

lemma split_cuts:
  assumes "\<And>r. r \<in> set rs \<Longrightarrow> \<exists>ps. split_ranges r [] (f r) = Inr ps \<and> pieces_of r ps \<and> Q r ps"
  shows "\<exists>pss. cuts split_closure (map f rs) rs pss [] \<and> list_all2 Q rs pss"
  using assms
proof (induction rs)
  case (Cons r rs)
  obtain ps where ps: "split_ranges r [] (f r) = Inr ps" "pieces_of r ps" "Q r ps" using Cons.prems [of r] by auto
  moreover obtain pss where "cuts split_closure (map f rs) rs pss []" "list_all2 Q rs pss" using Cons by auto
  moreover have "split_closure (f r # map f rs) r = Inr (map f rs, ps)" using ps(1) by (simp add: split_closure_def index_def)
  ultimately show ?case by (intro exI [of _ "ps # pss"]) simp
qed (intro exI [of _ "[]"], simp)

text \<open>The selected bytes of a region that no match covers, and what a split leaves of it.\<close>

definition left_of :: "pattern \<Rightarrow> rope \<Rightarrow> selregion \<Rightarrow> nat set" where
  "left_of ps d r = span r - (\<Union>p \<in> set (region_matches ps d r). {fst p ..< snd p})"

definition unmatched :: "pattern \<Rightarrow> rope \<Rightarrow> selregion list \<Rightarrow> nat set" where
  "unmatched ps d rs = (\<Union>r \<in> set rs. left_of ps d r)"

definition leaves :: "pattern \<Rightarrow> rope \<Rightarrow> selregion \<Rightarrow> selregion list \<Rightarrow> bool" where
  "leaves ps d r qs \<longleftrightarrow> pieces_of r qs \<and> \<Union> (span ` set qs) = left_of ps d r \<and>
     sum_list (map width_r qs) + total_len (region_matches ps d r) = width_r r"

lemma split_cuts_matches:
  assumes "\<And>r. r \<in> set rs \<Longrightarrow> max_r r < usize_max"
  shows "\<exists>pss. cuts split_closure (map (region_matches ps d) rs) rs pss [] \<and> list_all2 (leaves ps d) rs pss"
proof (rule split_cuts)
  fix r assume "r \<in> set rs"
  then obtain qs where "split_ranges r [] (region_matches ps d r) = Inr qs" "pieces_of r qs"
    "\<Union> (span ` set qs) = span r - (\<Union>p \<in> set (region_matches ps d r). {fst p ..< snd p})"
    "sum_list (map width_r qs) + total_len (region_matches ps d r) = width_r r"
    using split_ranges_pieces [where ms = "region_matches ps d r" and r = r and out = "[]",
        OF region_matches_apart region_matches_inside [of _ ps d] assms] by auto
  then show "\<exists>qs. split_ranges r [] (region_matches ps d r) = Inr qs \<and> pieces_of r qs \<and> leaves ps d r qs"
    by (auto simp: leaves_def left_of_def)
qed

lemma leaves_spans: "list_all2 (leaves ps d) rs pss \<Longrightarrow> \<Union> (span ` set (concat pss)) = unmatched ps d rs"
  by (induction rule: list_all2_induct) (auto simp: unmatched_def leaves_def)

lemma leaves_total: "list_all2 (leaves ps d) rs pss \<Longrightarrow>
    sum_list (map width_r (concat pss)) + total_len (concat (map (region_matches ps d) rs)) = sum_list (map width_r rs)"
  by (induction rule: list_all2_induct) (simp_all add: total_len_def leaves_def)

lemma leaves_inside: "list_all2 (leaves ps d) rs pss \<Longrightarrow> q \<in> set (concat pss) \<Longrightarrow> \<exists>r \<in> set rs. span q \<subseteq> span r"
  by (induction rule: list_all2_induct) (auto simp: leaves_def pieces_of_def span_def)

lemma no_span: "\<Union> (span ` set qs) = {} \<longleftrightarrow> qs = []"
  using min_le_max_r by (auto simp: span_def)

lemma no_width: "sum_list (map width_r qs) = 0 \<longleftrightarrow> qs = []"
  using width_r_pos [of "hd qs"] by (cases qs) simp_all

lemma sum_widths:
  assumes "sorted_wrt before rs" "\<And>r. r \<in> set rs \<Longrightarrow> n \<le> min_r r \<and> max_r r < usize_max" "n \<le> usize_max"
  shows "rfold (\<lambda>acc r. rbind (len_r r) (uadd acc)) n rs = Inr (n + sum_list (map width_r rs))"
  using assms
proof (induction rs arbitrary: n)
  case (Cons r rs)
  have r: "n \<le> min_r r" "max_r r < usize_max" using Cons.prems(2) [of r] by auto
  have "rfold (\<lambda>acc r. rbind (len_r r) (uadd acc)) (n + width_r r) rs = Inr (n + width_r r + sum_list (map width_r rs))"
  proof (rule Cons.IH)
    fix q assume q: "q \<in> set rs"
    then have "max_r r < min_r q" using Cons.prems(1) by (simp add: before_def)
    then show "n + width_r r \<le> min_r q \<and> max_r q < usize_max"
      using Cons.prems(2) [of q] q r min_le_max_r [of r] by (simp add: width_r_def)
  next
    show "n + width_r r \<le> usize_max" using r min_le_max_r [of r] by (simp add: width_r_def)
  qed (use Cons.prems in auto)
  moreover have "rbind (len_r r) (uadd n) = Inr (n + width_r r)"
    using r min_le_max_r [of r] by (simp add: len_r_def width_r_def Suc_diff_le)
  ultimately show ?case by (simp add: add.assoc)
qed simp

lemma len_bytes_sum:
  assumes "sel_wf sel" "\<And>r. r \<in> set (regions sel) \<Longrightarrow> max_r r < usize_max"
  shows "len_bytes sel = Inr (sum_list (map width_r (regions sel)))"
  using sum_widths [of "regions sel" 0] assms by (simp add: len_bytes_def sel_wf_def)

section \<open>Splitting by width\<close>

definition chunk :: "nat \<Rightarrow> selregion \<Rightarrow> nat \<Rightarrow> selregion" where
  "chunk w r i = with_direction (region_new (min_r r + i * w) (min (max_r r) (min_r r + i * w + w - 1))) (backward r)"

abbreviation chunks :: "nat \<Rightarrow> selregion \<Rightarrow> selregion list" where
  "chunks w r \<equiv> map (chunk w r) [0 ..< Suc ((max_r r - min_r r) div w)]"

lemma chunk_start: "0 < w \<Longrightarrow> i < Suc ((max_r r - min_r r) div w) \<Longrightarrow> min_r r + i * w \<le> max_r r"
  using min_le_max_r [of r] by (simp add: less_Suc_eq_le less_eq_div_iff_mult_less_eq)

lemma chunk_ends:
  assumes "0 < w" "i < Suc ((max_r r - min_r r) div w)"
  shows "min_r (chunk w r i) = min_r r + i * w" "max_r (chunk w r i) = min (max_r r) (min_r r + i * w + w - 1)"
  using chunk_start [OF assms] assms(1) by (auto simp: chunk_def with_direction_def Let_def min_r_def max_r_def)

lemma rmap_over_map: "rmap f (map g xs) = rmap (f \<circ> g) xs"
  by (induction xs) simp_all

lemma split_width_chunks:
  assumes "0 < width * n" "max_r r + width * n \<le> usize_max"
  shows "split_width width n r = Inr (chunks (width * n) r)"
proof -
  let ?w = "width * n"
  have w: "umul width n = Inr ?w" using assms by (simp add: umul_def)
  have "rmap (\<lambda>pos. rbind (umul width n) (\<lambda>w. rbind (uadd pos w) (\<lambda>e. rbind (usub e 1) (\<lambda>e'.
         Inr (with_direction (region_new pos (min (max_r r) e')) (backward r))))))
       (map (\<lambda>i. min_r r + i * ?w) [0 ..< Suc ((max_r r - min_r r) div ?w)]) = Inr (chunks ?w r)"
    unfolding rmap_over_map
  proof (rule rmap_Inr_map)
    fix i assume "i \<in> set [0 ..< Suc ((max_r r - min_r r) div ?w)]"
    then have le: "min_r r + i * ?w \<le> max_r r" using chunk_start [OF assms(1), of i r] by (simp del: upt_Suc)
    have "min_r r + i * ?w + ?w \<le> usize_max" using le assms(2) by linarith
    moreover have "1 \<le> min_r r + i * ?w + ?w" using assms(1) by linarith
    ultimately show "((\<lambda>pos. rbind (umul width n) (\<lambda>w. rbind (uadd pos w) (\<lambda>e. rbind (usub e 1) (\<lambda>e'.
         Inr (with_direction (region_new pos (min (max_r r) e')) (backward r)))))) \<circ> (\<lambda>i. min_r r + i * ?w)) i = Inr (chunk ?w r i)"
      by (simp add: w chunk_def)
  qed
  with w assms(1) show ?thesis by (simp add: split_width_def)
qed

lemma chunks_pieces: "0 < w \<Longrightarrow> pieces_of r (chunks w r)"
proof -
  assume w: "0 < w"
  have "before (chunk w r i) (chunk w r j)" if "i < j" "j < Suc ((max_r r - min_r r) div w)" for i j
  proof -
    have "Suc i * w \<le> j * w" using that(1) by (intro mult_le_mono1) simp
    then have "i * w + w \<le> j * w" by simp
    with w that chunk_ends [OF w, of i r] chunk_ends [OF w, of j r] show ?thesis by (auto simp: before_def min_def)
  qed
  then have "sorted_wrt before (chunks w r)"
    by (auto simp: sorted_wrt_iff_nth_less simp del: upt_Suc)
  moreover have "min_r r \<le> min_r q \<and> max_r q \<le> max_r r" if "q \<in> set (chunks w r)" for q
    using that chunk_ends [OF w] by (auto simp del: upt_Suc)
  ultimately show ?thesis by (simp add: pieces_of_def del: upt_Suc)
qed

lemma chunks_cover: "0 < w \<Longrightarrow> \<Union> (span ` set (chunks w r)) = span r"
proof (intro equalityI subsetI)
  fix x assume w: "0 < w" and "x \<in> \<Union> (span ` set (chunks w r))"
  then show "x \<in> span r" using chunks_pieces [OF w, of r] by (fastforce simp: pieces_of_def span_def)
next
  fix x assume w: "0 < w" and x: "x \<in> span r"
  define i where "i = (x - min_r r) div w"
  have i: "i < Suc ((max_r r - min_r r) div w)"
    using x unfolding i_def by (auto simp: span_def less_Suc_eq_le intro!: div_le_mono)
  have "i * w \<le> x - min_r r" "x - min_r r < i * w + w"
    using w by (simp_all add: i_def dividend_less_div_times add.commute)
  then have "x \<in> span (chunk w r i)" using x chunk_ends [OF w i] by (auto simp: span_def)
  with i show "x \<in> \<Union> (span ` set (chunks w r))" by (auto simp del: upt_Suc)
qed

lemma width_cuts:
  assumes "0 < width * n" "\<And>r. r \<in> set rs \<Longrightarrow> max_r r + width * n \<le> usize_max"
  shows "cuts (\<lambda>_ r. rbind (split_width width n r) (\<lambda>rs. Inr ((), rs))) () rs (map (chunks (width * n)) rs) ()"
  using assms(2)
proof (induction rs)
  case (Cons r rs)
  have "split_width width n r = Inr (chunks (width * n) r)" using assms(1) Cons.prems by (intro split_width_chunks) auto
  moreover have "cuts (\<lambda>_ r. rbind (split_width width n r) (\<lambda>rs. Inr ((), rs))) () rs (map (chunks (width * n)) rs) ()"
    using Cons by auto
  ultimately show ?case using chunks_pieces [OF assms(1)] by (simp del: upt_Suc)
qed simp

section \<open>The modes\<close>

lemma xi_parts: "xi_rope X cur_at bden delta_ok msk ins_ok \<Longrightarrow> xi_interval X \<and> xi_tree X cur_at"
  by (simp add: xi_rope_def)

lemma bounded_regions: "in_bounds n sel \<Longrightarrow> n < usize_max \<Longrightarrow> r \<in> set (regions sel) \<Longrightarrow> max_r r < usize_max"
  by (fastforce simp: in_bounds_def)

text \<open>
  C18: a search finds, in every region, the leftmost matches of the pattern that do not overlap, in
  order, and every match of the pattern inside a region overlaps one of them; the substring search, used for
  patterns without a wildcard, and the regular expression that is built for the others agree on this. A wildcard matches every byte except
  the newline.
\<close>

theorem matches_correct:
  assumes "xi_rope X cur_at bden delta_ok msk ins_ok" "finder_spec Y" "ps \<noteq> []"
    and "in_bounds (node_len (data b)) (selection b)" "node_len (data b) < usize_max"
  shows "\<exists>ms. map_selections_to_matches X Y ps b = Inr ms \<and> length ms = length (regions (selection b)) \<and>
    (\<forall>k < length ms. let r = regions (selection b) ! k; bs = region_bytes (data b) r in
       sorted_wrt (\<lambda>p q. snd p \<le> fst q) (ms ! k) \<and>
       (\<forall>(s, e) \<in> set (ms ! k). e = s + length ps \<and> min_r r \<le> s \<and> pattern_at ps bs (s - min_r r)) \<and>
       (\<forall>i. pattern_at ps bs i \<longrightarrow> (\<exists>(s, e) \<in> set (ms ! k). s \<le> min_r r + i \<and> min_r r + i < e)))"
proof -
  have sound: "e = s + length ps \<and> min_r r \<le> s \<and> pattern_at ps (region_bytes d r) (s - min_r r)"
    if "(s, e) \<in> set (region_matches ps d r)" for s e d r
    using that leftmost_sound by (fastforce simp: region_matches_def from_base_def)
  have complete: "\<exists>(s, e) \<in> set (region_matches ps d r). s \<le> min_r r + i \<and> min_r r + i < e"
    if "pattern_at ps (region_bytes d r) i" for d r i
  proof -
    note at = that
    have "i < length (region_bytes d r)" using that assms(3) by (cases ps) (auto simp: pattern_at_def)
    then obtain s e where "(s, e) \<in> set (leftmost (pattern_at ps (region_bytes d r)) (length ps) (length (region_bytes d r)) 0)"
      "s \<le> i" "i < e"
      using leftmost_complete [of "pattern_at ps (region_bytes d r)" i 0 "length (region_bytes d r)" "length ps"] at assms(3)
      by auto
    moreover from this have "from_base (min_r r) (s, e) \<in> set (region_matches ps d r)" by (simp add: region_matches_def)
    ultimately show ?thesis by (intro bexI [of _ "from_base (min_r r) (s, e)"]) (simp_all add: from_base_def)
  qed
  have "map_selections_to_matches X Y ps b = Inr (map (region_matches ps (data b)) (regions (selection b)))"
    using finder_spec.matches_leftmost [OF assms(2)] xi_parts [OF assms(1)] assms(3-5) by blast
  then show ?thesis
    using sound complete region_matches_apart
    by (intro exI [of _ "map (region_matches ps (data b)) (regions (selection b))"]) (auto simp: Let_def)
qed

text \<open>
  C17: collapsing to a pattern. Without a match nothing changes. Otherwise the selection becomes exactly
  the matches, in order, and the main selection is the last match at or before the old main region; when there is
  none, although a later region has a match, the program panics.
\<close>

theorem collapse_correct:
  assumes "xi_rope X cur_at bden delta_ok msk ins_ok" "finder_spec Y" "ps \<noteq> []" "sel_wf (selection b)"
    and "in_bounds (node_len (data b)) (selection b)" "node_len (data b) < usize_max"
    and found: "found = concat (map (region_matches ps (data b)) (regions (selection b)))"
    and so_far: "so_far = concat (map (region_matches ps (data b)) (take (Suc (main_selection (selection b))) (regions (selection b))))"
  shows "if found = [] then collapse_apply_search X Y ps b = Inr (Some (NewMode normal_new), b)
    else if so_far = [] then collapse_apply_search X Y ps b = Inl ArithmeticOverflow
    else \<exists>dy sel'. collapse_apply_search X Y ps b = Inr (Some (ModeAndDirtyBytes normal_new dy), b\<lparr>selection := sel'\<rparr>) \<and>
      sel_wf sel' \<and> main_selection sel' = length so_far - 1 \<and> map (\<lambda>r. (min_r r, Suc (max_r r))) (regions sel') = found"
proof -
  let ?rs = "regions (selection b)" and ?f = "region_matches ps (data b)"
  let ?g = "\<lambda>r. map (match_region r) (?f r)"
  let ?pre = "concat (take (Suc (main_selection (selection b))) (map ?g ?rs))"
  let ?s = "\<lparr>regions = flag_at (concat (map ?g ?rs)) (length ?pre - 1), main_selection = length ?pre - 1\<rparr>"
  have ms: "map_selections_to_matches X Y ps b = Inr (map ?f ?rs)"
    using finder_spec.matches_leftmost [OF assms(2)] xi_parts [OF assms(1)] assms(3,5,6) by blast
  note mx = bounded_regions [OF assms(5,6)]
  have n: "matched_len (map ?f ?rs) = Inr (total_len found)" using matched_len_sum [OF assms(4) mx] by (simp add: found)
  have z: "total_len found = 0 \<longleftrightarrow> found = []"
    by (rule no_match_total) (use region_matches_inside in \<open>fastforce simp: found\<close>)
  have pre: "length ?pre = length so_far"
    by (simp add: so_far take_map length_concat comp_def)
  note cut = collapse_cuts_matches [of ps "data b" ?rs]
  have "xi_interval X" using xi_parts [OF assms(1)] ..
  from xi_interval.buf_map_cut [OF this assms(4) cut refl mx]
  have eq: "if so_far = [] then buf_map_selections X collapse_closure (map ?f ?rs) b = Inl ArithmeticOverflow
      else \<exists>dy. buf_map_selections X collapse_closure (map ?f ?rs) b = Inr ([], dy, b\<lparr>selection := ?s\<rparr>)"
    using pre by (auto split: if_splits simp del: concat_eq_Nil_conv)
  have sel: "sel_wf ?s \<and> map (\<lambda>r. (min_r r, Suc (max_r r))) (regions ?s) = found" if "so_far \<noteq> []"
  proof -
    have "?pre \<noteq> []" using pre that by (metis length_0_conv)
    from cut_selection_ok [OF assms(4) cut refl this refl] show ?thesis
      using ends_ranges [of "regions ?s" "concat (map ?g ?rs)"] match_region_ranges [of ps "data b" ?rs] by (simp add: found)
  qed
  show ?thesis
  proof (cases "found = [] \<or> so_far = []")
    case True
    with ms n z eq assms(3) show ?thesis by (auto simp: collapse_apply_search_def)
  next
    case False
    then obtain dy where "buf_map_selections X collapse_closure (map ?f ?rs) b = Inr ([], dy, b\<lparr>selection := ?s\<rparr>)"
      using eq by auto
    then have "collapse_apply_search X Y ps b = Inr (Some (ModeAndDirtyBytes normal_new dy), b\<lparr>selection := ?s\<rparr>)"
      using ms n z False assms(3) by (simp add: collapse_apply_search_def)
    with sel False pre show ?thesis by auto
  qed
qed

text \<open>
  C6: splitting at a pattern keeps exactly the selected bytes that no match covers, cut where the matches
  are. When the matches cover everything nothing changes; when they cover the main region and all before it, but
  not all regions, the program panics.
\<close>

theorem split_correct:
  assumes "xi_rope X cur_at bden delta_ok msk ins_ok" "finder_spec Y" "ps \<noteq> []" "sel_wf (selection b)"
    and "in_bounds (node_len (data b)) (selection b)" "node_len (data b) < usize_max"
    and rest: "rest = unmatched ps (data b) (regions (selection b))"
    and so_far: "so_far = unmatched ps (data b) (take (Suc (main_selection (selection b))) (regions (selection b)))"
  shows "if rest = {} then split_apply_search X Y ps b = Inr (Some (NewMode normal_new), b)
    else if so_far = {} then split_apply_search X Y ps b = Inl ArithmeticOverflow
    else \<exists>dy sel'. split_apply_search X Y ps b = Inr (Some (ModeAndDirtyBytes normal_new dy), b\<lparr>selection := sel'\<rparr>) \<and>
      sel_wf sel' \<and> \<Union> (span ` set (regions sel')) = rest \<and>
      (\<forall>q \<in> set (regions sel'). \<exists>r \<in> set (regions (selection b)). span q \<subseteq> span r)"
proof -
  let ?rs = "regions (selection b)" and ?f = "region_matches ps (data b)" and ?k = "Suc (main_selection (selection b))"
  note mx = bounded_regions [OF assms(5,6)]
  have ms: "map_selections_to_matches X Y ps b = Inr (map ?f ?rs)"
    using finder_spec.matches_leftmost [OF assms(2)] xi_parts [OF assms(1)] assms(3,5,6) by blast
  have n: "matched_len (map ?f ?rs) = Inr (total_len (concat (map ?f ?rs)))" by (rule matched_len_sum [OF assms(4) mx])
  have len: "len_bytes (selection b) = Inr (sum_list (map width_r ?rs))" by (rule len_bytes_sum [OF assms(4) mx])
  obtain pss where cut: "cuts split_closure (map ?f ?rs) ?rs pss []" and lv: "list_all2 (leaves ps (data b)) ?rs pss"
    using split_cuts_matches [OF mx] by blast
  let ?pre = "concat (take ?k pss)"
  let ?s = "\<lparr>regions = flag_at (concat pss) (length ?pre - 1), main_selection = length ?pre - 1\<rparr>"
  have all: "rest = {} \<longleftrightarrow> concat pss = []" unfolding rest leaves_spans [OF lv, symmetric] by (rule no_span)
  have pre: "so_far = {} \<longleftrightarrow> ?pre = []"
    unfolding so_far leaves_spans [OF list_all2_takeI [OF lv], symmetric] by (rule no_span)
  have z: "total_len (concat (map ?f ?rs)) = sum_list (map width_r ?rs) \<longleftrightarrow> rest = {}"
    unfolding all no_width [symmetric] using leaves_total [OF lv] by linarith
  have "xi_interval X" using xi_parts [OF assms(1)] ..
  note eq = xi_interval.buf_map_cut [OF this assms(4) cut refl mx]
  show ?thesis
  proof (cases "rest = {} \<or> so_far = {}")
    case True
    with ms n len z eq pre assms(3) show ?thesis by (auto simp: split_apply_search_def)
  next
    case False
    then have ne: "?pre \<noteq> []" using pre by simp
    obtain dy where dy: "buf_map_selections X split_closure (map ?f ?rs) b = Inr ([], dy, b\<lparr>selection := ?s\<rparr>)"
      using eq unfolding if_not_P [OF ne] by blast
    note ok = cut_selection_ok [OF assms(4) cut refl ne refl]
    have sp: "span ` set (regions ?s) = span ` set (concat pss)"
      using ends_spans [OF conjunct2 [OF ok]] .
    have "split_apply_search X Y ps b = Inr (Some (ModeAndDirtyBytes normal_new dy), b\<lparr>selection := ?s\<rparr>)"
      using ms n len z False assms(3) dy by (simp add: split_apply_search_def)
    moreover have "\<exists>r \<in> set ?rs. span q \<subseteq> span r" if "q \<in> set (regions ?s)" for q
    proof -
      from ends_member [OF conjunct2 [OF ok] that] obtain x where "x \<in> set (concat pss)" "min_r x = min_r q" "max_r x = max_r q"
        by blast
      then show ?thesis using leaves_inside [OF lv, of x] by (simp add: span_def)
    qed
    moreover have "\<Union> (span ` set (regions ?s)) = rest" unfolding sp rest by (rule leaves_spans [OF lv])
    ultimately show ?thesis using False conjunct1 [OF ok] by (simp only: de_Morgan_disj if_False) blast
  qed
qed

text \<open>
  C25: splitting by width (\<open>b\<close>, \<open>w\<close>, \<open>d\<close>, \<open>q\<close>, \<open>o\<close> with a count) keeps
  exactly the selected bytes and cuts every region from its start into pieces of \<open>width * count\<close> bytes, the last
  one shorter; with the count 0 the program panics.
\<close>

theorem split_width_correct:
  assumes "xi_rope X cur_at bden delta_ok msk ins_ok" "sel_wf (selection b)"
    and "in_bounds (node_len (data b)) (selection b)" "node_len (data b) + w * to_count cs \<le> usize_max"
    and "node_len (data b) < usize_max"
    and "count_transition cs evt = Inr NotHandled" "event_to_action split_maps evt = Some (Width w)"
    and step: "step = w * to_count cs"
  shows "if step = 0 then split_transition X Y cs evt b = Inl AssertionFailed
    else \<exists>dy sel'. split_transition X Y cs evt b = Inr (Some (ModeAndDirtyBytes normal_new dy), b\<lparr>selection := sel'\<rparr>) \<and>
      sel_wf sel' \<and> \<Union> (span ` set (regions sel')) = \<Union> (span ` set (regions (selection b))) \<and>
      (\<forall>q \<in> set (regions sel'). \<exists>r \<in> set (regions (selection b)). span q \<subseteq> span r \<and>
        step dvd min_r q - min_r r \<and> max_r q = min (max_r r) (min_r q + step - 1))"
proof -
  let ?rs = "regions (selection b)" and ?f = "\<lambda>_ r. rbind (split_width w (to_count cs) r) (\<lambda>rs. Inr ((), rs))"
  have X: "xi_interval X" using xi_parts [OF assms(1)] ..
  note mx = bounded_regions [OF assms(3,5)]
  have tr: "split_transition X Y cs evt b = rbind (buf_map_selections X ?f () b) (\<lambda>(_, dy, b').
      Inr (Some (ModeAndDirtyBytes normal_new dy), b'))"
    using assms(6,7) by (simp add: split_transition_def)
  show ?thesis
  proof (cases "step = 0")
    case True
    then have "split_width w (to_count cs) r = Inl AssertionFailed" for r by (auto simp: step split_width_def umul_def)
    then have "buf_map_selections X ?f () b = Inl AssertionFailed"
      using assms(2) mx by (intro xi_interval.buf_map_fails [OF X]) (auto simp: sel_wf_def)
    with True tr show ?thesis by simp
  next
    case False
    have cut: "cuts ?f () ?rs (map (chunks step) ?rs) ()"
      unfolding step using False assms(3,4) by (intro width_cuts) (auto simp: step in_bounds_def)
    let ?pre = "concat (take (Suc (main_selection (selection b))) (map (chunks step) ?rs))"
    define sl where "sl = \<lparr>regions = flag_at (concat (map (chunks step) ?rs)) (length ?pre - 1), main_selection = length ?pre - 1\<rparr>"
    have ne: "?pre \<noteq> []" using assms(2) by (cases ?rs) (auto simp: sel_wf_def)
    obtain dy where dy: "buf_map_selections X ?f () b = Inr ((), dy, b\<lparr>selection := sl\<rparr>)"
      using xi_interval.buf_map_cut [OF X assms(2) cut refl mx] unfolding if_not_P [OF ne] sl_def by blast
    note ok = cut_selection_ok [OF assms(2) cut refl ne sl_def]
    have sp: "span ` set (regions sl) = span ` set (concat (map (chunks step) ?rs))"
      using ends_spans [OF conjunct2 [OF ok]] .
    have "\<Union> (span ` set (concat (map (chunks step) ?rs))) = \<Union> (span ` set ?rs)"
      using chunks_cover [of step] False by (fastforce simp del: upt_Suc)
    moreover have "\<exists>r \<in> set ?rs. span q \<subseteq> span r \<and> step dvd min_r q - min_r r \<and> max_r q = min (max_r r) (min_r q + step - 1)"
      if "q \<in> set (regions sl)" for q
    proof -
      from ends_member [OF conjunct2 [OF ok] that]
      obtain x where x: "x \<in> set (concat (map (chunks step) ?rs))" "min_r x = min_r q" "max_r x = max_r q" by blast
      then obtain r i where r: "r \<in> set ?rs" "i < Suc ((max_r r - min_r r) div step)" "x = chunk step r i"
        by (auto simp del: upt_Suc)
      then have q: "min_r q = min_r r + i * step" "max_r q = min (max_r r) (min_r r + i * step + step - 1)"
        using x(2,3) chunk_ends [of step i r] False by simp_all
      then show ?thesis using r(1) by (intro bexI [of _ r]) (auto simp: span_def)
    qed
    moreover have "split_transition X Y cs evt b = Inr (Some (ModeAndDirtyBytes normal_new dy), b\<lparr>selection := sl\<rparr>)"
      unfolding tr dy by simp
    ultimately show ?thesis
      unfolding if_not_P [OF False] sp [symmetric] using conjunct1 [OF ok] by (intro exI [of _ dy] exI [of _ sl] conjI ballI)
  qed
qed

section \<open>Witnesses\<close>

text \<open>Five bytes in two regions; the main one is the second or the first.\<close>

definition demo_hay :: "nat \<Rightarrow> ref_delta buffer" where
  "demo_hay k = buffer_default\<lparr>data := [[0x41, 0x0A, 0x41, 0x42, 0x41]],
     selection := \<lparr>regions = [\<lparr>caret = 1, tail = 0, main = k = 0\<rparr>, \<lparr>caret = 2, tail = 4, main = k = 1\<rparr>], main_selection = k\<rparr>\<rparr>"

lemma demo_hay_ok:
  "k < 2 \<Longrightarrow> sel_wf (selection (demo_hay k))" "in_bounds (node_len (data (demo_hay k))) (selection (demo_hay k))"
  "node_len (data (demo_hay k)) < usize_max" "node_len (data (demo_hay k)) = 5"
  by (simp_all add: demo_hay_def sel_wf_def in_bounds_def before_def min_r_def max_r_def usize_max_def)

theorem matches_correct_witness:
  "\<exists>ms. map_selections_to_matches ref_xi ref_finder [Literal 0x41, Wildcard] (demo_hay 1) = Inr ms \<and> ms = [[], [(2, 4)]] \<and>
    (\<forall>(s, e) \<in> set (ms ! 1). e = s + 2 \<and> 2 \<le> s \<and> pattern_at [Literal 0x41, Wildcard] [0x41, 0x42, 0x41] (s - 2))"
proof -
  have e: "map (region_matches [Literal 0x41, Wildcard] (data (demo_hay 1))) (regions (selection (demo_hay 1))) = [[], [(2, 4)]]"
    "regions (selection (demo_hay 1)) ! 1 = \<lparr>caret = 2, tail = 4, main = True\<rparr>"
    "region_bytes (data (demo_hay 1)) \<lparr>caret = 2, tail = 4, main = True\<rparr> = [0x41, 0x42, 0x41]"
    by (code_simp, code_simp, code_simp)
  note found = ref_find.matches_leftmost [OF ref_iv.xi_interval_axioms ref_tree.xi_tree_axioms list.distinct(2) demo_hay_ok(2,3),
      of "Literal 0x41" "[Wildcard]" 1, unfolded e(1)]
  obtain ms where ms: "map_selections_to_matches ref_xi ref_finder [Literal 0x41, Wildcard] (demo_hay 1) = Inr ms"
    and k: "\<And>k. k < length ms \<Longrightarrow> let r = regions (selection (demo_hay 1)) ! k; bs = region_bytes (data (demo_hay 1)) r in
       sorted_wrt (\<lambda>p q. snd p \<le> fst q) (ms ! k) \<and>
       (\<forall>(s, e) \<in> set (ms ! k). e = s + length [Literal 0x41, Wildcard] \<and> min_r r \<le> s \<and>
         pattern_at [Literal 0x41, Wildcard] bs (s - min_r r)) \<and>
       (\<forall>i. pattern_at [Literal 0x41, Wildcard] bs i \<longrightarrow> (\<exists>(s, e) \<in> set (ms ! k). s \<le> min_r r + i \<and> min_r r + i < e))"
    using matches_correct [OF ref_xi_rope ref_find.finder_spec_axioms list.distinct(2) demo_hay_ok(2,3),
        of "Literal 0x41" "[Wildcard]" 1] by blast
  have "ms = [[], [(2, 4)]]" using ms found by simp
  with k [of 1] e found show ?thesis by (simp add: Let_def min_r_def)
qed

theorem collapse_correct_witness:
  "collapse_apply_search ref_xi ref_finder [Literal 0x42] (demo_hay 0) = Inl ArithmeticOverflow \<and>
   (\<exists>dy sel'. collapse_apply_search ref_xi ref_finder [Literal 0x41] (demo_hay 1) =
      Inr (Some (ModeAndDirtyBytes normal_new dy), (demo_hay 1)\<lparr>selection := sel'\<rparr>) \<and> sel_wf sel' \<and>
      main_selection sel' = Suc 1 \<and> map (\<lambda>r. (min_r r, Suc (max_r r))) (regions sel') = [(0, 1), (2, 3), (4, 5)])"
proof -
  have e: "concat (map (region_matches [Literal 0x42] (data (demo_hay 0))) (regions (selection (demo_hay 0)))) = [(3, 4)]"
    "concat (map (region_matches [Literal 0x42] (data (demo_hay 0)))
      (take (Suc (main_selection (selection (demo_hay 0)))) (regions (selection (demo_hay 0))))) = []"
    "concat (map (region_matches [Literal 0x41] (data (demo_hay 1))) (regions (selection (demo_hay 1)))) = [(0, 1), (2, 3), (4, 5)]"
    "concat (map (region_matches [Literal 0x41] (data (demo_hay 1)))
      (take (Suc (main_selection (selection (demo_hay 1)))) (regions (selection (demo_hay 1))))) = [(0, 1), (2, 3), (4, 5)]"
    by code_simp+
  note c = collapse_correct [OF ref_xi_rope ref_find.finder_spec_axioms _ demo_hay_ok(1) demo_hay_ok(2,3) refl refl]
  show ?thesis
    using c [of "[Literal 0x42]" 0] c [of "[Literal 0x41]" 1] unfolding e by simp
qed

text \<open>With the first region main and wholly matched, the split panics.\<close>

theorem split_correct_witness:
  "split_apply_search ref_xi ref_finder [Literal 0x41, Literal 0x0A] (demo_hay 0) = Inl ArithmeticOverflow \<and>
   (\<exists>dy sel'. split_apply_search ref_xi ref_finder [Literal 0x42] (demo_hay 1) =
      Inr (Some (ModeAndDirtyBytes normal_new dy), (demo_hay 1)\<lparr>selection := sel'\<rparr>) \<and> sel_wf sel' \<and>
      \<Union> (span ` set (regions sel')) = {0, 1, 2, 4})"
proof -
  have e: "unmatched [Literal 0x41, Literal 0x0A] (data (demo_hay 0)) (regions (selection (demo_hay 0))) = {2, 3, 4}"
    "unmatched [Literal 0x41, Literal 0x0A] (data (demo_hay 0))
      (take (Suc (main_selection (selection (demo_hay 0)))) (regions (selection (demo_hay 0)))) = {}"
    "unmatched [Literal 0x42] (data (demo_hay 1)) (regions (selection (demo_hay 1))) = {0, 1, 2, 4}"
    "unmatched [Literal 0x42] (data (demo_hay 1))
      (take (Suc (main_selection (selection (demo_hay 1)))) (regions (selection (demo_hay 1)))) = {0, 1, 2, 4}"
    by code_simp+
  note c = split_correct [OF ref_xi_rope ref_find.finder_spec_axioms _ demo_hay_ok(1) demo_hay_ok(2,3) refl refl]
  show ?thesis
    using c [of "[Literal 0x41, Literal 0x0A]" 0] c [of "[Literal 0x42]" 1] unfolding e by auto
qed

theorem split_width_correct_witness:
  "split_transition ref_xi ref_finder (Count False 0) (press (CHR ''w'')) (demo_hay 1) = Inl AssertionFailed \<and>
   (\<exists>dy sel'. split_transition ref_xi ref_finder NoCount (press (CHR ''w'')) (demo_hay 1) =
      Inr (Some (ModeAndDirtyBytes normal_new dy), (demo_hay 1)\<lparr>selection := sel'\<rparr>) \<and> sel_wf sel' \<and>
      \<Union> (span ` set (regions sel')) = \<Union> (span ` set (regions (selection (demo_hay 1)))))"
proof -
  have e: "count_transition (Count False 0) (press (CHR ''w'')) = Inr NotHandled"
    "count_transition NoCount (press (CHR ''w'')) = Inr NotHandled"
    "event_to_action split_maps (press (CHR ''w'')) = Some (Width 2)" by code_simp+
  note c = split_width_correct [OF ref_xi_rope demo_hay_ok(1) demo_hay_ok(2) _ demo_hay_ok(3) _ e(3) refl]
  show ?thesis
    using c [of 1 "Count False 0" ref_finder] c [of 1 NoCount ref_finder] e(1,2) demo_hay_ok(4) [of 1]
    by (auto simp: to_count_def usize_max_def)
qed

end
