(* ===== verification/Command_Props.thy ===== *)
theory Command_Props
  imports Search_Props
begin

text \<open>
  The search prompt as a state machine (\<open>search.rs\<close>), its invariant by rule induction over what can be
  typed, and what writing all buffers does to the files and the buffers (\<open>command.rs\<close>).
\<close>

section \<open>The search prompt\<close>

text \<open>
  The cursor is in the pattern or just behind it; while half a byte has been typed it is on that byte, which
  only happens in hexadecimal input.
\<close>

definition search_wf :: "search_state \<Rightarrow> bool" where
  "search_wf s \<longleftrightarrow> pat_cursor s \<le> length (pattern s) \<and>
     (pat_half s \<noteq> None \<longrightarrow> pat_hex s \<and> pat_cursor s < length (pattern s))"

text \<open>The cursor an action works with: a byte half typed counts as typed.\<close>

definition full_cursor :: "search_state \<Rightarrow> nat" where
  "full_cursor s = pat_cursor s + (if pat_half s = None then 0 else 1)"

lemma full_cursor_le: "search_wf s \<Longrightarrow> full_cursor s \<le> length (pattern s)"
  by (auto simp: search_wf_def full_cursor_def)

lemma search_act_wf:
  assumes "search_wf s" "length (pattern s) < usize_max" "a \<noteq> SFinish"
  shows "\<exists>t. search_act X Y s (full_cursor s) a b = Inr (Some t, b) \<and> (\<forall>s'. t = NewMode (SearchMode s') \<longrightarrow> search_wf s')"
  using full_cursor_le [OF assms(1)] assms(2,3)
  by (cases a) (auto simp: search_wf_def insert_literal_def insert_wildcard_def vec_insert_def uadd_def pattern_remove_def
      vec_remove_def normal_new_def)

lemma to_digit16_hex: "is_ascii_hexdigit c \<Longrightarrow> \<exists>d. to_digit16 c = Some d \<and> d < 16"
  by (auto simp: is_ascii_hexdigit_def to_digit16_def)

lemma typed_wf:
  assumes "search_wf s" "length (pattern s) < usize_max"
  shows "\<exists>t. search_transition X Y s (Key (KeyEvent (Char c) mods)) b = Inr (t, b) \<and>
    (\<forall>s'. t = Some (NewMode (SearchMode s')) \<longrightarrow> search_wf s')"
proof (cases "event_to_action search_maps (Key (KeyEvent (Char c) mods))")
  case (Some a)
  have "a \<noteq> SFinish" using Some
    by (auto simp: search_maps_def event_to_action_def on_char_def on_key_def on_ctrl_def split: if_splits)
  with Some search_act_wf [OF assms, of a X Y b] full_cursor_le [OF assms(1)] assms(2) show ?thesis
    by (auto simp: search_transition_def full_cursor_def uadd_def)
next
  case None
  show ?thesis
    using None assms to_digit16_hex [of c]
    by (auto simp: search_transition_def search_wf_def insert_literal_def insert_half_literal_def vec_insert_def vec_set_def
        uadd_def split: option.splits)
qed

lemma search_step_total:
  assumes "search_wf s" "length (pattern s) < usize_max" "event_to_action search_maps evt \<noteq> Some SFinish"
  shows "\<exists>t. search_transition X Y s evt b = Inr (t, b)"
proof (cases "event_to_action search_maps evt")
  case (Some a)
  with search_act_wf [OF assms(1,2), of a X Y b] assms(3) full_cursor_le [OF assms(1)] assms(2) show ?thesis
    by (auto simp: search_transition_def full_cursor_def uadd_def)
next
  case None
  show ?thesis
  proof (cases "\<exists>c mods. evt = Key (KeyEvent (Char c) mods)")
    case True
    then show ?thesis using typed_wf [OF assms(1,2), of X Y _ _ b] by blast
  next
    case False
    with None show ?thesis by (auto simp: search_transition_def split: event.splits key_event.splits key_code.splits)
  qed
qed

text \<open>The searches that are applied leave the prompt.\<close>

lemma apply_search_leaves: "apply_search X Y a ps b \<noteq> Inr (Some (NewMode (SearchMode s')), b')"
  by (auto simp: apply_search_def split_apply_search_def collapse_apply_search_def normal_new_def res_simps
      split: acceptor.splits if_splits)

lemma search_act_keeps_wf:
  assumes "curs \<le> length (pattern s)" "search_act X Y s curs a b = Inr (Some (NewMode (SearchMode s')), b')"
  shows "search_wf s'"
  using assms apply_search_leaves [of X Y "acc s" "pattern s" b s' b']
  by (cases a) (auto simp: search_wf_def insert_literal_def insert_wildcard_def vec_insert_def pattern_remove_def
      vec_remove_def normal_new_def res_simps split: if_splits)

lemma search_step_wf:
  assumes "search_wf s" "search_transition X Y s evt b = Inr (Some (NewMode (SearchMode s')), b')"
  shows "search_wf s'"
proof (cases "event_to_action search_maps evt")
  case (Some a)
  with assms full_cursor_le [OF assms(1)] search_act_keeps_wf [of "full_cursor s" s X Y a b s' b'] show ?thesis
    by (auto simp: search_transition_def full_cursor_def res_simps split: if_splits)
next
  case None
  with assms show ?thesis
    by (auto simp: search_transition_def search_wf_def insert_literal_def insert_half_literal_def vec_insert_def vec_set_def
        res_simps split: event.splits key_event.splits key_code.splits option.splits if_splits)
qed

text \<open>The states of the prompt that typing leads to.\<close>

inductive search_reach :: "('c, 'b, 'd, 's) xi \<Rightarrow> finder \<Rightarrow> search_state \<Rightarrow> bool"
  for X :: "('c, 'b, 'd, 's) xi" and Y :: finder where
  opened: "search_new a h = SearchMode s \<Longrightarrow> search_reach X Y s"
| typed: "search_reach X Y s \<Longrightarrow> search_transition X Y s evt b = Inr (Some (NewMode (SearchMode s')), b') \<Longrightarrow>
    search_reach X Y s'"

lemma search_reach_wf: "search_reach X Y s \<Longrightarrow> search_wf s"
proof (induction rule: search_reach.induct)
  case (opened a h s)
  then show ?case by (auto simp: search_new_def search_wf_def)
qed (rule search_step_wf)

section \<open>Writing all buffers\<close>

definition named :: "fs \<Rightarrow> 'd buffer \<Rightarrow> path option" where
  "named F b = map_option (resolve F) (path b)"

definition cleaned :: "'d buffer \<Rightarrow> 'd buffer" where
  "cleaned b = (if path b = None then b else b\<lparr>dirty := False\<rparr>)"

definition refused :: "fs \<Rightarrow> 'd buffer \<Rightarrow> bool" where
  "refused F b \<longleftrightarrow> (\<exists>q. named F b = Some q \<and> \<not> writable F q)"

text \<open>The files after writing some of the buffers, later ones over earlier ones.\<close>

definition saved :: "fs \<Rightarrow> 'd buffer list \<Rightarrow> fs" where
  "saved F bs = F\<lparr>files := fold (\<lambda>b m. case named F b of None \<Rightarrow> m | Some q \<Rightarrow> m(q \<mapsto> node_bytes (data b))) bs (files F)\<rparr>"

text \<open>The files after a write of a buffer that failed: untouched, or cut off inside its document.\<close>

definition torn :: "fs \<Rightarrow> 'd buffer \<Rightarrow> fs" where
  "torn F b = (case named F b of None \<Rightarrow> F
     | Some q \<Rightarrow> (case left_over F q of None \<Rightarrow> F
         | Some n \<Rightarrow> F\<lparr>files := (files F)(q \<mapsto> take n (node_bytes (data b)))\<rparr>))"

text \<open>
  Every buffer of the list that has a path is in its file, the last one when several have the same file, and no
  other file is changed.
\<close>

definition on_disk :: "fs \<Rightarrow> 'd buffer list \<Rightarrow> fs \<Rightarrow> bool" where
  "on_disk F bs F' \<longleftrightarrow>
     (\<forall>xs b ys q. bs = xs @ b # ys \<longrightarrow> named F b = Some q \<longrightarrow> Some q \<notin> named F ` set ys \<longrightarrow>
       files F' q = Some (node_bytes (data b))) \<and>
     (\<forall>q. Some q \<notin> named F ` set bs \<longrightarrow> files F' q = files F q)"

lemma saved_fields [simp]: "named (saved F bs) = named F" "refused (saved F bs) = refused F" "left_over (saved F bs) = left_over F"
  "writable (saved F bs) = writable F" "resolve (saved F bs) = resolve F" "err_text (saved F bs) = err_text F"
  by (auto simp: saved_def named_def refused_def fun_eq_iff)

lemma saved_Cons: "saved F (b # bs) = saved (saved F [b]) bs"
  by (auto simp: saved_def named_def cong: option.case_cong intro!: arg_cong2 [where f = fold] ext)

lemma saved_none [simp]: "path b = None \<Longrightarrow> saved F [b] = F"
  by (simp add: saved_def named_def)

lemma saved_other: "Some q \<notin> named F ` set bs \<Longrightarrow> files (saved F bs) q = files F q"
proof -
  have "Some q \<notin> named F ` set bs \<Longrightarrow>
      fold (\<lambda>b m. case named F b of None \<Rightarrow> m | Some q \<Rightarrow> m(q \<mapsto> node_bytes (data b))) bs m q = m q" for m
    by (induction bs arbitrary: m) (auto split: option.split)
  then show "Some q \<notin> named F ` set bs \<Longrightarrow> ?thesis" by (simp add: saved_def)
qed

lemma saved_last:
  assumes "bs = xs @ b # ys" "named F b = Some q" "Some q \<notin> named F ` set ys"
  shows "files (saved F bs) q = Some (node_bytes (data b))"
proof -
  have "fold (\<lambda>b m. case named F b of None \<Rightarrow> m | Some q \<Rightarrow> m(q \<mapsto> node_bytes (data b))) ys m q = m q" for m
    using assms(3) by (induction ys arbitrary: m) (auto split: option.split)
  then show ?thesis using assms(1,2) by (simp add: saved_def)
qed

lemma saved_on_disk: "on_disk F bs (saved F bs)"
  unfolding on_disk_def using saved_last [of bs _ _ _ F] saved_other [of _ F bs] by blast

lemma torn_files:
  assumes "named F b = Some q"
  shows "q' \<noteq> q \<Longrightarrow> files (torn F b) q' = files F q'"
    and "files (torn F b) q = files F q \<or> (\<exists>n. files (torn F b) q = Some (take n (node_bytes (data b))))"
  using assms by (auto simp: torn_def split: option.split)

context xi_rope
begin

lemma whole_document: "slice_to_cow X r (full_range r) = Inr (node_bytes r)"
  using slice_to_cow_bytes [of 0 r "node_len r"] by (simp add: full_range_def)

lemma write_one:
  assumes "path b = Some p"
  shows "fs_write F p (node_bytes (data b)) =
    (if refused F b then (Inl (IoError (err_text F p)), torn F b) else (Inr (), saved F [b]))"
  using assms by (auto simp: fs_write_def refused_def named_def saved_def torn_def split: option.split)

lemma write_bufs_all: "\<forall>b \<in> set bs. \<not> refused F b \<Longrightarrow> write_bufs X F bs = Inr (None, map cleaned bs, saved F bs)"
proof (induction bs arbitrary: F)
  case Nil
  then show ?case by (simp add: saved_def)
next
  case (Cons b bs)
  then have "write_bufs X (saved F [b]) bs = Inr (None, map cleaned bs, saved F (b # bs))"
    by (simp add: saved_Cons [of F b bs])
  with Cons.prems show ?case
    by (cases "path b") (simp_all add: whole_document write_one cleaned_def)
qed

lemma write_bufs_stops:
  assumes "bs = xs @ b # ys" "\<forall>x \<in> set xs. \<not> refused F x" "refused F b"
  shows "\<exists>e. write_bufs X F bs = Inr (Some e, map cleaned xs @ b # ys, torn (saved F xs) b)"
  using assms
proof (induction xs arbitrary: F bs)
  case Nil
  then obtain p where "path b = Some p" by (auto simp: refused_def named_def)
  with Nil show ?case by (simp add: whole_document write_one saved_def)
next
  case (Cons x xs)
  obtain e where "write_bufs X (saved F [x]) (xs @ b # ys) = Inr (Some e, map cleaned xs @ b # ys, torn (saved F (x # xs)) b)"
    using Cons.IH [of "xs @ b # ys" "saved F [x]"] Cons.prems by (auto simp: saved_Cons [of F x xs])
  with Cons.prems show ?case
    by (cases "path x") (auto simp: whole_document write_one cleaned_def)
qed

end

section \<open>Correctness\<close>

text \<open>
  C26: whatever is typed into the search prompt, its cursor stays in the pattern and a half-typed byte is
  under it, and no key but the one that starts the search can make it panic or touch the buffer, unless the
  pattern fills the address space.
\<close>

theorem search_prompt_safe:
  assumes "search_reach X Y s" "length (pattern s) < usize_max"
  shows "search_wf s \<and> (\<forall>evt b. event_to_action search_maps evt \<noteq> Some SFinish \<longrightarrow> (\<exists>t. search_transition X Y s evt b = Inr (t, b)))"
  using search_reach_wf [OF assms(1)] search_step_total [OF _ assms(2)] by blast

text \<open>
  C16: \<open>:wa\<close> writes every buffer that has a path, exactly its document; no named buffer is dirty any more, so
  that \<open>:q\<close> quits, and no other file is touched. When a file cannot be written it stops there: the buffers in
  front are written and clean, the others and their files are as before, and the file that failed is unchanged or holds
  the beginning of its document. \<open>:wq\<close> does the same with all the buffers, and not, as \<open>README.md\<close> says of
  it, with the current one, and then quits; it does not quit when any buffer, the current or another, cannot be written.
\<close>

theorem write_all_correct:
  assumes "xi_rope X cur_at bden delta_ok msk ins_ok"
  shows "if \<exists>b \<in> set (buf_list c). refused F b
    then \<exists>xs b ys q e G F'. buf_list c = xs @ b # ys \<and> (\<forall>x \<in> set xs. \<not> refused F x) \<and> refused F b \<and> named F b = Some q \<and>
      cmd_write_all X (c, F) = Inr (write_failed e, (c\<lparr>buf_list := map cleaned xs @ b # ys\<rparr>, F')) \<and>
      cmd_write_quit X (c, F) = Inr (write_failed e, (c\<lparr>buf_list := map cleaned xs @ b # ys\<rparr>, F')) \<and>
      on_disk F xs G \<and> (\<forall>q'. q' \<noteq> q \<longrightarrow> files F' q' = files G q') \<and>
      (files F' q = files G q \<or> (\<exists>n. files F' q = Some (take n (node_bytes (data b)))))
    else \<exists>F'. cmd_write_all X (c, F) = Inr (NewMode normal_new, (c\<lparr>buf_list := map cleaned (buf_list c)\<rparr>, F')) \<and>
      cmd_write_quit X (c, F) = Inr (NewMode Quitting, (c\<lparr>buf_list := map cleaned (buf_list c)\<rparr>, F')) \<and>
      cmd_quit (c\<lparr>buf_list := map cleaned (buf_list c)\<rparr>, F') = Inr (NewMode Quitting, (c\<lparr>buf_list := map cleaned (buf_list c)\<rparr>, F')) \<and>
      on_disk F (buf_list c) F'"
proof (cases "\<exists>b \<in> set (buf_list c). refused F b")
  case True
  obtain xs b ys where bs: "buf_list c = xs @ b # ys" "refused F b" "\<forall>x \<in> set xs. \<not> refused F x"
    using split_list_first_prop [OF True] by blast
  obtain q where q: "named F b = Some q" using bs(2) by (auto simp: refused_def)
  obtain e where "write_bufs X F (buf_list c) = Inr (Some e, map cleaned xs @ b # ys, torn (saved F xs) b)"
    using xi_rope.write_bufs_stops [OF assms bs(1,3,2)] by blast
  then have "cmd_write_all X (c, F) = Inr (write_failed e, (c\<lparr>buf_list := map cleaned xs @ b # ys\<rparr>, torn (saved F xs) b))"
    "cmd_write_quit X (c, F) = Inr (write_failed e, (c\<lparr>buf_list := map cleaned xs @ b # ys\<rparr>, torn (saved F xs) b))"
    by (simp_all add: cmd_write_all_def cmd_write_quit_def cmd_write_then_def)
  with bs q torn_files [of "saved F xs" b q] saved_on_disk [of F xs] show ?thesis
    unfolding if_P [OF True]
    by (intro exI [of _ xs] exI [of _ b] exI [of _ ys] exI [of _ q] exI [of _ e] exI [of _ "saved F xs"]
        exI [of _ "torn (saved F xs) b"] conjI) auto
next
  case False
  then have "write_bufs X F (buf_list c) = Inr (None, map cleaned (buf_list c), saved F (buf_list c))"
    using xi_rope.write_bufs_all [OF assms] by blast
  then have "cmd_write_all X (c, F) = Inr (NewMode normal_new, (c\<lparr>buf_list := map cleaned (buf_list c)\<rparr>, saved F (buf_list c)))"
    "cmd_write_quit X (c, F) = Inr (NewMode Quitting, (c\<lparr>buf_list := map cleaned (buf_list c)\<rparr>, saved F (buf_list c)))"
    by (simp_all add: cmd_write_all_def cmd_write_quit_def cmd_write_then_def)
  moreover have "\<not> list_ex (\<lambda>b. dirty b \<and> path b \<noteq> None) (map cleaned (buf_list c))"
    by (auto simp: list_ex_iff cleaned_def)
  ultimately show ?thesis using False saved_on_disk by (auto simp: cmd_quit_def)
qed

section \<open>Witnesses\<close>

definition demo_prompt :: "pattern \<Rightarrow> nat \<Rightarrow> u8 option \<Rightarrow> search_state" where
  "demo_prompt ps k half = \<lparr>pattern = ps, pat_cursor = k, pat_hex = True, pat_half = half, acc = CollapseAcc\<rparr>"

text \<open>Typing \<open>4\<close> and \<open>1\<close> enters the byte 0x41.\<close>

lemma demo_typed: "search_reach ref_xi ref_finder (demo_prompt [Literal 0x41] 1 None)"
proof -
  have "search_transition ref_xi ref_finder (demo_prompt [] 0 None) (press (CHR ''4'')) buffer_default =
      Inr (Some (NewMode (SearchMode (demo_prompt [Literal 0x40] 0 (Some 0x40)))), buffer_default)"
    "search_transition ref_xi ref_finder (demo_prompt [Literal 0x40] 0 (Some 0x40)) (press (CHR ''1'')) buffer_default =
      Inr (Some (NewMode (SearchMode (demo_prompt [Literal 0x41] 1 None))), buffer_default)"
    by (simp_all add: search_transition_def demo_prompt_def search_maps_def press_def key_defs insert_literal_def
        insert_half_literal_def vec_insert_def vec_set_def is_ascii_hexdigit_def to_digit16_def uadd_def usize_max_def
        no_modifiers_def)
  with search_reach.opened [of CollapseAcc True "demo_prompt [] 0 None"] show ?thesis
    by (metis search_reach.typed search_new_def demo_prompt_def)
qed

theorem search_prompt_safe_witness:
  "search_wf (demo_prompt [Literal 0x41] 1 None) \<and>
    (\<exists>t. search_transition ref_xi ref_finder (demo_prompt [Literal 0x41] 1 None) (press (CHR ''f'')) buffer_default = Inr (t, buffer_default))"
proof -
  have "event_to_action search_maps (press (CHR ''f'')) \<noteq> Some SFinish"
    by (simp add: search_maps_def press_def key_defs)
  then show ?thesis
    using search_prompt_safe [OF demo_typed] by (simp add: demo_prompt_def usize_max_def)
qed

definition demo_disk :: fs where
  "demo_disk = \<lparr>resolve = id, files = Map.empty, readable = (\<lambda>_. True), file_error = (\<lambda>_ _. False),
     writable = (\<lambda>p. p \<noteq> str ''ro''), left_over = (\<lambda>_. Some 0), err_text = (\<lambda>_. str ''denied''), read_some = id\<rparr>"

definition demo_open :: "string \<Rightarrow> ref_delta buffr_collection" where
  "demo_open p = with_current_buffer ((from_data_and_path ref_xi [7] (Some (str p)))\<lparr>dirty := True\<rparr>)"

text \<open>A collection of two buffers: the current one can be written, the other one cannot.\<close>

definition demo_two :: "ref_delta buffr_collection" where
  "demo_two = \<lparr>buf_list = buf_list (demo_open ''a'') @ buf_list (demo_open ''ro''), cur_buf_index = 0\<rparr>"

theorem write_all_correct_witness:
  "(\<exists>c F'. cmd_write_all ref_xi (demo_open ''a'', demo_disk) = Inr (NewMode normal_new, (c, F')) \<and> files F' (str ''a'') = Some [7]) \<and>
   (\<exists>e w. cmd_write_quit ref_xi (demo_two, demo_disk) = Inr (write_failed e, w))"
proof -
  have r: "refused demo_disk b \<longleftrightarrow> path b = Some (str ''ro'')" for b :: "ref_delta buffer"
    by (auto simp: refused_def named_def demo_disk_def)
  have l: "buf_list (demo_open p) = [(from_data_and_path ref_xi [7] (Some (str p)))\<lparr>dirty := True\<rparr>]" for p
    by (simp add: demo_open_def with_current_buffer_def)
  have "str ''a'' \<noteq> str ''ro''" by (simp add: str_def)
  then have no: "\<not> (\<exists>b \<in> set (buf_list (demo_open ''a'')). refused demo_disk b)"
    unfolding r l by (simp add: from_data_and_path_def)
  have ro: "\<exists>b \<in> set (buf_list demo_two). refused demo_disk b"
    unfolding r by (simp add: demo_two_def l from_data_and_path_def)
  obtain F' where F': "cmd_write_all ref_xi (demo_open ''a'', demo_disk) =
      Inr (NewMode normal_new, ((demo_open ''a'')\<lparr>buf_list := map cleaned (buf_list (demo_open ''a''))\<rparr>, F'))"
    "on_disk demo_disk (buf_list (demo_open ''a'')) F'"
    using write_all_correct [OF ref_xi_rope, of "demo_open ''a''" demo_disk] unfolding if_not_P [OF no] by blast
  have "files F' (str ''a'') = Some [7]"
    using F'(2) unfolding l on_disk_def
    by (auto simp: named_def demo_disk_def from_data_and_path_def ref_tree.rope_from_vec_bytes elim!: allE [of _ "[]"])
  moreover have "\<exists>e w. cmd_write_quit ref_xi (demo_two, demo_disk) = Inr (write_failed e, w)"
    using write_all_correct [OF ref_xi_rope, of demo_two demo_disk] unfolding if_P [OF ro] by blast
  ultimately show ?thesis using F'(1) by blast
qed

end
