(* ===== verification/Typing_Props.thy ===== *)
theory Typing_Props
  imports Edit_Selections Mode_Machine
begin

text \<open>
  A typing session as a whole: every key of the insert mode is an incomplete edit of its own, made at carets
  that the edits before have moved; together they insert the text once at each caret, and after the mode is
  left one undo takes all of it back.
\<close>

section \<open>Inserting twice\<close>

definition ins :: "bytes \<Rightarrow> nat list \<Rightarrow> edit list" where
  "ins t cs = map (\<lambda>c. (c, c, t)) cs"

lemma ins_simps [simp]: "ins t [] = []" "ins t (c # cs) = (c, c, t) # ins t cs"
  by (simp_all add: ins_def)

lemma ins_carets: "map (insert_edit t) rs = ins t (map caret rs)"
  by (induction rs) (simp_all add: insert_edit_def)

text \<open>Where the carets of an insertion land: behind the text inserted there.\<close>

lemma coord_first: "\<forall>c \<in> set cs. l < c \<Longrightarrow> coord l (ins t cs) l = 0"
  by (cases cs) auto

lemma coord_later: "c \<le> x \<Longrightarrow> coord l (ins t (c # cs)) x = c - l + length t + coord c (ins t cs) x"
  by (simp add: max_def)

lemma coord_carets:
  assumes "sorted_wrt (<) cs" "\<forall>c \<in> set cs. l \<le> c" "j < length cs"
  shows "coord l (ins t cs) (cs ! j) = cs ! j - l + Suc j * length t"
  using assms
proof (induction cs arbitrary: l j)
  case (Cons c cs)
  show ?case
  proof (cases j)
    case 0
    with Cons.prems coord_first [of cs c t] show ?thesis by (simp add: coord_later del: ins_simps)
  next
    case (Suc i)
    then have i: "i < length cs" using Cons.prems(3) by simp
    then have x: "c < cs ! i" "l \<le> c" using Cons.prems(1,2) nth_mem [OF i] by auto
    have "coord c (ins t cs) (cs ! i) = cs ! i - c + Suc i * length t"
      using Cons.prems(1) i by (intro Cons.IH) auto
    with x Suc show ?thesis using coord_later [of c "cs ! i" l t cs] by simp
  qed
qed simp

text \<open>Inserting behind the text just inserted is inserting both texts at once.\<close>

lemma insert_twice:
  assumes "sorted_wrt (<) cs" "\<forall>c \<in> set cs. l \<le> c \<and> c \<le> length xs"
  shows "apply_edits (length P) (ins t2 (map (\<lambda>x. length P + coord l (ins t1 cs) x) cs)) (P @ apply_edits l (ins t1 cs) xs) =
    apply_edits l (ins (t1 @ t2) cs) xs"
  using assms
proof (induction cs arbitrary: l P)
  case (Cons c cs)
  let ?a = "take (c - l) (drop l xs)"
  let ?P = "P @ ?a @ t1"
  have c: "l \<le> c" "c \<le> length xs" using Cons.prems(2) by auto
  then have len: "length ?P = length P + (c - l + length t1)" by simp
  have head: "coord l (ins t1 (c # cs)) c = c - l + length t1"
    using coord_later [of c c l t1 cs] coord_first [of cs c t1] Cons.prems(1) by simp
  have tl: "map (\<lambda>x. length P + coord l (ins t1 (c # cs)) x) cs = map (\<lambda>x. length ?P + coord c (ins t1 cs) x) cs"
    using Cons.prems(1) len by (auto simp: coord_later simp del: ins_simps)
  have IH: "apply_edits (length ?P) (ins t2 (map (\<lambda>x. length ?P + coord c (ins t1 cs) x) cs)) (?P @ apply_edits c (ins t1 cs) xs) =
      apply_edits c (ins (t1 @ t2) cs) xs"
    using Cons.prems by (intro Cons.IH) auto
  have doc: "P @ apply_edits l (ins t1 (c # cs)) xs = ?P @ apply_edits c (ins t1 cs) xs" by simp
  have "take (length ?P - length P) (drop (length P) (?P @ apply_edits c (ins t1 cs) xs)) = ?a @ t1" using len c by simp
  then have "apply_edits (length P) ((length ?P, length ?P, t2) # ins t2 (map (\<lambda>x. length ?P + coord c (ins t1 cs) x) cs))
      (?P @ apply_edits c (ins t1 cs) xs) = apply_edits l (ins (t1 @ t2) (c # cs)) xs"
    unfolding apply_edits.simps IH by simp
  then show ?case unfolding doc list.map(2) head tl ins_simps(2) [of t2] len [symmetric] .
qed simp

lemma insert_nothing: "sorted_wrt (<) cs \<Longrightarrow> \<forall>c \<in> set cs. l \<le> c \<and> c \<le> length xs \<Longrightarrow> l \<le> length xs \<Longrightarrow>
    apply_edits l (ins [] cs) xs = drop l xs"
proof (induction cs arbitrary: l)
  case (Cons c cs)
  have "apply_edits c (ins [] cs) xs = drop c xs" using Cons.prems by (intro Cons.IH) auto
  with Cons.prems show ?case using append_take_drop_id [of "c - l" "drop l xs"] by simp
qed simp

section \<open>The carets after a strict map\<close>

context strict_region_map
begin

lemma strict_loop_carets:
  assumes "map_loop (single g upd) m i rs st out nm = Inr (st', out', nm')"
    and "sorted_wrt before rs" "\<forall>r \<in> set rs. ok r"
    and "\<forall>q \<in> set out. \<forall>r \<in> set rs. \<forall>r'. g r = Inr r' \<longrightarrow> before q r'"
  shows "map caret out' = map caret out @ map (\<lambda>r. caret (projr (g r))) rs"
  using assms
proof (induction rs arbitrary: i st out nm)
  case (Cons r rs)
  obtain r' where r': "g r = Inr r'" using strict_total Cons.prems(3) by auto
  have push: "push_region out r' = Inr (out @ [r'])"
    using Cons.prems(4) r' by (auto simp: push_region_def overlaps_def before_def not_le)
  let ?out = "if i = m then flag_last (out @ [r']) else out @ [r']"
  have loop: "map_loop (single g upd) m (Suc i) rs (upd st r r') ?out (if i = m then length (out @ [r']) - 1 else nm) =
      Inr (st', out', nm')"
    using Cons.prems(1) push r' unfolding map_loop_single by simp
  have "before r' q'" if "q \<in> set rs" "g q = Inr q'" for q q'
    using strict [of r q r' q'] Cons.prems(2,3) that r' by simp
  then have "\<forall>q \<in> set (out @ [r']). \<forall>x \<in> set rs. \<forall>x'. g x = Inr x' \<longrightarrow> before q x'" using Cons.prems(4) by auto
  then have "\<forall>q \<in> set ?out. \<forall>x \<in> set rs. \<forall>x'. g x = Inr x' \<longrightarrow> before q x'"
    by (simp add: flag_last_def list_update_append)
  then have "map caret out' = map caret ?out @ map (\<lambda>r. caret (projr (g r))) rs"
    using Cons.prems(2,3) by (intro Cons.IH [OF loop]) auto
  moreover have "map caret ?out = map caret out @ [caret r']" by (simp add: flag_last_def list_update_append)
  ultimately show ?case using r' by simp
qed simp

end

section \<open>One key\<close>

definition carets :: "selection \<Rightarrow> nat list" where
  "carets sel = map caret (regions sel)"

lemma carets_sorted: "sel_wf sel \<Longrightarrow> sorted_wrt (<) (carets sel)"
proof -
  have "sorted_wrt before rs \<Longrightarrow> sorted_wrt (<) (map caret rs)" for rs
    by (induction rs) (auto dest: before_fields)
  then show "sel_wf sel \<Longrightarrow> ?thesis" by (simp add: sel_wf_def carets_def)
qed

lemma carets_bounded: "in_bounds n sel \<Longrightarrow> \<forall>c \<in> set (carets sel). 0 \<le> c \<and> c \<le> n"
  by (auto simp: carets_def in_bounds_def max_r_def)

text \<open>What typing the text \<open>t\<close> makes of a buffer.\<close>

definition after_typing :: "'d buffer \<Rightarrow> bytes \<Rightarrow> 'd buffer \<Rightarrow> bool" where
  "after_typing b t b' \<longleftrightarrow> node_bytes (data b') = apply_edits 0 (ins t (carets (selection b))) (node_bytes (data b)) \<and>
     sel_wf (selection b') \<and> in_bounds (node_len (data b')) (selection b') \<and>
     length (carets (selection b')) = length (carets (selection b)) \<and>
     (\<forall>j < length (carets (selection b)). carets (selection b') ! j = carets (selection b) ! j + Suc j * length t)"

lemma after_typing_start:
  assumes "sel_wf (selection b)" "in_bounds (node_len (data b)) (selection b)"
  shows "after_typing b [] b"
  using assms insert_nothing [OF carets_sorted carets_bounded, of "selection b" "node_bytes (data b)"]
  by (simp add: after_typing_def)

lemma after_typing_trans:
  assumes "sel_wf (selection b)" "in_bounds (node_len (data b)) (selection b)" "after_typing b t b1" "after_typing b1 u b2"
  shows "after_typing b (t @ u) b2"
proof -
  let ?cs = "carets (selection b)" and ?xs = "node_bytes (data b)"
  have s: "sorted_wrt (<) ?cs" "\<forall>c \<in> set ?cs. 0 \<le> c \<and> c \<le> length ?xs"
    using assms(1,2) carets_sorted carets_bounded by auto
  have "carets (selection b1) = map (\<lambda>x. length [] + coord 0 (ins t ?cs) x) ?cs"
    using assms(3) coord_carets [OF s(1), of 0 _ t] by (intro nth_equalityI) (auto simp: after_typing_def)
  then have "node_bytes (data b2) = apply_edits 0 (ins (t @ u) ?cs) ?xs"
    using insert_twice [OF s, of "[]" u t] assms(3,4) by (simp add: after_typing_def)
  with assms(3,4) show ?thesis by (auto simp: after_typing_def distrib_left)
qed

context xi_rope
begin

lemma insertion_carets:
  assumes "sel_wf sel" "in_bounds n sel" "built X bden d n (ins t (carets sel))" "sel_apply_delta X sel d n = Inr sel'"
    and "new_document_len X d \<noteq> 0"
  shows "carets sel' = map (coord 0 (ins t (carets sel))) (carets sel)"
proof -
  have ok: "edits_ok n 0 (ins t (carets sel))" using assms(3) by (auto simp: built_def)
  obtain base :: node where b: "node_len base = n" using that [of "[replicate n 0]"] by simp
  have le: "coord 0 (ins t (carets sel)) i \<le> new_document_len X d" if "i \<le> n" for i
    using coord_le_length [OF ok, of "node_bytes base" i] built_apply [OF assms(3) b] b that by auto
  then have off: "delta_offset X d n i = coord 0 (ins t (carets sel)) i" if "i \<le> n" for i
    using built_offset_le [OF assms(3) that] that by simp
  have "\<forall>(s, e, x) \<in> set (ins t (carets sel)). s = e" by (auto simp: ins_def)
  then have strict: "offset_strict X d n"
    unfolding offset_strict_def using coord_insertions_strict [OF _ _ _ ok] off by simp
  obtain st out nm where loop: "map_loop (single (delta_region X d n) stateless) (main_selection sel) 0 (regions sel) () [] 0 =
      Inr (st, out, nm)" and out: "regions sel' = out"
    using assms(4,5) by (auto simp: sel_apply_delta_def sel_map_selections_def res_simps)
  have "map caret out = map (\<lambda>r. caret (projr (delta_region X d n r))) (regions sel)"
    using delta_strict.strict_loop_carets [OF loop] strict assms(1,2) by (auto simp: sel_wf_def in_bounds_def)
  with out off in_bounds_caret [OF assms(2)] show ?thesis by (simp add: carets_def delta_region_def)
qed

lemma type_insertion:
  assumes b: "sel_wf (selection b)" "in_bounds (node_len (data b)) (selection b)" "buf_rel X delta_ok b S" and t: "node_bytes nw \<noteq> []"
  shows "\<exists>b'. incomplete_with X (insert_op X (data b) (selection b) nw) tr b = Inr (Some (tr ChangeLength), b') \<and>
    after_typing b (node_bytes nw) b' \<and> type_step X delta_ok b b'"
proof -
  let ?n = "node_len (data b)" and ?es = "ins (node_bytes nw) (carets (selection b))"
  obtain d where d: "insert_op X (data b) (selection b) nw = Inr d" "built X bden d ?n ?es"
    using insert_built [OF b(1,2), of nw] by (auto simp: ins_carets carets_def)
  obtain r where r: "delta_apply X d (data b) = Inr r" "node_bytes r = apply_edits 0 ?es (node_bytes (data b))"
    "new_document_len X d = node_len r" using built_apply [OF d(2) refl] by auto
  have only: "\<forall>(s, e, x) \<in> set ?es. s = e" by (auto simp: ins_def)
  obtain sel' where sel': "sel_apply_delta X (selection b) d ?n = Inr sel'" "sel_wf sel'" "in_bounds (node_len r) sel'"
    using insertion_sel_moves [OF b(1,2) d(2) only] r(3) by (auto simp: sel_moves_def)
  have "regions (selection b) \<noteq> []" using b(1) by (simp add: sel_wf_def)
  then have "node_bytes r \<noteq> []" using r(2) t by (cases "regions (selection b)") (auto simp: carets_def)
  then have cs: "carets sel' = map (coord 0 ?es) (carets (selection b))"
    using insertion_carets [OF b(1,2) d(2) sel'(1)] r(3) by simp
  have m: "moves X delta_ok d (node_bytes (data b)) (node_bytes r)"
    using moves_applied [OF _ _ r(1)] built_ok [OF d(2)] by simp
  obtain h where h: "perform_partial X (history b) (data b) d (selection b) = Inr h"
    using perform_partial_rel [OF b(3) [unfolded buf_rel_def] m, of "selection b"] by auto
  let ?b = "b\<lparr>history := h, data := r, dirty := True, selection := sel'\<rparr>"
  have step: "apply_incomplete_delta X b d = Inr (ChangeLength, ?b)"
    using r(1) h sel'(1) by (simp add: apply_incomplete_delta_def apply_delta_to_current_buffer_def rope_apply_delta_def rope_len_def Let_def)
  have "after_typing b (node_bytes nw) ?b"
    using sel'(2,3) r(2) cs coord_carets [OF carets_sorted [OF b(1)], of 0] by (simp add: after_typing_def)
  moreover have "type_step X delta_ok b ?b" using type_step.incomplete [OF _ _ step] built_ok [OF d(2)] by blast
  ultimately show ?thesis using d(1) step by (auto simp: incomplete_with_def)
qed

end

section \<open>A session\<close>

fun type_keys :: "('c, 'b, 'd, 's) xi \<Rightarrow> insertion_mode \<Rightarrow> nat \<Rightarrow> rchar list \<Rightarrow> 'd buffer \<Rightarrow> 'd buffer res" where
  "type_keys X m bpl [] b = Inr b"
| "type_keys X m bpl (c # cs) b =
     rbind (insert_transition X m False None (Key (KeyEvent (Char c) NONE)) bpl b) (\<lambda>(_, b'). type_keys X m bpl cs b')"

lemma utf8_nonempty: "utf8 c \<noteq> []"
  by (simp add: utf8_def)

lemma plain_key: "event_to_action insert_maps (Key (KeyEvent (Char c) NONE)) = None"
  by (simp add: insert_maps_def key_defs)

context xi_rope
begin

lemma type_key:
  assumes "sel_wf (selection b)" "in_bounds (node_len (data b)) (selection b)" "buf_rel X delta_ok b S" "m \<noteq> IOverwrite"
  shows "\<exists>t b'. insert_transition X m False None (Key (KeyEvent (Char c) NONE)) bpl b = Inr (t, b') \<and>
    after_typing b (utf8 c) b' \<and> type_step X delta_ok b b'"
proof -
  have "insert_transition X m False None (Key (KeyEvent (Char c) NONE)) bpl b =
      incomplete_with X (insert_op X (data b) (selection b) (rope_from_vec X (utf8 c))) Dirty b"
    using assms(4) plain_key [of c] by (cases m)
      (simp_all add: insert_transition_def no_modifiers_def without_shift_def NONE_def transition_ascii_insertion_def Let_def)
  then show ?thesis
    using type_insertion [OF assms(1-3), of "rope_from_vec X (utf8 c)" Dirty] utf8_nonempty [of c] by (auto simp: rope_from_vec_bytes)
qed

lemma type_keys_text:
  assumes "sel_wf (selection b)" "in_bounds (node_len (data b)) (selection b)" "buf_rel X delta_ok b S" "m \<noteq> IOverwrite"
  shows "\<exists>b'. type_keys X m bpl cs b = Inr b' \<and> after_typing b (concat (map utf8 cs)) b' \<and> (type_step X delta_ok)\<^sup>*\<^sup>* b b'"
  using assms(1-3)
proof (induction cs arbitrary: b S)
  case Nil
  then show ?case using after_typing_start by auto
next
  case (Cons c cs)
  obtain t b1 where b1: "insert_transition X m False None (Key (KeyEvent (Char c) NONE)) bpl b = Inr (t, b1)"
    "after_typing b (utf8 c) b1" "type_step X delta_ok b b1" using type_key [OF Cons.prems assms(4)] by blast
  obtain b2 where b2: "type_keys X m bpl cs b1 = Inr b2" "after_typing b1 (concat (map utf8 cs)) b2"
    "(type_step X delta_ok)\<^sup>*\<^sup>* b1 b2"
    using Cons.IH [OF _ _ type_step_rel [OF b1(3) Cons.prems(3)]] b1(2) unfolding after_typing_def by blast
  show ?case
    using b1 b2 after_typing_trans [OF Cons.prems(1,2) b1(2) b2(2)] by (auto intro: converse_rtranclp_into_rtranclp)
qed

lemma inserted_document:
  assumes "sel_wf sel" "in_bounds (node_len base) sel"
  shows "apply_edits 0 (ins t (carets sel)) (node_bytes base) =
    by_offset (\<lambda>i. (if careted sel i then t else []) @ byte_at (node_bytes base) i) (node_bytes base)"
proof -
  have "edits_ok (node_len base) 0 (ins t (carets sel))"
    using insert_built [OF assms, of "[t]"] by (auto simp: built_def ins_carets carets_def)
  moreover have "spliced (ins t (carets sel)) (node_bytes base) = (\<lambda>i. (if careted sel i then t else []) @ byte_at (node_bytes base) i)"
    using spliced_insert [OF assms(1), of t "node_bytes base"] by (auto simp: ins_carets carets_def)
  ultimately show ?thesis using apply_edits_spliced [of "node_bytes base" 0 "ins t (carets sel)"] by (simp add: by_offset_def)
qed

end

text \<open>
  C3: typing a text in the insert or append mode puts its UTF-8 encoding in front of the byte under each caret,
  as if it had been inserted at once, whatever number of keys it took; leaving the mode with \<open>Esc\<close> keeps the
  document, and one undo then restores the document and the selection from before the first key. None of this panics.
\<close>

theorem typing_inserts:
  assumes "xi_rope X cur_at bden delta_ok msk ins_ok" "session X delta_ok b" "partial (history b) = None"
    and "sel_wf (selection b)" "in_bounds (node_len (data b)) (selection b)" "m \<noteq> IOverwrite" "cs \<noteq> []"
  shows "\<exists>b1 b2 b3. type_keys X m bpl cs b = Inr b1 \<and>
    node_bytes (data b1) = by_offset (\<lambda>i. (if careted (selection b) i then concat (map utf8 cs) else []) @
      byte_at (node_bytes (data b)) i) (node_bytes (data b)) \<and>
    sel_wf (selection b1) \<and> in_bounds (node_len (data b1)) (selection b1) \<and>
    insert_transition X m False None (Key (KeyEvent Esc NONE)) bpl b1 = Inr (Some (NewMode normal_new), b2) \<and>
    now b2 = now b1 \<and> perform_undo X b2 = Inr (Some ChangeLength, b3) \<and> now b3 = now b"
proof -
  have h: "xi_history X bden delta_ok msk ins_ok" using assms(1) by (simp add: xi_rope_def)
  obtain S where S: "buf_rel X delta_ok b S" using xi_history.session_rel [OF h assms(2)] by blast
  have t: "typing S = None" using xi_history.typing_partial [OF h S] assms(3) by simp
  obtain c cs' where c: "cs = c # cs'" using assms(7) by (cases cs) auto
  obtain tr b0 where b0: "insert_transition X m False None (Key (KeyEvent (Char c) NONE)) bpl b = Inr (tr, b0)"
    "after_typing b (utf8 c) b0" "type_step X delta_ok b b0"
    using xi_rope.type_key [OF assms(1,4,5) S assms(6)] by blast
  obtain b1 where b1: "type_keys X m bpl cs' b0 = Inr b1" "after_typing b0 (concat (map utf8 cs')) b1"
    "(type_step X delta_ok)\<^sup>*\<^sup>* b0 b1"
    using xi_rope.type_keys_text [OF assms(1) _ _ xi_history.type_step_rel [OF h b0(3) S] assms(6)] b0(2)
    unfolding after_typing_def by blast
  have a: "after_typing b (concat (map utf8 cs)) b1"
    using after_typing_trans [OF assms(4,5) b0(2) b1(2)] by (simp add: c)
  have "(type_step X delta_ok)\<^sup>+\<^sup>+ b b1" using b0(3) b1(3) by (rule rtranclp_into_tranclp2)
  then obtain b3 where "perform_undo X (commit_delta b1) = Inr (Some ChangeLength, b3)" "now b3 = now b"
    using xi_history.typing_undone [OF h _ S t] by blast
  moreover have "insert_transition X m False None (Key (KeyEvent Esc NONE)) bpl b1 = Inr (Some (NewMode normal_new), commit_delta b1)"
    by (simp add: insert_transition_def insert_maps_def key_defs)
  moreover have "now (commit_delta b1) = now b1" by (simp add: now_def commit_delta_def)
  moreover have "type_keys X m bpl cs b = Inr b1" using b0(1) b1(1) by (simp add: c)
  moreover have "node_bytes (data b1) = by_offset (\<lambda>i. (if careted (selection b) i then concat (map utf8 cs) else []) @
      byte_at (node_bytes (data b)) i) (node_bytes (data b))"
    using a xi_rope.inserted_document [OF assms(1,4,5)] unfolding after_typing_def by metis
  moreover have "sel_wf (selection b1)" "in_bounds (node_len (data b1)) (selection b1)" 
    using a unfolding after_typing_def by blast+
  ultimately show ?thesis by blast
qed

theorem typing_inserts_witness:
  "\<exists>b1 b2 b3. type_keys ref_xi IInsert 16 [0x41, 0xE9] demo_b0 = Inr b1 \<and> node_bytes (data b1) = [0x41, 0xC3, 0xA9, 1, 2, 3] \<and>
    insert_transition ref_xi IInsert False None (Key (KeyEvent Esc NONE)) 16 b1 = Inr (Some (NewMode normal_new), b2) \<and>
    perform_undo ref_xi b2 = Inr (Some ChangeLength, b3) \<and> now b3 = now demo_b0"
proof -
  have d: "node_bytes (data demo_b0) = [1, 2, 3]" "selection demo_b0 = selection_new"
    by (simp_all add: demo_b0_def from_data_and_path_def ref_tree.rope_from_vec_bytes)
  have "by_offset (\<lambda>i. (if careted selection_new i then concat (map utf8 [0x41, 0xE9]) else []) @
      byte_at [1, 2, 3] i) [1, 2, 3] = [0x41, 0xC3, 0xA9, 1, 2, 3]" by code_simp
  with typing_inserts [OF ref_xi_rope demo_session(1,2), of IInsert "[0x41, 0xE9]" 16] d selection_new_ok
  show ?thesis by auto
qed

end
