(* ===== verification/Spec2Isabelle.thy ===== *)
theory Spec2Isabelle
  imports View_Theorems Normal_Props Split_Props Command_Props Typing_Props
begin

text \<open>
  \<^bold>\<open>Tofu, a modal hex editor\<close>

  The program keeps a collection of open buffers. A buffer has a document (a rope of bytes), a selection (one or
  more regions, one of them the main one), registers, and a history for undo and redo. The current mode turns every
  terminal event into a change of the current buffer and a transition: a new mode, the part of the screen to redraw,
  a message. The view shows a window of the document and follows the main caret. The main program opens the file and
  runs the event loop of the view.

  \<^bold>\<open>Conventions.\<close> Every panic is a value: an operation that can panic returns \<open>'a res\<close>, with the
  reason as \<open>Inl\<close>. \<open>usize\<close> and \<open>isize\<close> are numbers with checked arithmetic (\<open>uadd\<close>,
  \<open>usub\<close>, \<open>umul\<close>, \<open>ichecked\<close>) and with the casts and the saturating operations of the source
  written out; bytes are 8-bit words. Errors of input and output are values of a second sum, \<open>'a io\<close>. A struct is
  a record, an enum a datatype, a method with \<open>&mut self\<close> returns the new state, a closure with captured state is
  a function from state to state, and a terminal command is a value of the type \<open>out\<close>.

  \<^bold>\<open>Theories and sources.\<close>

  \<^item> \<open>Tofu_Prelude\<close>: results, loops that may panic, vectors, machine integers.
  \<^item> \<open>Mask_Algebra\<close>: subsets of positions and edit scripts, the mathematics behind deltas.
  \<^item> \<open>Xi_Rope\<close>: the interface of the crate xi-rope (intervals, trees and cursors, deltas and their factors) as
    a record of operations and five locales (\<open>xi_interval\<close>, \<open>xi_tree\<close>, \<open>xi_delta\<close>, \<open>xi_history\<close>
    and their union \<open>xi_rope\<close>) that state its documented behaviour, with an executable reference implementation
    on which all of them are interpreted.
  \<^item> \<open>Byte_Rope\<close>: \<open>src/byte_rope.rs\<close>. Slices, conversions and dumps agree with the bytes.
  \<^item> \<open>Selection\<close>, \<open>Selection_Props\<close>: \<open>src/selection.rs\<close>. The locales \<open>region_map\<close>,
    \<open>total_region_map\<close> and \<open>range_map\<close> are the contract of a closure given to \<open>map_selections\<close>: which of
    them keep the selection well formed, which never panic, which merge nothing. They are interpreted on the closures of
    the commands (moving, jumping, extending, turning, collapsing, following a delta). The binary search equals a filter.
  \<^item> \<open>Operations\<close>: \<open>src/operations.rs\<close>. Each edit builds a delta without a panic, and the resulting
    document is given byte by byte.
  \<^item> \<open>History\<close>: \<open>src/history.rs\<close>. Inverting and chaining of deltas; the stacks refine a history of
    snapshots (\<open>hist_rel\<close>).
  \<^item> \<open>Current_Buffer\<close>, \<open>Buffer_Props\<close>, \<open>Buffer_Selections\<close>, \<open>Edit_Selections\<close>:
    \<open>src/current_buffer.rs\<close>. Sessions of edits as an inductive relation, with the log of snapshots an observer keeps;
    undo and redo walk through that log;
    loading chunk by chunk; the collection of buffers; the dirty ranges; the selection after an edit
    (locale \<open>strict_region_map\<close>).
  \<^item> \<open>Keymap\<close>, \<open>Cmd_Count\<close>: \<open>src/keymap.rs\<close>, \<open>src/cmd_count.rs\<close>.
  \<^item> \<open>Search\<close>, \<open>Search_Props\<close>: the patterns of \<open>src/modes/search.rs\<close> and how they are matched; the
    locale \<open>finder_spec\<close> states what is relied on of the crates jetscii and regex, the latter over the syntax of
    its expressions (\<open>regex_parse\<close>), and is interpreted on a reference implementation; the expression built of a
    pattern is proved to mean that pattern.
  \<^item> \<open>Modes\<close>, \<open>Editing_Modes\<close>, \<open>Mode_Machine\<close>: \<open>src/modes/\<close>, one transition function per
    mode, and the dispatch over all modes.
  \<^item> \<open>Normal_Props\<close>: the invariant of a buffer and that the commands of the normal mode keep it without a
    panic. \<open>Split_Props\<close>: what collapsing and splitting do to the selection. \<open>Command_Props\<close>: the invariant
    of the search prompt by rule induction over what can be typed, and writing all buffers. \<open>Typing_Props\<close>:
    a typing session as a whole.
  \<^item> \<open>Styling\<close>, \<open>Byte_Properties\<close>, \<open>Prompt\<close>, \<open>Hex_View\<close>, \<open>View_Loop\<close>:
    \<open>src/hex_view/\<close> and \<open>src/bin/tofu.rs\<close>. The whole of drawing, scrolling, the window on the file and the
    event loop.
  \<^item> \<open>Highlight\<close>, \<open>View_Props\<close>, \<open>View_Theorems\<close>: every visible byte is drawn in its place on the
    background its region gives it, the main caret is brought into view, and when drawing fails.

  \<^bold>\<open>Parameters.\<close> Code that is not part of the repository is an argument of the definitions: \<open>X\<close>, the
  operations of xi-rope; \<open>Y\<close>, the two search engines; \<open>U\<close>, the two Unicode tables behind the debug format
  of a character; \<open>F\<close>, the file system, with failing opens, failing operations on open files and writes that
  stop halfway; the size of the terminal. Every theorem that assumes one of the locales has
  a witness on the reference implementation.

  \<^bold>\<open>Loops.\<close> Loops over vectors are structural. Fuel is used for the loop over the chunks of a rope (one more than
  its leaves, proved enough), for the substring search (one more than the bytes searched, proved enough), for loading a
  file in chunks to its end (more than the bytes missing, proved enough), for the loop that finishes the byte properties below the
  last row (proved enough in a terminal with room for them, and proved to run out for every fuel in one of two to
  four rows). The event loop is recursive on the list of the events that arrive.

  \<^bold>\<open>What the theorems show.\<close> Undo, redo and typing (\<open>undo_redo_walk\<close>, \<open>edit_then_undo\<close>,
  \<open>typing_then_undo\<close>, \<open>typing_inserts\<close>, over \<open>invert_correct\<close> and \<open>chain_correct\<close>); the edits, byte by byte; the
  safety of the normal mode (\<open>normal_mode_safe\<close>); searching, collapsing and splitting (\<open>matches_correct\<close>,
  \<open>collapse_correct\<close>, \<open>split_correct\<close>, \<open>split_width_correct\<close>); selections (\<open>visible_regions\<close>,
  \<open>move_keeps_selection\<close>, \<open>cycle_roundtrip\<close>); files (\<open>load_all_correct\<close>, \<open>collection_correct\<close>,
  \<open>write_all_correct\<close>); the screen (\<open>screen_drawn\<close>, \<open>caret_brought_into_view\<close>,
  \<open>changed_rows_redrawn\<close>, \<open>status_line_placed\<close>); decoding and counts. Some theorems state defects exactly: loading after an edit breaks
  the undo entries, a file longer than the screen is truncated by writing it back, trimming the window removes bytes from
  the document, removing a region can leave two main flags, extending selections towards each other panics, small
  terminals panic or hang, and a collapse or split panics when the main region and those before it leave nothing.

  \<^bold>\<open>Not modelled.\<close> \<open>debug_log\<close>, which a constant disables; the time measured while drawing; writes to the
  terminal are assumed to succeed; the unit tests; \<open>src/lib.rs\<close>, which only declares modules; \<open>Display\<close> of a
  region, which only formats. Memory is not bounded: a vector never fails to grow.
\<close>

end
